(* ===== verification/Prelude.thy ===== *)
theory Prelude
  imports Main "HOL-Library.Word" "HOL-Library.AList"
begin

unbundle bit_operations_syntax

text \<open>
  Shared vocabulary of the development: machine integers and byte strings, the little-endian
  codec behind Rust's \<open>to_le_bytes\<close> / \<open>from_le_bytes\<close>, a state-and-error computation type that
  plays the part of functions returning \<open>Result\<close> and using \<open>?\<close>, and the generic lemmas on
  words, lists and association lists that the component theories use.
\<close>

section \<open>Types\<close>

type_synonym u8 = "8 word"
type_synonym u32 = "32 word"
type_synonym u64 = "64 word"
type_synonym bytes = "u8 list"

named_theorems io_simps \<open>results of operating-system calls when no fault is pending\<close>
named_theorems layout_simps \<open>sizes and slices of the on-disk records\<close>

section \<open>Little-endian integers\<close>

fun le_encode :: "nat \<Rightarrow> 'a::len word \<Rightarrow> bytes" where
  "le_encode 0 w = []"
| "le_encode (Suc n) w = ucast w # le_encode n (drop_bit 8 w)"

fun le_decode :: "bytes \<Rightarrow> 'a::len word" where
  "le_decode [] = 0"
| "le_decode (b # bs) = ucast b OR push_bit 8 (le_decode bs)"

definition le32 :: "u32 \<Rightarrow> bytes" where
  "le32 w = le_encode 4 w"

definition le64 :: "u64 \<Rightarrow> bytes" where
  "le64 w = le_encode 8 w"

lemma length_le_encode [simp]: "length (le_encode n w) = n"
  by (induction n arbitrary: w) auto

lemma le_decode_encode: "le_decode (le_encode n w) = take_bit (8 * n) (w :: 'a::len word)"
proof (induction n arbitrary: w)
  case 0
  then show ?case by simp
next
  case (Suc n)
  show ?case
  proof (rule bit_word_eqI)
    fix k
    assume "k < LENGTH('a)"
    then show "bit (le_decode (le_encode (Suc n) w) :: 'a word) k = bit (take_bit (8 * Suc n) w) k"
      by (auto simp: Suc bit_or_iff bit_push_bit_iff bit_take_bit_iff bit_drop_bit_eq
          bit_ucast_iff)
  qed
qed

lemma bit_le_decode_high: "bit (le_decode bs :: 'a::len word) k \<Longrightarrow> k < 8 * length bs"
proof (induction bs arbitrary: k)
  case Nil
  then show ?case by simp
next
  case (Cons b bs)
  show ?case
  proof (cases "bit (push_bit 8 (le_decode bs :: 'a word)) k")
    case True
    then have "8 \<le> k" and "bit (le_decode bs :: 'a word) (k - 8)"
      by (auto simp: bit_push_bit_iff)
    then show ?thesis using Cons.IH [of "k - 8"] by simp
  next
    case False
    with Cons.prems have "bit (ucast b :: 'a word) k" by (simp add: bit_or_iff)
    then have "k < 8" by (auto simp: bit_ucast_iff dest: bit_imp_le_length)
    then show ?thesis by simp
  qed
qed

lemma le_encode_decode:
  "8 * length bs \<le> LENGTH('a) \<Longrightarrow> le_encode (length bs) (le_decode bs :: 'a::len word) = bs"
proof (induction bs)
  case Nil
  then show ?case by simp
next
  case (Cons b bs)
  have hd_byte: "(ucast (ucast b OR push_bit 8 (le_decode bs) :: 'a word) :: u8) = b"
    using Cons.prems by (intro bit_word_eqI)
      (auto simp: bit_or_iff bit_push_bit_iff bit_ucast_iff)
  have tl_word: "drop_bit 8 (ucast b OR push_bit 8 (le_decode bs) :: 'a word) = le_decode bs"
  proof (rule bit_word_eqI)
    fix k
    assume k: "k < LENGTH('a)"
    have hi: "8 + k < LENGTH('a)" if "bit (le_decode bs :: 'a word) k"
      using bit_le_decode_high [OF that] Cons.prems by simp
    have lo: "\<not> bit b (8 + k)" by (auto dest: bit_imp_le_length)
    show "bit (drop_bit 8 (ucast b OR push_bit 8 (le_decode bs) :: 'a word)) k
          = bit (le_decode bs :: 'a word) k"
      using hi lo by (auto simp: bit_drop_bit_eq bit_or_iff bit_push_bit_iff bit_ucast_iff)
  qed
  show ?case
    using Cons.IH Cons.prems hd_byte tl_word by simp
qed

lemma length_le32 [simp, layout_simps]: "length (le32 w) = 4"
  by (simp add: le32_def)

lemma length_le64 [simp, layout_simps]: "length (le64 w) = 8"
  by (simp add: le64_def)

lemma le32_decode [simp]: "le_decode (le32 w) = w"
  using le_decode_encode [of 4 w] take_bit_length_eq [of w] by (simp add: le32_def)

lemma le64_decode [simp]: "le_decode (le64 w) = w"
  using le_decode_encode [of 8 w] take_bit_length_eq [of w] by (simp add: le64_def)

lemma decode_le32: "length bs = 4 \<Longrightarrow> le32 (le_decode bs) = bs"
  using le_encode_decode [of bs, where 'a = 32] by (simp add: le32_def)

lemma decode_le64: "length bs = 8 \<Longrightarrow> le64 (le_decode bs) = bs"
  using le_encode_decode [of bs, where 'a = 64] by (simp add: le64_def)

section \<open>Slices\<close>

text \<open>Rust's \<open>buf[i..j]\<close>, for \<open>i \<le> j \<le> len\<close>.\<close>

definition slice :: "nat \<Rightarrow> nat \<Rightarrow> 'a list \<Rightarrow> 'a list" where
  "slice i j xs = take (j - i) (drop i xs)"

lemma length_slice [simp]: "j \<le> length xs \<Longrightarrow> length (slice i j xs) = j - i"
  by (simp add: slice_def)

lemma slice_append_left: "j \<le> length xs \<Longrightarrow> slice i j (xs @ ys) = slice i j xs"
  by (simp add: slice_def)

lemma slice_append_right:
  "length xs \<le> i \<Longrightarrow> slice i j (xs @ ys) = slice (i - length xs) (j - length xs) ys"
  by (simp add: slice_def)

lemma slice_exact: "length xs = i \<Longrightarrow> length ys = j - i \<Longrightarrow> slice i j (xs @ ys @ zs) = ys"
  by (simp add: slice_def)

lemma slice_join:
  assumes "i \<le> j" and "j \<le> k"
  shows "slice i j xs @ slice j k xs = slice i k xs"
proof -
  have "drop j xs = drop (j - i) (drop i xs)" using assms(1) by simp
  moreover have "k - i = (j - i) + (k - j)" using assms by simp
  ultimately show ?thesis by (simp only: slice_def take_add)
qed

lemma slice_whole: "length xs = n \<Longrightarrow> slice 0 n xs = xs"
  by (simp add: slice_def)

section \<open>Computations with a state and an error\<close>

text \<open>
  A function that mutates a state of type \<open>'s\<close> and returns a \<open>Result\<close>. The state is returned
  on both branches: what was mutated before an early return by \<open>?\<close> stays mutated.
\<close>

type_synonym ('s, 'e, 'a) act = "'s \<Rightarrow> ('e + 'a) \<times> 's"

definition retE :: "'a \<Rightarrow> ('s, 'e, 'a) act" where
  "retE x s = (Inr x, s)"

definition throwE :: "'e \<Rightarrow> ('s, 'e, 'a) act" where
  "throwE e s = (Inl e, s)"

definition bindE :: "('s, 'e, 'a) act \<Rightarrow> ('a \<Rightarrow> ('s, 'e, 'b) act) \<Rightarrow> ('s, 'e, 'b) act" where
  "bindE m f s = (case m s of (Inl e, s') \<Rightarrow> (Inl e, s') | (Inr x, s') \<Rightarrow> f x s')"

text \<open>Run a computation on a part of the state, selected by \<open>g\<close> and written back by \<open>p\<close>.\<close>

definition zoom :: "('s \<Rightarrow> 't) \<Rightarrow> ('t \<Rightarrow> 's \<Rightarrow> 's) \<Rightarrow> ('t, 'e, 'a) act \<Rightarrow> ('s, 'e, 'a) act" where
  "zoom g p m s = (case m (g s) of (r, t) \<Rightarrow> (r, p t s))"

text \<open>The conversion \<open>From\<close> that \<open>?\<close> applies to the error.\<close>

definition map_err :: "('e \<Rightarrow> 'f) \<Rightarrow> ('s, 'e, 'a) act \<Rightarrow> ('s, 'f, 'a) act" where
  "map_err f m s = (case m s of (Inl e, s') \<Rightarrow> (Inl (f e), s') | (Inr x, s') \<Rightarrow> (Inr x, s'))"

lemma retE_apply [simp]: "retE x s = (Inr x, s)"
  by (simp add: retE_def)

lemma throwE_apply [simp]: "throwE e s = (Inl e, s)"
  by (simp add: throwE_def)

lemma bindE_Inr: "m s = (Inr x, s') \<Longrightarrow> bindE m f s = f x s'"
  by (simp add: bindE_def)

lemma bindE_Inl: "m s = (Inl e, s') \<Longrightarrow> bindE m f s = (Inl e, s')"
  by (simp add: bindE_def)

lemma bindE_InrE:
  assumes "bindE m f s = (Inr y, t)"
  obtains x s' where "m s = (Inr x, s')" and "f x s' = (Inr y, t)"
  using assms by (auto simp: bindE_def split: prod.splits sum.splits)

lemma bindE_cases:
  assumes "bindE m f s = (r, t)"
  obtains (err) e where "m s = (Inl e, t)" and "r = Inl e"
    | (ok) x s' where "m s = (Inr x, s')" and "f x s' = (r, t)"
  using assms by (auto simp: bindE_def split: prod.splits sum.splits)

lemma bindE_retE [simp]: "bindE (retE x) f = f x"
  by (simp add: bindE_def fun_eq_iff)

lemma bindE_assoc: "bindE (bindE m f) g = bindE m (\<lambda>x. bindE (f x) g)"
  by (auto simp: bindE_def fun_eq_iff split: prod.splits sum.splits)

section \<open>Association lists\<close>

lemma map_of_filter_key: "map_of (filter (\<lambda>(k, v). k \<noteq> x) xs) = (map_of xs)(x := None)"
  by (induction xs) (auto simp: fun_eq_iff)

lemma distinct_map_of_eq:
  "distinct (map fst xs) \<Longrightarrow> (k, v) \<in> set xs \<longleftrightarrow> map_of xs k = Some v"
  by (auto simp: map_of_eq_Some_iff)

end
