(* ===== verification/OsModel.thy ===== *)
theory OsModel
  imports Prelude
begin

text \<open>
  What the program uses of \<open>std::fs\<close>, \<open>std::io\<close> and the operating system below them. The
  datastore directory is a list of names bound to inodes; an open \<open>File\<close> is an inode number, so
  a handle outlives the name it was opened under, as on Unix. Every system call first consumes
  one entry of a list of outcomes (\<open>w_outs\<close>): an error, a short transfer, or nothing special. An
  empty list is a machine without faults. Each inode also records how long a prefix of its data
  a successful \<open>sync_data\<close> has made durable.
\<close>

section \<open>The world\<close>

datatype io_error = NotFound | Interrupted | WriteZero | UnexpectedEof | OsError nat

datatype outcome = Fine | Short nat | Fail io_error

text \<open>The crate's warnings, which go to standard error (or to the tracing back end).\<close>

datatype warning =
    TruncatedClosedFile u32 u64
  | CorruptEntry u32 u64
  | HintCrcFailed u32
  | HintRecordTruncated u32
  | HintOutOfBounds u32 u64 u32
  | MergeTruncatedEntry u32 u64
  | MergeCorruptEntry u32 u64

record inode =
  i_data :: bytes
  i_durable :: nat

record world =
  w_dir :: "(string \<times> nat) list"
  w_inodes :: "inode list"
  w_locks :: "nat list"
  w_outs :: "outcome list"
  w_warnings :: "warning list"

type_synonym 'a io = "(world, io_error, 'a) act"

definition empty_world :: world where
  "empty_world = \<lparr>w_dir = [], w_inodes = [], w_locks = [], w_outs = [], w_warnings = []\<rparr>"

definition lookup :: "string \<Rightarrow> world \<Rightarrow> nat option" where
  "lookup name w = map_of (w_dir w) name"

definition data_of :: "nat \<Rightarrow> world \<Rightarrow> bytes" where
  "data_of i w = (if i < length (w_inodes w) then i_data (w_inodes w ! i) else [])"

definition file_bytes :: "string \<Rightarrow> world \<Rightarrow> bytes option" where
  "file_bytes name w = map_option (\<lambda>i. data_of i w) (lookup name w)"

section \<open>System calls\<close>

text \<open>The error of the next call, if it has one, and how much it transfers of \<open>n\<close> bytes.\<close>

fun fault :: "outcome list \<Rightarrow> io_error option" where
  "fault (Fail e # os) = Some e"
| "fault os = None"

fun chunk :: "nat \<Rightarrow> outcome list \<Rightarrow> nat" where
  "chunk n (Short k # os) = min n (max 1 k)"
| "chunk n os = n"

text \<open>
  All calls but \<open>read\<close> and \<open>write\<close> are restarted by the standard library when a signal
  interrupts them, so an \<open>Interrupted\<close> outcome is skipped.
\<close>

definition sys :: "'a io \<Rightarrow> 'a io" where
  "sys m w =
     (let outs = dropWhile (\<lambda>x. x = Fail Interrupted) (w_outs w); w' = w\<lparr>w_outs := tl outs\<rparr>
      in case fault outs of Some e \<Rightarrow> (Inl e, w') | None \<Rightarrow> m w')"

definition new_file :: "string \<Rightarrow> nat io" where
  "new_file name w =
     (Inr (length (w_inodes w)),
      w\<lparr>w_dir := (name, length (w_inodes w)) # w_dir w,
        w_inodes := w_inodes w @ [\<lparr>i_data = [], i_durable = 0\<rparr>]\<rparr>)"

text \<open>\<open>OpenOptions::new().create(true).append(true).read(true).open(path)\<close>\<close>

definition open_append :: "string \<Rightarrow> nat io" where
  "open_append name =
     sys (\<lambda>w. case lookup name w of Some i \<Rightarrow> (Inr i, w) | None \<Rightarrow> new_file name w)"

text \<open>\<open>File::open(path)\<close>\<close>

definition open_read :: "string \<Rightarrow> nat io" where
  "open_read name = sys (\<lambda>w. case lookup name w of Some i \<Rightarrow> (Inr i, w) | None \<Rightarrow> (Inl NotFound, w))"

text \<open>\<open>File::create(path)\<close>: create the file, or truncate the one that is there.\<close>

definition create_file :: "string \<Rightarrow> nat io" where
  "create_file name =
     sys (\<lambda>w. case lookup name w of
         Some i \<Rightarrow> (Inr i, w\<lparr>w_inodes := (w_inodes w)[i := \<lparr>i_data = [], i_durable = 0\<rparr>]\<rparr>)
       | None \<Rightarrow> new_file name w)"

definition file_len :: "nat \<Rightarrow> u64 io" where
  "file_len i = sys (\<lambda>w. (Inr (of_nat (length (data_of i w))), w))"

text \<open>\<open>fs::metadata(path)?.len()\<close>\<close>

definition path_len :: "string \<Rightarrow> u64 io" where
  "path_len name =
     sys (\<lambda>w. case lookup name w of
         Some i \<Rightarrow> (Inr (of_nat (length (data_of i w))), w)
       | None \<Rightarrow> (Inl NotFound, w))"

definition try_clone :: "nat \<Rightarrow> nat io" where
  "try_clone i = sys (retE i)"

definition remove_file :: "string \<Rightarrow> unit io" where
  "remove_file name =
     sys (\<lambda>w. case lookup name w of
         Some i \<Rightarrow> (Inr (), w\<lparr>w_dir := AList.delete name (w_dir w)\<rparr>)
       | None \<Rightarrow> (Inl NotFound, w))"

text \<open>\<open>Path::exists\<close>: any error counts as "no".\<close>

definition path_exists :: "string \<Rightarrow> world \<Rightarrow> bool \<times> world" where
  "path_exists name w =
     (case sys (\<lambda>w. (Inr (lookup name w \<noteq> None), w)) w of
        (Inl _, w') \<Rightarrow> (False, w') | (Inr b, w') \<Rightarrow> (b, w'))"

text \<open>\<open>fs::read(path)\<close>: open, then read to the end (one outcome for each of the two).\<close>

definition read_file :: "string \<Rightarrow> bytes io" where
  "read_file name = bindE (open_read name) (\<lambda>i. sys (\<lambda>w. (Inr (data_of i w), w)))"

definition create_dir_all :: "unit io" where
  "create_dir_all = sys (retE ())"

text \<open>\<open>File::sync_data\<close>\<close>

definition sync_data :: "nat \<Rightarrow> unit io" where
  "sync_data i =
     sys (\<lambda>w. (Inr (),
       w\<lparr>w_inodes := (w_inodes w)[i := (w_inodes w ! i)\<lparr>i_durable := length (data_of i w)\<rparr>]\<rparr>))"

section \<open>Writing\<close>

definition append_data :: "nat \<Rightarrow> bytes \<Rightarrow> world \<Rightarrow> world" where
  "append_data i bs w =
     w\<lparr>w_inodes := (w_inodes w)[i := (w_inodes w ! i)\<lparr>i_data := data_of i w @ bs\<rparr>]\<rparr>"

text \<open>
  The loop behind \<open>write_all\<close> and \<open>BufWriter::flush_buf\<close>: write until nothing is left, restart
  when interrupted, stop at an error. Returns what has not been written.
\<close>

function write_loop :: "nat \<Rightarrow> bytes \<Rightarrow> world \<Rightarrow> (io_error + unit) \<times> bytes \<times> world" where
  "write_loop i bs w =
     (if bs = [] then (Inr (), [], w)
      else case w_outs w of
        [] \<Rightarrow> (Inr (), [], append_data i bs w)
      | Fine # os \<Rightarrow> (Inr (), [], append_data i bs (w\<lparr>w_outs := os\<rparr>))
      | Short n # os \<Rightarrow>
          (if n = 0 then (Inl WriteZero, bs, w\<lparr>w_outs := os\<rparr>)
           else write_loop i (drop n bs) (append_data i (take n bs) (w\<lparr>w_outs := os\<rparr>)))
      | Fail e # os \<Rightarrow>
          (if e = Interrupted then write_loop i bs (w\<lparr>w_outs := os\<rparr>)
           else (Inl e, bs, w\<lparr>w_outs := os\<rparr>)))"
  by pat_completeness auto
termination
  by (relation "measure (\<lambda>(i, bs, w). length (w_outs w))") (auto simp: append_data_def)

declare write_loop.simps [simp del]

definition write_all :: "nat \<Rightarrow> bytes \<Rightarrow> unit io" where
  "write_all i bs w = (case write_loop i bs w of (r, _, w') \<Rightarrow> (r, w'))"

text \<open>\<open>BufWriter<File>\<close>, with the standard library's capacity.\<close>

record buf_writer =
  bw_buf :: bytes
  bw_file :: nat

definition BUF_CAPACITY :: nat where
  "BUF_CAPACITY = 8192"

definition bw_new :: "nat \<Rightarrow> buf_writer" where
  "bw_new i = \<lparr>bw_buf = [], bw_file = i\<rparr>"

definition bw_flush :: "(buf_writer \<times> world, io_error, unit) act" where
  "bw_flush = (\<lambda>(bw, w).
     (case write_loop (bw_file bw) (bw_buf bw) w of
        (r, rest, w') \<Rightarrow> (r, (bw\<lparr>bw_buf := rest\<rparr>, w'))))"

definition bw_write_all :: "bytes \<Rightarrow> (buf_writer \<times> world, io_error, unit) act" where
  "bw_write_all bs = (\<lambda>(bw, w).
     (if length bs < BUF_CAPACITY - length (bw_buf bw)
      then (Inr (), (bw\<lparr>bw_buf := bw_buf bw @ bs\<rparr>, w))
      else bindE
        (if length bs > BUF_CAPACITY - length (bw_buf bw) then bw_flush else retE ())
        (\<lambda>_ (bw, w).
           if length bs \<ge> BUF_CAPACITY
           then (case write_all (bw_file bw) bs w of (r, w') \<Rightarrow> (r, (bw, w')))
           else (Inr (), (bw\<lparr>bw_buf := bw_buf bw @ bs\<rparr>, w)))
        (bw, w)))"

text \<open>Dropping a \<open>BufWriter\<close> flushes it and ignores the error.\<close>

definition bw_drop :: "buf_writer \<Rightarrow> world \<Rightarrow> world" where
  "bw_drop bw w = snd (snd (bw_flush (bw, w)))"

section \<open>Reading\<close>

text \<open>
  A \<open>Read\<close>er: what is left to read, and the outcomes of its next \<open>read\<close> calls. A call may
  transfer fewer bytes than asked for without being at the end.
\<close>

record reader =
  rd_rest :: bytes
  rd_outs :: "outcome list"

type_synonym 'a rd = "(reader, io_error, 'a) act"

definition read_take :: "nat \<Rightarrow> bytes rd" where
  "read_take n r = (Inr (take n (rd_rest r)), r\<lparr>rd_rest := drop n (rd_rest r)\<rparr>)"

definition read_some :: "nat \<Rightarrow> bytes rd" where
  "read_some n r =
     (let r' = r\<lparr>rd_outs := tl (rd_outs r)\<rparr>
      in case fault (rd_outs r) of
           Some e \<Rightarrow> (Inl e, r') | None \<Rightarrow> read_take (chunk n (rd_outs r)) r')"

definition cursor :: "bytes \<Rightarrow> reader" where
  "cursor bs = \<lparr>rd_rest = bs, rd_outs = []\<rparr>"

text \<open>
  \<open>FileExt::read_exact_at\<close>: positioned reads until the buffer is full; an end of file before
  that is \<open>UnexpectedEof\<close>, and an interrupted call is repeated.
\<close>

function pread_loop :: "nat \<Rightarrow> nat \<Rightarrow> nat \<Rightarrow> bytes \<Rightarrow> bytes io" where
  "pread_loop i pos n acc w =
     (if n = 0 then (Inr acc, w)
      else let w' = w\<lparr>w_outs := tl (w_outs w)\<rparr> in
        case fault (w_outs w) of
          Some e \<Rightarrow> (if e = Interrupted then pread_loop i pos n acc w' else (Inl e, w'))
        | None \<Rightarrow>
            (let got = take (chunk n (w_outs w)) (drop pos (data_of i w))
             in if got = [] then (Inl UnexpectedEof, w')
                else pread_loop i (pos + length got) (n - length got) (acc @ got) w'))"
  by pat_completeness auto
termination
proof (relation "measures [\<lambda>(i, pos, n, acc, w). n, \<lambda>(i, pos, n, acc, w). length (w_outs w)]",
    goal_cases)
  case 1
  show ?case by simp
next
  case (2 i pos n acc w w' got)
  then have "0 < length got" by simp
  with 2 show ?case by simp
next
  case (3 i pos n acc w w' e)
  then have "w_outs w \<noteq> []" by (cases "w_outs w") auto
  with 3 show ?case by simp
qed

declare pread_loop.simps [simp del]

definition read_exact_at :: "nat \<Rightarrow> u64 \<Rightarrow> nat \<Rightarrow> bytes io" where
  "read_exact_at i pos n = pread_loop i (unat pos) n []"

section \<open>Laws without faults\<close>

lemma w_outs_same [simp]: "w_outs w = [] \<Longrightarrow> w\<lparr>w_outs := []\<rparr> = w"
  by simp

lemma sys_no_fault [io_simps]: "w_outs w = [] \<Longrightarrow> sys m w = m w"
  by (simp add: sys_def)

lemma append_data_out_of_range: "\<not> i < length (w_inodes w) \<Longrightarrow> append_data i bs w = w"
  by (simp add: append_data_def not_less list_update_beyond)

lemma append_data_Nil [simp]: "append_data i [] w = w"
  by (cases "i < length (w_inodes w)")
    (simp_all add: append_data_out_of_range, simp add: append_data_def data_of_def)

lemma append_data_simps [simp]:
  "w_dir (append_data i bs w) = w_dir w"
  "w_outs (append_data i bs w) = w_outs w"
  "w_locks (append_data i bs w) = w_locks w"
  "w_warnings (append_data i bs w) = w_warnings w"
  "length (w_inodes (append_data i bs w)) = length (w_inodes w)"
  by (simp_all add: append_data_def)

lemma data_of_append_data [simp]:
  "data_of j (append_data i bs w) =
     (if j = i \<and> i < length (w_inodes w) then data_of i w @ bs else data_of j w)"
  by (simp add: append_data_def data_of_def)

lemma append_data_append: "append_data i ys (append_data i xs w) = append_data i (xs @ ys) w"
  by (cases "i < length (w_inodes w)")
    (simp_all add: append_data_out_of_range, simp add: append_data_def data_of_def)

lemma lookup_append_data [simp]: "lookup n (append_data i bs w) = lookup n w"
  by (simp add: lookup_def)

lemma lookup_outs [simp]: "lookup n (w\<lparr>w_outs := os\<rparr>) = lookup n w"
  by (simp add: lookup_def)

lemma data_of_outs [simp]: "data_of i (w\<lparr>w_outs := os\<rparr>) = data_of i w"
  by (simp add: data_of_def)

lemma append_data_outs: "append_data i bs (w\<lparr>w_outs := os\<rparr>) = (append_data i bs w)\<lparr>w_outs := os\<rparr>"
  by (simp add: append_data_def)

lemma write_loop_no_fault [io_simps]:
  "w_outs w = [] \<Longrightarrow> write_loop i bs w = (Inr (), [], append_data i bs w)"
  by (simp add: write_loop.simps [of i bs w])

text \<open>
  With any outcomes: what a writing loop has put in the file is a prefix of what it was given,
  the rest is what it returns, and only a complete transfer is a success.
\<close>

lemma write_loop_prefix:
  assumes "write_loop i bs w = (r, rest, w')"
  shows "\<exists>done os. bs = done @ rest \<and> w' = (append_data i done w)\<lparr>w_outs := os\<rparr> \<and>
           (r = Inr () \<longleftrightarrow> rest = [])"
  using assms
proof (induction i bs w arbitrary: r rest w' rule: write_loop.induct)
  case (1 i bs w)
  note step = write_loop.simps [of i bs w]
  show ?case
  proof (cases "bs = []")
    case True
    with 1(3) step have "r = Inr ()" "rest = []" "w' = w" by auto
    with True show ?thesis by (intro exI [of _ "[]"] exI [of _ "w_outs w"]) simp
  next
    case False
    show ?thesis
    proof (cases "w_outs w")
      case Nil
      with False 1(3) step show ?thesis
        by (intro exI [of _ bs] exI [of _ "[]"]) auto
    next
      case (Cons x os)
      show ?thesis
      proof (cases x)
        case Fine
        with Cons False 1(3) step show ?thesis
          by (intro exI [of _ bs] exI [of _ os]) (auto simp: append_data_outs)
      next
        case (Short n)
        show ?thesis
        proof (cases "n = 0")
          case True
          with Short Cons False 1(3) step show ?thesis
            by (intro exI [of _ "[]"] exI [of _ os]) auto
        next
          case n: False
          have "write_loop i (drop n bs) (append_data i (take n bs) (w\<lparr>w_outs := os\<rparr>)) = (r, rest, w')"
            using n Short Cons False 1(3) step by simp
          from 1(1) [OF False Cons Short n this] obtain d os' where
            d: "drop n bs = d @ rest"
            and "w' = (append_data i d (append_data i (take n bs) (w\<lparr>w_outs := os\<rparr>)))\<lparr>w_outs := os'\<rparr>"
            and "r = Inr () \<longleftrightarrow> rest = []"
            by blast
          moreover have "bs = (take n bs @ d) @ rest"
            by (metis append.assoc append_take_drop_id d)
          ultimately show ?thesis
            by (intro exI [of _ "take n bs @ d"] exI [of _ os'])
              (simp add: append_data_append append_data_outs)
        qed
      next
        case (Fail e)
        show ?thesis
        proof (cases "e = Interrupted")
          case True
          have "write_loop i bs (w\<lparr>w_outs := os\<rparr>) = (r, rest, w')"
            using True Fail Cons False 1(3) step by simp
          from 1(2) [OF False Cons Fail True this] show ?thesis
            by (auto simp: append_data_outs)
        next
          case e: False
          with Fail Cons False 1(3) step show ?thesis
            by (intro exI [of _ "[]"] exI [of _ os]) auto
        qed
      qed
    qed
  qed
qed

lemma bw_flush_no_fault [io_simps]:
  "w_outs w = [] \<Longrightarrow>
     bw_flush (bw, w) = (Inr (), (bw\<lparr>bw_buf := []\<rparr>, append_data (bw_file bw) (bw_buf bw) w))"
  by (simp add: bw_flush_def write_loop_no_fault)

lemma write_all_no_fault [io_simps]:
  "w_outs w = [] \<Longrightarrow> write_all i bs w = (Inr (), append_data i bs w)"
  by (simp add: write_all_def write_loop_no_fault)

text \<open>
  The bytes of a file followed by those still buffered: a buffered write extends this
  contents, however the buffer is spilled.
\<close>

definition bw_contents :: "buf_writer \<Rightarrow> world \<Rightarrow> bytes" where
  "bw_contents bw w = data_of (bw_file bw) w @ bw_buf bw"

lemma bw_write_all_no_fault:
  assumes "w_outs w = []"
  shows "\<exists>spill buf. bw_buf bw @ bs = spill @ buf \<and>
           bw_write_all bs (bw, w) = (Inr (), (bw\<lparr>bw_buf := buf\<rparr>, append_data (bw_file bw) spill w))"
proof (cases "length bs < BUF_CAPACITY - length (bw_buf bw)")
  case True
  then show ?thesis
    by (intro exI [of _ "[]"] exI [of _ "bw_buf bw @ bs"]) (simp add: bw_write_all_def)
next
  case small: False
  show ?thesis
  proof (cases "length bs > BUF_CAPACITY - length (bw_buf bw)")
    case True
    then show ?thesis using small assms
      by (cases "BUF_CAPACITY \<le> length bs")
        (auto simp: bw_write_all_def bindE_def io_simps append_data_append
          intro: exI [of _ "bw_buf bw"] exI [of _ "bw_buf bw @ bs"])
  next
    case False
    show ?thesis
    proof (cases "BUF_CAPACITY \<le> length bs")
      case big: True
      with small False have "bw_buf bw = []"
        by (cases "bw_buf bw") (auto simp: BUF_CAPACITY_def)
      with small False big assms show ?thesis
        by (intro exI [of _ bs] exI [of _ "[]"]) (auto simp: bw_write_all_def bindE_def io_simps)
    next
      case False
      with small \<open>\<not> length bs > BUF_CAPACITY - length (bw_buf bw)\<close> show ?thesis
        by (intro exI [of _ "[]"] exI [of _ "bw_buf bw @ bs"]) (auto simp: bw_write_all_def bindE_def)
    qed
  qed
qed

lemma pread_loop_no_fault:
  assumes "w_outs w = []" and "pos + n \<le> length (data_of i w)"
  shows "pread_loop i pos n acc w = (Inr (acc @ take n (drop pos (data_of i w))), w)"
proof (cases "n = 0")
  case True
  then show ?thesis by (simp add: pread_loop.simps)
next
  case False
  then have "take n (drop pos (data_of i w)) \<noteq> []" using assms(2) by auto
  then show ?thesis using assms False
    by (simp add: pread_loop.simps [of i pos n] pread_loop.simps [of _ _ 0] Let_def)
qed

lemma read_exact_at_no_fault [io_simps]:
  "w_outs w = [] \<Longrightarrow> unat pos + n \<le> length (data_of i w) \<Longrightarrow>
     read_exact_at i pos n w = (Inr (take n (drop (unat pos) (data_of i w))), w)"
  by (simp add: read_exact_at_def pread_loop_no_fault)

text \<open>With any outcomes a positioned read that succeeds has read exactly the bytes asked for.\<close>

lemma pread_loop_exact:
  assumes "pread_loop i pos n acc w = (Inr bs, w')"
  shows "bs = acc @ take n (drop pos (data_of i w)) \<and> (n = 0 \<or> pos + n \<le> length (data_of i w)) \<and>
         (\<exists>os. w' = w\<lparr>w_outs := os\<rparr>)"
  using assms
proof (induction i pos n acc w arbitrary: bs w' rule: pread_loop.induct)
  case (1 i pos n acc w)
  note step = pread_loop.simps [of i pos n acc w]
  let ?w = "w\<lparr>w_outs := tl (w_outs w)\<rparr>" and ?avail = "drop pos (data_of i w)"
  let ?got = "take (chunk n (w_outs w)) ?avail"
  show ?case
  proof (cases "n = 0")
    case True
    with 1(3) step have "bs = acc" and "w' = w" by auto
    with True show ?thesis by (auto intro: exI [of _ "w_outs w"])
  next
    case n: False
    show ?thesis
    proof (cases "fault (w_outs w)")
      case (Some e)
      with n 1(3) step have "e = Interrupted" and "pread_loop i pos n acc ?w = (Inr bs, w')"
        by (auto simp: Let_def split: if_splits)
      with 1(2) [OF n refl Some] show ?thesis by auto
    next
      case None
      let ?m = "length ?got"
      from None n 1(3) step have ne: "?got \<noteq> []"
        and rest: "pread_loop i (pos + ?m) (n - ?m) (acc @ ?got) ?w = (Inr bs, w')"
        by (auto simp: Let_def split: if_splits)
      from 1(1) [OF n refl None refl ne rest] have
        eq: "bs = acc @ ?got @ take (n - ?m) (drop (pos + ?m) (data_of i w))"
        and le: "n - ?m = 0 \<or> pos + ?m + (n - ?m) \<le> length (data_of i w)"
        and ex: "\<exists>os. w' = w\<lparr>w_outs := os\<rparr>" by auto
      have chunk_le: "chunk n (w_outs w) \<le> n"
        by (cases "(n, w_outs w)" rule: chunk.cases) auto
      then have m: "?m \<le> n" "?m \<le> length ?avail" "pos < length (data_of i w)"
        using ne by auto
      have "?got = take ?m ?avail" by (metis append_eq_conv_conj append_take_drop_id)
      moreover have "drop (pos + ?m) (data_of i w) = drop ?m ?avail"
        by (simp add: add.commute)
      moreover have "take ?m ?avail @ take (n - ?m) (drop ?m ?avail) = take n ?avail"
        using m(1) by (metis le_add_diff_inverse take_add)
      ultimately have "bs = acc @ take n ?avail" using eq by metis
      moreover have "pos + n \<le> length (data_of i w)"
        using le m by (cases "n - ?m = 0") auto
      ultimately show ?thesis using ex by blast
    qed
  qed
qed

lemma read_exact_at_exact:
  assumes "read_exact_at i pos n w = (Inr bs, w')"
  shows "bs = take n (drop (unat pos) (data_of i w))" and "length bs = n"
    and "\<exists>os. w' = w\<lparr>w_outs := os\<rparr>"
  using pread_loop_exact [OF assms [unfolded read_exact_at_def]] by auto

section \<open>A well-formed directory\<close>

definition world_ok :: "world \<Rightarrow> bool" where
  "world_ok w \<longleftrightarrow> distinct (map fst (w_dir w)) \<and> distinct (map snd (w_dir w)) \<and>
     (\<forall>i \<in> snd ` set (w_dir w). i < length (w_inodes w))"

lemma world_ok_empty [simp]: "world_ok empty_world"
  by (simp add: world_ok_def empty_world_def)

lemma world_ok_cong:
  "w_dir w' = w_dir w \<Longrightarrow> length (w_inodes w') = length (w_inodes w) \<Longrightarrow> world_ok w' = world_ok w"
  by (simp add: world_ok_def)

lemma world_ok_append_data [simp]: "world_ok (append_data i bs w) = world_ok w"
  by (rule world_ok_cong) simp_all

lemma lookup_bound: "world_ok w \<Longrightarrow> lookup n w = Some i \<Longrightarrow> i < length (w_inodes w)"
  by (force simp: world_ok_def lookup_def dest: map_of_SomeD)

lemma lookup_inj:
  assumes "world_ok w" and "lookup n w = Some i" and "lookup n' w = Some i"
  shows "n = n'"
proof -
  have m: "(n, i) \<in> set (w_dir w)" "(n', i) \<in> set (w_dir w)"
    using assms(2,3) by (auto simp: lookup_def dest: map_of_SomeD)
  have "inj_on snd (set (w_dir w))" using assms(1) by (simp add: world_ok_def distinct_map)
  from inj_onD [OF this _ m] show ?thesis by simp
qed

lemma file_bytes_lookup: "lookup n w = Some i \<Longrightarrow> file_bytes n w = Some (data_of i w)"
  by (simp add: file_bytes_def)

lemma file_bytes_None: "file_bytes n w = None \<longleftrightarrow> lookup n w = None"
  by (simp add: file_bytes_def)

lemma file_bytes_append_data:
  assumes "world_ok w"
  shows "file_bytes n (append_data i bs w) =
    (if lookup n w = Some i then Some (data_of i w @ bs) else file_bytes n w)"
  using lookup_bound [OF assms, of n] by (cases "lookup n w") (auto simp: file_bytes_def)

text \<open>Creating a file under a new name.\<close>

lemma new_file_facts:
  assumes "world_ok w" and "lookup name w = None" and "new_file name w = (Inr i, w')"
  shows "world_ok w'" and "lookup n w' = (if n = name then Some i else lookup n w)"
    and "file_bytes n w' = (if n = name then Some [] else file_bytes n w)"
    and "data_of j w' = (if j = i then [] else data_of j w)"
    and "w_outs w' = w_outs w" and "w_locks w' = w_locks w" and "i = length (w_inodes w)"
    and "length (w_inodes w') = Suc (length (w_inodes w))"
proof -
  have i: "i = length (w_inodes w)" and w': "w' = w\<lparr>w_dir := (name, i) # w_dir w,
      w_inodes := w_inodes w @ [\<lparr>i_data = [], i_durable = 0\<rparr>]\<rparr>"
    using assms(3) by (auto simp: new_file_def)
  show "i = length (w_inodes w)" by (rule i)
  show "length (w_inodes w') = Suc (length (w_inodes w))" by (simp add: w')
  show "w_outs w' = w_outs w" and "w_locks w' = w_locks w" by (simp_all add: w')
  show l: "lookup n w' = (if n = name then Some i else lookup n w)" for n
    by (simp add: w' lookup_def)
  show d: "data_of j w' = (if j = i then [] else data_of j w)" for j
    by (auto simp: w' data_of_def i nth_append)
  show "file_bytes n w' = (if n = name then Some [] else file_bytes n w)"
    using lookup_bound [OF assms(1), of n] by (cases "lookup n w") (auto simp: file_bytes_def l d i)
  have "name \<notin> fst ` set (w_dir w)" using assms(2) by (simp add: lookup_def map_of_eq_None_iff)
  then show "world_ok w'" using assms(1) by (force simp: world_ok_def w' i)
qed

lemma remove_file_no_fault [io_simps]:
  "w_outs w = [] \<Longrightarrow> remove_file name w =
     (case lookup name w of
        Some i \<Rightarrow> (Inr (), w\<lparr>w_dir := AList.delete name (w_dir w)\<rparr>) | None \<Rightarrow> (Inl NotFound, w))"
  by (simp add: remove_file_def sys_no_fault)

lemma delete_name_facts:
  assumes "world_ok w"
  shows "world_ok (w\<lparr>w_dir := AList.delete name (w_dir w)\<rparr>)"
    and "lookup n (w\<lparr>w_dir := AList.delete name (w_dir w)\<rparr>) = (if n = name then None else lookup n w)"
    and "file_bytes n (w\<lparr>w_dir := AList.delete name (w_dir w)\<rparr>) =
      (if n = name then None else file_bytes n w)"
    and "data_of j (w\<lparr>w_dir := AList.delete name (w_dir w)\<rparr>) = data_of j w"
proof -
  let ?w = "w\<lparr>w_dir := AList.delete name (w_dir w)\<rparr>"
  show l: "lookup n ?w = (if n = name then None else lookup n w)" for n
    by (simp add: lookup_def delete_conv')
  show d: "data_of j ?w = data_of j w" for j by (simp add: data_of_def)
  show "file_bytes n ?w = (if n = name then None else file_bytes n w)"
    by (simp add: file_bytes_def l d)
  have sub: "set (AList.delete name (w_dir w)) \<subseteq> set (w_dir w)"
    by (auto simp: AList.delete_eq)
  have "distinct (map snd (AList.delete name (w_dir w)))"
    using assms unfolding world_ok_def AList.delete_eq by (metis distinct_map_filter)
  then show "world_ok ?w"
    using assms sub by (auto simp: world_ok_def distinct_delete)
qed

end
