(* ===== verification/Format.thy ===== *)
theory Format
  imports OsModel
begin

text \<open>
  The on-disk layout: \<open>src/format/mod.rs\<close>, \<open>src/format/entry.rs\<close> and \<open>src/format/hint.rs\<close>.
  The CRC comes from the external crate \<open>crc32fast\<close>; it is a parameter, with the one fact the
  code relies on (hashing in pieces equals hashing at once) stated as \<open>crc32fast_ok\<close>.
\<close>

section \<open>The crc32fast crate\<close>

record 'h crc32fast =
  crc_hash :: "bytes \<Rightarrow> u32"
  hasher_new :: 'h
  hasher_update :: "'h \<Rightarrow> bytes \<Rightarrow> 'h"
  hasher_finalize :: "'h \<Rightarrow> u32"

definition crc32fast_ok :: "'h crc32fast \<Rightarrow> bool" where
  "crc32fast_ok C \<longleftrightarrow>
     (\<forall>chunks. hasher_finalize C (foldl (hasher_update C) (hasher_new C) chunks) = crc_hash C (concat chunks))"

section \<open>Header fields\<close>

definition TOMBSTONE_BIT :: u32 where
  "TOMBSTONE_BIT = push_bit 31 1"

definition KEYSIZE_MASK :: u32 where
  "KEYSIZE_MASK = NOT TOMBSTONE_BIT"

definition MAX_KEY_LEN :: u32 where
  "MAX_KEY_LEN = KEYSIZE_MASK"

definition HEADER_SIZE :: nat where
  "HEADER_SIZE = 16"

definition HINT_HEADER_SIZE :: nat where
  "HINT_HEADER_SIZE = 20"

definition HINT_TRAILER_SIZE :: nat where
  "HINT_TRAILER_SIZE = 4"

record entry_header =
  eh_timestamp :: u32
  eh_key_size :: u32
  eh_value_size :: u32
  eh_tombstone :: bool

text \<open>
  \<open>encode_key_size\<close> is the function of a release build. A build with debug assertions first checks the length and
  panics (\<open>None\<close>) if it is too large; for the lengths up to \<open>MAX_KEY_LEN\<close>, to which the other properties are
  limited, both builds agree.
\<close>

definition encode_key_size :: "u32 \<Rightarrow> bool \<Rightarrow> u32" where
  "encode_key_size key_len tomb = key_len OR (if tomb then TOMBSTONE_BIT else 0)"

definition encode_key_size_checked :: "bool \<Rightarrow> u32 \<Rightarrow> bool \<Rightarrow> u32 option" where
  "encode_key_size_checked debug_assertions key_len tomb =
     (if debug_assertions \<and> \<not> key_len \<le> MAX_KEY_LEN then None else Some (encode_key_size key_len tomb))"

definition decode_key_size :: "u32 \<Rightarrow> u32 \<times> bool" where
  "decode_key_size raw = (raw AND KEYSIZE_MASK, raw AND TOMBSTONE_BIT \<noteq> 0)"

text \<open>The loop of \<open>read_up_to\<close>; \<open>acc\<close> is the part of the buffer filled so far.\<close>

function read_up_to_loop :: "nat \<Rightarrow> bytes \<Rightarrow> bytes rd" where
  "read_up_to_loop n acc r =
     (if n = 0 then (Inr acc, r)
      else case read_some n r of
        (Inl e, r') \<Rightarrow> (Inl e, r')
      | (Inr got, r') \<Rightarrow>
          (if got = [] then (Inr acc, r') else read_up_to_loop (n - length got) (acc @ got) r'))"
  by pat_completeness auto
termination
  by (relation "measure (\<lambda>(n, acc, r). n)") auto

declare read_up_to_loop.simps [simp del]

definition read_up_to :: "nat \<Rightarrow> bytes rd" where
  "read_up_to n = read_up_to_loop n []"

section \<open>Data-file entries\<close>

record entry =
  en_header :: entry_header
  en_key :: bytes
  en_value :: bytes

definition is_tombstone :: "entry \<Rightarrow> bool" where
  "is_tombstone e = eh_tombstone (en_header e)"

record encoded_entry =
  ee_bytes :: bytes
  ee_value_len :: nat

definition encode_entry :: "'h crc32fast \<Rightarrow> bytes \<Rightarrow> bytes \<Rightarrow> bool \<Rightarrow> u32 \<Rightarrow> encoded_entry" where
  "encode_entry C key val tomb tstamp =
     (let ksz_and_flags = encode_key_size (of_nat (length key)) tomb;
          value_sz = (of_nat (length val) :: u32);
          body = le32 tstamp @ le32 ksz_and_flags @ le32 value_sz @ key @ val;
          crc = crc_hash C body
      in \<lparr>ee_bytes = le32 crc @ body, ee_value_len = length val\<rparr>)"

text \<open>\<open>encode_entry\<close> in either build: the assertion is the one call that can panic.\<close>

definition encode_entry_checked ::
    "bool \<Rightarrow> 'h crc32fast \<Rightarrow> bytes \<Rightarrow> bytes \<Rightarrow> bool \<Rightarrow> u32 \<Rightarrow> encoded_entry option" where
  "encode_entry_checked debug_assertions C key val tomb tstamp =
     (case encode_key_size_checked debug_assertions (of_nat (length key)) tomb of
        None \<Rightarrow> None
      | Some _ \<Rightarrow> Some (encode_entry C key val tomb tstamp))"

definition decode_entry_header :: "bytes \<Rightarrow> u32 \<times> entry_header" where
  "decode_entry_header buf =
     (let crc = le_decode (slice 0 4 buf);
          tstamp = le_decode (slice 4 8 buf);
          ksz_and_flags = le_decode (slice 8 12 buf);
          value_sz = le_decode (slice 12 16 buf);
          (ksz, tomb) = decode_key_size ksz_and_flags
      in (crc, \<lparr>eh_timestamp = tstamp, eh_key_size = ksz, eh_value_size = value_sz, eh_tombstone = tomb\<rparr>))"

definition verify_crc :: "'h crc32fast \<Rightarrow> u32 \<Rightarrow> bytes \<Rightarrow> bool" where
  "verify_crc C crc rest_of_entry \<longleftrightarrow> crc_hash C rest_of_entry = crc"

datatype entry_read = EntryOk entry u64 | EntryTruncated | EntryCrcMismatch u64

definition read_entry :: "'h crc32fast \<Rightarrow> entry_read option rd" where
  "read_entry C =
     bindE (read_up_to HEADER_SIZE) (\<lambda>header_buf.
       if length header_buf = 0 then retE None
       else if length header_buf < HEADER_SIZE then retE (Some EntryTruncated)
       else let (crc, hdr) = decode_entry_header header_buf;
                body_len = unat (eh_key_size hdr) + unat (eh_value_size hdr)
            in bindE (read_up_to body_len) (\<lambda>body.
              if length body < body_len then retE (Some EntryTruncated)
              else let total_len = of_nat (HEADER_SIZE + body_len);
                       crc_input = drop 4 header_buf @ body
                   in if \<not> verify_crc C crc crc_input then retE (Some (EntryCrcMismatch total_len))
                      else retE (Some (EntryOk
                        \<lparr>en_header = hdr, en_key = take (unat (eh_key_size hdr)) body,
                         en_value = drop (unat (eh_key_size hdr)) body\<rparr> total_len))))"

section \<open>Hint records\<close>

definition encode_hint :: "bytes \<Rightarrow> entry_header \<Rightarrow> u64 \<Rightarrow> bytes" where
  "encode_hint key hdr value_pos =
     (let ksz_and_flags = encode_key_size (eh_key_size hdr) (eh_tombstone hdr)
      in le32 (eh_timestamp hdr) @ le32 ksz_and_flags @ le32 (eh_value_size hdr) @ le64 value_pos @ key)"

definition decode_hint_header :: "bytes \<Rightarrow> entry_header \<times> u64" where
  "decode_hint_header buf =
     (let tstamp = le_decode (slice 0 4 buf);
          ksz_and_flags = le_decode (slice 4 8 buf);
          value_sz = le_decode (slice 8 12 buf);
          value_pos = le_decode (slice 12 20 buf);
          (ksz, tomb) = decode_key_size ksz_and_flags
      in (\<lparr>eh_timestamp = tstamp, eh_key_size = ksz, eh_value_size = value_sz, eh_tombstone = tomb\<rparr>, value_pos))"

datatype hint_read = HintOk entry_header u64 bytes | HintTruncated

definition read_hint :: "hint_read option rd" where
  "read_hint =
     bindE (read_up_to HINT_HEADER_SIZE) (\<lambda>header_buf.
       if length header_buf = 0 then retE None
       else if length header_buf < HINT_HEADER_SIZE then retE (Some HintTruncated)
       else let (hdr, value_pos) = decode_hint_header header_buf
            in bindE (read_up_to (unat (eh_key_size hdr))) (\<lambda>key.
              if length key < unat (eh_key_size hdr) then retE (Some HintTruncated)
              else retE (Some (HintOk hdr value_pos key))))"

definition verify_hint_file :: "'h crc32fast \<Rightarrow> bytes \<Rightarrow> bytes option" where
  "verify_hint_file C bs =
     (if length bs < HINT_TRAILER_SIZE then None
      else let content = take (length bs - HINT_TRAILER_SIZE) bs;
               trailer = drop (length bs - HINT_TRAILER_SIZE) bs;
               expected = le_decode trailer
           in if crc_hash C content = expected then Some content else None)"

section \<open>The key-size field\<close>

lemma unat_MAX_KEY_LEN: "unat MAX_KEY_LEN = 2 ^ 31 - 1"
  by (simp add: MAX_KEY_LEN_def KEYSIZE_MASK_def TOMBSTONE_BIT_def)

lemma bit_TOMBSTONE_BIT: "bit TOMBSTONE_BIT n \<longleftrightarrow> n = 31"
  unfolding TOMBSTONE_BIT_def bit_push_bit_iff by (auto simp: bit_1_iff)

lemma key_len_high_bit: "unat (k :: u32) < 2 ^ 31 \<Longrightarrow> \<not> bit k 31"
proof
  assume "unat k < 2 ^ 31" and "bit k 31"
  then have "bit (unat k) 31" by (simp add: bit_unsigned_iff)
  then have "odd (unat k div 2 ^ 31)" by (simp add: bit_iff_odd)
  with \<open>unat k < 2 ^ 31\<close> show False by simp
qed

lemma tombstone_test: "(raw AND TOMBSTONE_BIT \<noteq> 0) = bit (raw :: u32) 31"
proof
  assume "raw AND TOMBSTONE_BIT \<noteq> 0"
  then obtain n where "bit (raw AND TOMBSTONE_BIT) n" by (auto simp: bit_eq_iff)
  then show "bit raw 31" by (auto simp: bit_and_iff bit_TOMBSTONE_BIT)
next
  assume "bit raw 31"
  then have "bit (raw AND TOMBSTONE_BIT) 31" by (simp add: bit_and_iff bit_TOMBSTONE_BIT)
  then show "raw AND TOMBSTONE_BIT \<noteq> 0" by auto
qed

lemma decode_encode_key_size:
  "unat k < 2 ^ 31 \<Longrightarrow> decode_key_size (encode_key_size k t) = (k, t)"
proof -
  assume k: "unat k < 2 ^ 31"
  have "(encode_key_size k t AND KEYSIZE_MASK) = k"
  proof (rule bit_word_eqI)
    fix n :: nat
    assume "n < LENGTH(32)"
    then show "bit (encode_key_size k t AND KEYSIZE_MASK) n = bit k n"
      using key_len_high_bit [OF k]
      by (auto simp: encode_key_size_def KEYSIZE_MASK_def bit_and_iff bit_or_iff bit_not_iff
          bit_TOMBSTONE_BIT)
  qed
  moreover have "bit (encode_key_size k t) 31 = t"
    using key_len_high_bit [OF k]
    by (simp add: encode_key_size_def bit_or_iff bit_TOMBSTONE_BIT)
  ultimately show ?thesis by (simp add: decode_key_size_def tombstone_test)
qed

lemma encode_decode_key_size:
  "encode_key_size (fst (decode_key_size raw)) (snd (decode_key_size raw)) = raw"
proof (rule bit_word_eqI)
  fix n :: nat
  assume "n < LENGTH(32)"
  then show "bit (encode_key_size (fst (decode_key_size raw)) (snd (decode_key_size raw))) n = bit raw n"
    by (auto simp: decode_key_size_def encode_key_size_def KEYSIZE_MASK_def tombstone_test
        bit_and_iff bit_or_iff bit_not_iff bit_TOMBSTONE_BIT)
qed

lemma key_len_high_bit_iff: "bit (k :: u32) 31 \<longleftrightarrow> 2 ^ 31 \<le> unat k"
proof -
  define n where "n = unat k div 2 ^ 31"
  have "bit (unat k) 31 \<longleftrightarrow> bit k 31" by (simp add: bit_unsigned_iff)
  then have "bit k 31 \<longleftrightarrow> odd n" by (simp add: bit_iff_odd [of "unat k"] n_def)
  moreover have "unat k < 2 * 2 ^ 31" using unsigned_less [of k] by simp
  then have "n < 2" unfolding n_def by (rule less_mult_imp_div_less)
  then have "odd n \<longleftrightarrow> 0 < n" by (cases n) auto
  moreover have "0 < n \<longleftrightarrow> 2 ^ 31 \<le> unat k" by (simp add: n_def div_greater_zero_iff)
  ultimately show ?thesis by simp
qed

lemma tombstone_split:
  assumes "bit k 31"
  shows "k = (k AND KEYSIZE_MASK) + TOMBSTONE_BIT"
proof -
  have "(k AND KEYSIZE_MASK) + TOMBSTONE_BIT = (k AND KEYSIZE_MASK) OR TOMBSTONE_BIT"
    by (rule disjunctive_add)
      (auto simp: KEYSIZE_MASK_def bit_and_iff bit_not_iff bit_TOMBSTONE_BIT)
  also have "\<dots> = k"
    using assms by (intro bit_word_eqI)
      (auto simp: KEYSIZE_MASK_def bit_and_iff bit_or_iff bit_not_iff bit_TOMBSTONE_BIT)
  finally show ?thesis by simp
qed

lemma decode_key_size_bound: "unat (fst (decode_key_size raw)) < 2 ^ 31"
proof -
  have "unat (raw AND KEYSIZE_MASK) \<le> unat KEYSIZE_MASK"
    by (simp add: word_and_le1 word_le_nat_alt [symmetric])
  then show ?thesis
    by (simp add: decode_key_size_def KEYSIZE_MASK_def TOMBSTONE_BIT_def)
qed

section \<open>Short reads do not matter\<close>

definition fault_free :: "outcome list \<Rightarrow> bool" where
  "fault_free outs \<longleftrightarrow> list_all (\<lambda>x. fault [x] = None) outs"

lemma fault_free_Nil [simp]: "fault_free []"
  by (simp add: fault_free_def)

lemma fault_free_tl: "fault_free outs \<Longrightarrow> fault_free (tl outs)"
  by (cases outs) (auto simp: fault_free_def)

lemma fault_free_hd: "fault_free outs \<Longrightarrow> fault outs = None"
  by (cases outs rule: fault.cases) (auto simp: fault_free_def)

lemma chunk_bounds: "0 < n \<Longrightarrow> 0 < chunk n outs \<and> chunk n outs \<le> n"
  by (cases "(n, outs)" rule: chunk.cases) auto

lemma read_up_to_loop_exact:
  "read_up_to_loop n acc r = (Inr bs, r') \<Longrightarrow>
     bs = acc @ take n (rd_rest r) \<and> rd_rest r' = drop n (rd_rest r)"
proof (induction n acc r arbitrary: bs r' rule: read_up_to_loop.induct)
  case (1 n acc r)
  note step = read_up_to_loop.simps [of n acc r]
  show ?case
  proof (cases "n = 0")
    case True
    with 1(2) step show ?thesis by simp
  next
    case n: False
    with 1(2) step obtain got r1 where some: "read_some n r = (Inr got, r1)"
      by (auto split: prod.splits sum.splits)
    then obtain k where got: "got = take k (rd_rest r)" "rd_rest r1 = drop k (rd_rest r)" "0 < k" "k \<le> n"
      using chunk_bounds [of n "rd_outs r"] n
      by (auto simp: read_some_def read_take_def Let_def split: option.splits)
    show ?thesis
    proof (cases "got = []")
      case True
      with got n 1(2) step some show ?thesis by auto
    next
      case False
      with n 1(2) step some
      have "read_up_to_loop (n - length got) (acc @ got) r1 = (Inr bs, r')" by simp
      from 1(1) [OF n some [symmetric] refl False this]
      have "bs = acc @ got @ take (n - length got) (drop k (rd_rest r))"
        and "rd_rest r' = drop (n - length got) (drop k (rd_rest r))"
        using got by auto
      moreover have "got @ take (n - length got) (drop k (rd_rest r)) = take n (rd_rest r)"
        using got by (simp add: take_add [symmetric] min_def)
      moreover have "drop (n - length got) (drop k (rd_rest r)) = drop n (rd_rest r)"
        using got by (auto simp: min_def)
      ultimately show ?thesis by simp
    qed
  qed
qed

lemma read_up_to_loop_fault_free:
  "fault_free (rd_outs r) \<Longrightarrow>
     \<exists>bs r'. read_up_to_loop n acc r = (Inr bs, r') \<and> fault_free (rd_outs r')"
proof (induction n acc r rule: read_up_to_loop.induct)
  case (1 n acc r)
  note step = read_up_to_loop.simps [of n acc r]
  obtain got r1 where some: "read_some n r = (Inr got, r1)" and r1: "fault_free (rd_outs r1)"
    using 1(2) fault_free_hd fault_free_tl
    by (fastforce simp: read_some_def read_take_def Let_def)
  show ?case
    using 1(1) [OF _ some [symmetric] refl _ r1] 1(2) step some r1 by auto
qed

text \<open>A read that succeeds has read as much as there is, up to \<open>n\<close> bytes.\<close>

lemma read_up_to_exact:
  "read_up_to n r = (Inr bs, r') \<Longrightarrow> bs = take n (rd_rest r) \<and> rd_rest r' = drop n (rd_rest r)"
  unfolding read_up_to_def by (drule read_up_to_loop_exact) simp

text \<open>Computations on a reader that always succeed when no read fails.\<close>

definition robust :: "'a rd \<Rightarrow> bool" where
  "robust m \<longleftrightarrow> (\<forall>r. fault_free (rd_outs r) \<longrightarrow> (\<exists>x r'. m r = (Inr x, r') \<and> fault_free (rd_outs r')))"

lemma robustD:
  assumes "robust m" and "fault_free (rd_outs r)"
  obtains x r' where "m r = (Inr x, r')" and "fault_free (rd_outs r')"
  using assms by (auto simp: robust_def)

lemma robust_retE [simp]: "robust (retE x)"
  by (simp add: robust_def)

lemma robust_bindE: "robust m \<Longrightarrow> (\<And>x. robust (f x)) \<Longrightarrow> robust (bindE m f)"
  unfolding robust_def bindE_def by fastforce

lemma robust_read_up_to [simp]: "robust (read_up_to n)"
  by (auto simp: robust_def read_up_to_def intro: read_up_to_loop_fault_free)

text \<open>Reading only ever consumes outcomes; it does not add any.\<close>

definition consuming :: "'a rd \<Rightarrow> bool" where
  "consuming m \<longleftrightarrow> (\<forall>r. \<exists>n. rd_outs (snd (m r)) = drop n (rd_outs r))"

lemma consuming_retE [simp]: "consuming (retE x)"
  by (auto simp: consuming_def intro: exI [of _ 0])

lemma consuming_bindE:
  assumes m: "consuming m" and f: "\<And>x. consuming (f x)"
  shows "consuming (bindE m f)"
  unfolding consuming_def
proof
  fix r
  obtain y r1 where y: "m r = (y, r1)" by fastforce
  obtain n where n: "rd_outs r1 = drop n (rd_outs r)"
    using m y unfolding consuming_def by (metis snd_conv)
  show "\<exists>n. rd_outs (snd (bindE m f r)) = drop n (rd_outs r)"
  proof (cases y)
    case (Inl e)
    then show ?thesis using y n by (auto simp: bindE_def)
  next
    case (Inr x)
    obtain k where "rd_outs (snd (f x r1)) = drop k (rd_outs r1)"
      using f unfolding consuming_def by blast
    then show ?thesis using y n Inr by (auto simp: bindE_def intro: exI [of _ "k + n"])
  qed
qed

lemma consuming_read_up_to_loop: "\<exists>k. rd_outs (snd (read_up_to_loop n acc r)) = drop k (rd_outs r)"
proof (induction n acc r rule: read_up_to_loop.induct)
  case (1 n acc r)
  note step = read_up_to_loop.simps [of n acc r]
  obtain x r1 where x: "read_some n r = (x, r1)" by fastforce
  then have r1: "rd_outs r1 = drop 1 (rd_outs r)"
    by (auto simp: read_some_def read_take_def Let_def drop_Suc split: option.splits)
  show ?case
  proof (cases "n = 0 \<or> isl x \<or> projr x = []")
    case True
    then show ?thesis using step x r1
      by (cases x) (auto intro: exI [of _ 0] exI [of _ 1])
  next
    case False
    then obtain got where got: "x = Inr got" "got \<noteq> []" "n \<noteq> 0" by (cases x) auto
    from 1 [OF got(3) x [unfolded got(1), symmetric] refl got(2)] obtain k where
      "rd_outs (snd (read_up_to_loop (n - length got) (acc @ got) r1)) = drop k (rd_outs r1)"
      by blast
    then show ?thesis using step x r1 got by (auto intro: exI [of _ "k + 1"])
  qed
qed

lemma consuming_read_up_to [simp]: "consuming (read_up_to n)"
  by (simp add: consuming_def read_up_to_def consuming_read_up_to_loop)

section \<open>A reference parser for one entry\<close>

text \<open>
  What \<open>read_entry\<close> finds at the start of a byte string, and what it leaves: no reader, no short
  reads, no faults.
\<close>

definition parse_entry :: "'h crc32fast \<Rightarrow> bytes \<Rightarrow> entry_read option \<times> bytes" where
  "parse_entry C bs =
     (if bs = [] then (None, [])
      else if length bs < HEADER_SIZE then (Some EntryTruncated, [])
      else let (crc, hdr) = decode_entry_header (take HEADER_SIZE bs);
               k = unat (eh_key_size hdr); n = k + unat (eh_value_size hdr);
               body = take n (drop HEADER_SIZE bs); rest = drop n (drop HEADER_SIZE bs)
           in if length body < n then (Some EntryTruncated, rest)
              else if crc_hash C (drop 4 (take HEADER_SIZE bs) @ body) \<noteq> crc
              then (Some (EntryCrcMismatch (of_nat (HEADER_SIZE + n))), rest)
              else (Some (EntryOk \<lparr>en_header = hdr, en_key = take k body, en_value = drop k body\<rparr>
                      (of_nat (HEADER_SIZE + n))), rest))"

lemma read_entry_parse:
  "read_entry C r = (Inr x, r') \<Longrightarrow> parse_entry C (rd_rest r) = (x, rd_rest r')"
  unfolding read_entry_def parse_entry_def verify_crc_def
  by (auto simp: Let_def HEADER_SIZE_def elim!: bindE_InrE dest!: read_up_to_exact
      split: prod.splits if_splits)

lemma parse_entry_shorter: "bs \<noteq> [] \<Longrightarrow> length (snd (parse_entry C bs)) < length bs"
  by (auto simp: parse_entry_def Let_def HEADER_SIZE_def split: prod.splits)

lemma parse_entry_Nil [simp]: "parse_entry C [] = (None, [])"
  by (simp add: parse_entry_def)

lemma parse_entry_None [simp]: "fst (parse_entry C bs) = None \<longleftrightarrow> bs = []"
  by (auto simp: parse_entry_def Let_def split: prod.splits)

lemma read_entry_progress:
  assumes "read_entry C r = (Inr (Some x), r')"
  shows "length (rd_rest r') < length (rd_rest r)"
proof -
  have "parse_entry C (rd_rest r) = (Some x, rd_rest r')" by (rule read_entry_parse [OF assms])
  then show ?thesis using parse_entry_shorter [of "rd_rest r" C] by (cases "rd_rest r") auto
qed

lemma robust_read_entry [simp]: "robust (read_entry C)"
  unfolding read_entry_def Let_def case_prod_beta
  by (intro robust_bindE robust_read_up_to) (simp add: robust_bindE)

lemma consuming_read_entry [simp]: "consuming (read_entry C)"
  unfolding read_entry_def Let_def case_prod_beta
  by (intro consuming_bindE consuming_read_up_to) (simp add: consuming_bindE)

lemma read_entry_outs:
  assumes "read_entry C r = (x, r')"
  obtains n where "rd_outs r' = drop n (rd_outs r)"
  using consuming_read_entry [of C] assms unfolding consuming_def by (metis snd_conv)

lemma fault_free_drop: "fault_free outs \<Longrightarrow> fault_free (drop n outs)"
  by (auto simp: fault_free_def list_all_iff dest: in_set_dropD)

lemma read_entry_fault_free:
  assumes "fault_free (rd_outs r)"
  obtains n where "read_entry C r = (Inr (fst (parse_entry C (rd_rest r))),
     \<lparr>rd_rest = snd (parse_entry C (rd_rest r)), rd_outs = drop n (rd_outs r)\<rparr>)"
    and "fault_free (drop n (rd_outs r))"
proof -
  obtain x r' where m: "read_entry C r = (Inr x, r')" and "fault_free (rd_outs r')"
    by (rule robustD [OF robust_read_entry assms])
  moreover obtain n where "rd_outs r' = drop n (rd_outs r)" by (rule read_entry_outs [OF m])
  ultimately show thesis using that [of n] read_entry_parse [OF m] by (cases r') simp
qed

lemma read_entry_cursor:
  "rd_outs r = [] \<Longrightarrow> read_entry C r =
     (Inr (fst (parse_entry C (rd_rest r))), \<lparr>rd_rest = snd (parse_entry C (rd_rest r)), rd_outs = []\<rparr>)"
  by (rule read_entry_fault_free [of r C]) auto

section \<open>Entries round-trip\<close>

text \<open>Keys and values whose lengths fit their header fields.\<close>

definition sizes_ok :: "bytes \<Rightarrow> bytes \<Rightarrow> bool" where
  "sizes_ok k v \<longleftrightarrow> length k < 2 ^ 31 \<and> length v < 2 ^ 32"

definition entry_of :: "bytes \<Rightarrow> bytes \<Rightarrow> bool \<Rightarrow> u32 \<Rightarrow> entry" where
  "entry_of k v t ts =
     \<lparr>en_header = \<lparr>eh_timestamp = ts, eh_key_size = of_nat (length k),
        eh_value_size = of_nat (length v), eh_tombstone = t\<rparr>, en_key = k, en_value = v\<rparr>"

lemma unat_of_nat_u32: "n < 2 ^ 32 \<Longrightarrow> unat (of_nat n :: u32) = n"
  by (simp add: unat_of_nat take_bit_nat_eq_self)

lemma unat_of_nat_u64: "n < 2 ^ 64 \<Longrightarrow> unat (of_nat n :: u64) = n"
  by (simp add: unat_of_nat take_bit_nat_eq_self)

lemma length_encode_entry [layout_simps]:
  "length (ee_bytes (encode_entry C k v t ts)) = HEADER_SIZE + length k + length v"
  by (simp add: encode_entry_def Let_def HEADER_SIZE_def)

lemma ee_value_len_encode_entry [simp]: "ee_value_len (encode_entry C k v t ts) = length v"
  by (simp add: encode_entry_def Let_def)

lemma encode_entry_split:
  "\<exists>hdr. ee_bytes (encode_entry C k v t ts) = hdr @ k @ v \<and> length hdr = HEADER_SIZE \<and>
     decode_entry_header hdr =
       (crc_hash C (drop 4 hdr @ k @ v),
        \<lparr>eh_timestamp = ts, eh_key_size = fst (decode_key_size (encode_key_size (of_nat (length k)) t)),
         eh_value_size = of_nat (length v),
         eh_tombstone = snd (decode_key_size (encode_key_size (of_nat (length k)) t))\<rparr>)"
proof -
  define tail where "tail = le32 ts @ le32 (encode_key_size (of_nat (length k)) t) @ le32 (of_nat (length v))"
  define hdr where "hdr = le32 (crc_hash C (tail @ k @ v)) @ tail"
  have "slice 0 4 hdr = le32 (crc_hash C (tail @ k @ v))" "slice 4 8 hdr = le32 ts"
    "slice 8 12 hdr = le32 (encode_key_size (of_nat (length k)) t)"
    "slice 12 16 hdr = le32 (of_nat (length v))" "drop 4 hdr = tail" "length hdr = 16"
    by (simp_all add: hdr_def tail_def slice_def)
  then show ?thesis
    by (intro exI [of _ hdr])
      (simp add: encode_entry_def decode_entry_header_def Let_def HEADER_SIZE_def hdr_def tail_def
        split: prod.splits)
qed

lemma parse_entry_whole:
  assumes "length hb = HEADER_SIZE" and "decode_entry_header hb = (crc, hdr)"
    and "unat (eh_key_size hdr) = length k" and "unat (eh_value_size hdr) = length v"
  shows "parse_entry C (hb @ k @ v @ rest) =
    (if crc_hash C (drop 4 hb @ k @ v) = crc
     then (Some (EntryOk \<lparr>en_header = hdr, en_key = k, en_value = v\<rparr>
        (of_nat (HEADER_SIZE + length k + length v))), rest)
     else (Some (EntryCrcMismatch (of_nat (HEADER_SIZE + length k + length v))), rest))"
proof -
  have split: "take HEADER_SIZE (hb @ k @ v @ rest) = hb" "drop HEADER_SIZE (hb @ k @ v @ rest) = k @ v @ rest"
    "hb @ k @ v @ rest \<noteq> []" "\<not> length (hb @ k @ v @ rest) < HEADER_SIZE"
    using assms(1) by (auto simp: HEADER_SIZE_def)
  show ?thesis
    unfolding parse_entry_def Let_def split assms(2)
    by (simp only: split split_conv assms(3,4) if_False) simp
qed

text \<open>An encoded entry reads back, whatever follows it.\<close>

lemma parse_encode_entry:
  assumes "sizes_ok k v"
  shows "parse_entry C (ee_bytes (encode_entry C k v t ts) @ rest) =
    (Some (EntryOk (entry_of k v t ts) (of_nat (HEADER_SIZE + length k + length v))), rest)"
proof -
  have dk: "decode_key_size (encode_key_size (of_nat (length k)) t) = (of_nat (length k), t)"
    using assms by (intro decode_encode_key_size) (simp add: sizes_ok_def unat_of_nat_u32)
  obtain hdr where hdr: "ee_bytes (encode_entry C k v t ts) = hdr @ k @ v" "length hdr = HEADER_SIZE"
    "decode_entry_header hdr = (crc_hash C (drop 4 hdr @ k @ v),
       \<lparr>eh_timestamp = ts, eh_key_size = of_nat (length k), eh_value_size = of_nat (length v), eh_tombstone = t\<rparr>)"
    using encode_entry_split [of C k v t ts] by (auto simp: dk)
  show ?thesis
    using parse_entry_whole [OF hdr(2,3), of k v C rest] assms
    by (simp add: hdr(1) entry_of_def sizes_ok_def unat_of_nat_u32)
qed

lemma parse_entry_short:
  assumes "length hb = HEADER_SIZE" and "decode_entry_header hb = (crc, hdr)"
    and "length body < unat (eh_key_size hdr) + unat (eh_value_size hdr)"
  shows "fst (parse_entry C (hb @ body)) = Some EntryTruncated"
proof -
  let ?n = "unat (eh_key_size hdr) + unat (eh_value_size hdr)"
  have split: "take HEADER_SIZE (hb @ body) = hb" "drop HEADER_SIZE (hb @ body) = body"
    "hb @ body \<noteq> []" "\<not> length (hb @ body) < HEADER_SIZE"
    using assms(1) by (auto simp: HEADER_SIZE_def)
  have "length (take ?n body) < ?n" using assms(3) by simp
  then show ?thesis
    unfolding parse_entry_def Let_def split assms(2) by (simp only: split split_conv if_False if_True fst_conv)
qed

text \<open>A proper, non-empty prefix of an entry is reported as truncated.\<close>

lemma parse_entry_truncated:
  assumes "sizes_ok k v" and "0 < n" and "n < length (ee_bytes (encode_entry C k v t ts))"
  shows "fst (parse_entry C (take n (ee_bytes (encode_entry C k v t ts)))) = Some EntryTruncated"
proof -
  have dk: "decode_key_size (encode_key_size (of_nat (length k)) t) = (of_nat (length k), t)"
    using assms(1) by (intro decode_encode_key_size) (simp add: sizes_ok_def unat_of_nat_u32)
  obtain hdr where hdr: "ee_bytes (encode_entry C k v t ts) = hdr @ k @ v" "length hdr = HEADER_SIZE"
    "decode_entry_header hdr = (crc_hash C (drop 4 hdr @ k @ v),
       \<lparr>eh_timestamp = ts, eh_key_size = of_nat (length k), eh_value_size = of_nat (length v), eh_tombstone = t\<rparr>)"
    using encode_entry_split [of C k v t ts] by (auto simp: dk)
  show ?thesis
  proof (cases "n < HEADER_SIZE")
    case True
    then show ?thesis using assms(2) hdr(2)
      by (auto simp: parse_entry_def hdr(1) HEADER_SIZE_def)
  next
    case False
    then have "take n (hdr @ k @ v) = hdr @ take (n - HEADER_SIZE) (k @ v)"
      using hdr(2) by simp
    moreover have "length (take (n - HEADER_SIZE) (k @ v)) < length k + length v"
      using assms(3) hdr(1,2) False by simp
    ultimately show ?thesis
      using parse_entry_short [OF hdr(2,3), of "take (n - HEADER_SIZE) (k @ v)" C] assms(1)
      by (simp add: hdr(1) sizes_ok_def unat_of_nat_u32)
  qed
qed

text \<open>
  The format is canonical: whatever reads as a valid entry is the encoding of that entry. So a
  scan that accepts some bytes accepts exactly what \<open>encode_entry\<close> writes.
\<close>

lemma decode_header_inverse:
  assumes "length hb = HEADER_SIZE" and "decode_entry_header hb = (crc, hdr)"
  shows "hb = le32 crc @ le32 (eh_timestamp hdr) @
     le32 (encode_key_size (eh_key_size hdr) (eh_tombstone hdr)) @ le32 (eh_value_size hdr)"
proof -
  have "hb = slice 0 4 hb @ slice 4 8 hb @ slice 8 12 hb @ slice 12 16 hb"
    using assms(1) by (simp add: slice_join slice_whole HEADER_SIZE_def)
  moreover have "length (slice 0 4 hb) = 4" "length (slice 4 8 hb) = 4" "length (slice 8 12 hb) = 4"
    "length (slice 12 16 hb) = 4"
    using assms(1) by (simp_all add: HEADER_SIZE_def)
  moreover have "crc = le_decode (slice 0 4 hb)" "eh_timestamp hdr = le_decode (slice 4 8 hb)"
    "eh_value_size hdr = le_decode (slice 12 16 hb)"
    "encode_key_size (eh_key_size hdr) (eh_tombstone hdr) = le_decode (slice 8 12 hb)"
    using assms(2) encode_decode_key_size [of "le_decode (slice 8 12 hb)"]
    by (auto simp: decode_entry_header_def Let_def split: prod.splits)
  ultimately show ?thesis by (simp only: decode_le32)
qed

lemma parse_entry_Ok_inverse:
  assumes "parse_entry C bs = (Some (EntryOk e n), rest)"
  shows "bs = ee_bytes (encode_entry C (en_key e) (en_value e) (is_tombstone e)
      (eh_timestamp (en_header e))) @ rest"
    and "sizes_ok (en_key e) (en_value e)"
    and "n = of_nat (HEADER_SIZE + length (en_key e) + length (en_value e))"
    and "en_header e = en_header (entry_of (en_key e) (en_value e) (is_tombstone e)
      (eh_timestamp (en_header e)))"
proof -
  obtain hb body crc hdr where bs: "bs = hb @ body @ rest" and hb: "length hb = HEADER_SIZE"
    and dh: "decode_entry_header hb = (crc, hdr)"
    and body: "length body = unat (eh_key_size hdr) + unat (eh_value_size hdr)"
    and crc: "crc = crc_hash C (drop 4 hb @ body)"
    and e: "e = \<lparr>en_header = hdr, en_key = take (unat (eh_key_size hdr)) body,
      en_value = drop (unat (eh_key_size hdr)) body\<rparr>"
    and n: "n = of_nat (HEADER_SIZE + (unat (eh_key_size hdr) + unat (eh_value_size hdr)))"
  proof -
    let ?hb = "take HEADER_SIZE bs" and ?rest = "drop HEADER_SIZE bs"
    obtain crc hdr where dh: "decode_entry_header ?hb = (crc, hdr)" by fastforce
    let ?n = "unat (eh_key_size hdr) + unat (eh_value_size hdr)"
    let ?body = "take ?n ?rest"
    from assms dh have len: "\<not> length bs < HEADER_SIZE" and body: "\<not> length ?body < ?n"
      and crc: "crc = crc_hash C (drop 4 ?hb @ ?body)"
      and e: "e = \<lparr>en_header = hdr, en_key = take (unat (eh_key_size hdr)) ?body,
        en_value = drop (unat (eh_key_size hdr)) ?body\<rparr>"
      and n: "n = of_nat (HEADER_SIZE + ?n)" and rest: "rest = drop ?n ?rest"
      by (auto simp: parse_entry_def Let_def split: if_splits)
    have "bs = ?hb @ ?body @ rest" by (simp only: rest append_take_drop_id)
    moreover have "length ?hb = HEADER_SIZE" "length ?body = ?n" using len body by auto
    ultimately show thesis using that [OF _ _ dh _ crc e n] by blast
  qed
  have lens: "length (en_key e) = unat (eh_key_size hdr)" "length (en_value e) = unat (eh_value_size hdr)"
    and kv: "body = en_key e @ en_value e" and h: "en_header e = hdr"
    using body e by auto
  have sz: "of_nat (length (en_key e)) = eh_key_size hdr" "of_nat (length (en_value e)) = eh_value_size hdr"
    using lens by simp_all
  have "unat (eh_key_size hdr) < 2 ^ 31"
    using dh decode_key_size_bound
    by (auto simp: decode_entry_header_def Let_def split: prod.splits) (metis fst_conv)
  then show "sizes_ok (en_key e) (en_value e)"
    using lens unsigned_less [of "eh_value_size hdr"] by (simp add: sizes_ok_def)
  show "n = of_nat (HEADER_SIZE + length (en_key e) + length (en_value e))"
    unfolding lens n by (simp add: add.assoc)
  show "en_header e = en_header (entry_of (en_key e) (en_value e) (is_tombstone e)
      (eh_timestamp (en_header e)))"
    unfolding entry_of_def is_tombstone_def sz h by simp
  note hdr_bytes = decode_header_inverse [OF hb dh]
  have d4: "drop 4 hb = le32 (eh_timestamp hdr) @
     le32 (encode_key_size (eh_key_size hdr) (eh_tombstone hdr)) @ le32 (eh_value_size hdr)"
    using arg_cong [OF hdr_bytes, of "drop 4"] by simp
  note crc' = crc [unfolded d4 kv append_assoc]
  show "bs = ee_bytes (encode_entry C (en_key e) (en_value e) (is_tombstone e)
      (eh_timestamp (en_header e))) @ rest"
    unfolding encode_entry_def Let_def is_tombstone_def sz h bs
    by (simp only: hdr_bytes crc' kv append_assoc encoded_entry.select_convs)
qed

section \<open>Hint records and hint files round-trip\<close>

definition parse_hint :: "bytes \<Rightarrow> hint_read option \<times> bytes" where
  "parse_hint bs =
     (if bs = [] then (None, [])
      else if length bs < HINT_HEADER_SIZE then (Some HintTruncated, [])
      else let (hdr, value_pos) = decode_hint_header (take HINT_HEADER_SIZE bs);
               k = unat (eh_key_size hdr);
               body = take k (drop HINT_HEADER_SIZE bs); rest = drop k (drop HINT_HEADER_SIZE bs)
           in if length body < k then (Some HintTruncated, rest)
              else (Some (HintOk hdr value_pos body), rest))"

lemma parse_hint_shorter: "bs \<noteq> [] \<Longrightarrow> length (snd (parse_hint bs)) < length bs"
  by (auto simp: parse_hint_def Let_def HINT_HEADER_SIZE_def split: prod.splits)

lemma parse_hint_Nil [simp]: "parse_hint [] = (None, [])"
  by (simp add: parse_hint_def)

lemma read_hint_parse:
  "read_hint r = (Inr x, r') \<Longrightarrow> parse_hint (rd_rest r) = (x, rd_rest r')"
  unfolding read_hint_def parse_hint_def
  by (auto simp: Let_def HINT_HEADER_SIZE_def elim!: bindE_InrE dest!: read_up_to_exact
      split: prod.splits if_splits)

lemma read_hint_progress:
  assumes "read_hint r = (Inr (Some x), r')"
  shows "length (rd_rest r') < length (rd_rest r)"
proof -
  have "parse_hint (rd_rest r) = (Some x, rd_rest r')" by (rule read_hint_parse [OF assms])
  then show ?thesis using parse_hint_shorter [of "rd_rest r"] by (cases "rd_rest r") auto
qed

lemma robust_read_hint [simp]: "robust read_hint"
  unfolding read_hint_def Let_def case_prod_beta
  by (intro robust_bindE robust_read_up_to) (simp add: robust_bindE)

lemma consuming_read_hint [simp]: "consuming read_hint"
  unfolding read_hint_def Let_def case_prod_beta
  by (intro consuming_bindE consuming_read_up_to) (simp add: consuming_bindE)

lemma read_hint_cursor:
  assumes "rd_outs r = []"
  shows "read_hint r =
     (Inr (fst (parse_hint (rd_rest r))), \<lparr>rd_rest = snd (parse_hint (rd_rest r)), rd_outs = []\<rparr>)"
proof -
  obtain x r' where m: "read_hint r = (Inr x, r')"
    using robustD [OF robust_read_hint, of r] assms by fastforce
  have "rd_outs r' = []"
    using consuming_read_hint m assms unfolding consuming_def by (metis drop_Nil snd_conv)
  then show ?thesis using m read_hint_parse [OF m] by (cases r') simp
qed

lemma length_encode_hint [layout_simps]: "length (encode_hint k hdr vp) = HINT_HEADER_SIZE + length k"
  by (simp add: encode_hint_def Let_def HINT_HEADER_SIZE_def)

lemma decode_hint_header_encode:
  assumes "unat (eh_key_size hdr) < 2 ^ 31"
  shows "decode_hint_header (take HINT_HEADER_SIZE (encode_hint k hdr vp @ rest)) = (hdr, vp)"
proof -
  have "take HINT_HEADER_SIZE (encode_hint k hdr vp @ rest) =
    le32 (eh_timestamp hdr) @ le32 (encode_key_size (eh_key_size hdr) (eh_tombstone hdr)) @
    le32 (eh_value_size hdr) @ le64 vp"
    by (simp add: encode_hint_def Let_def HINT_HEADER_SIZE_def)
  then show ?thesis
    by (simp add: decode_hint_header_def slice_def decode_encode_key_size [OF assms])
qed

lemma parse_encode_hint:
  assumes "length k < 2 ^ 31" and "eh_key_size hdr = of_nat (length k)"
  shows "parse_hint (encode_hint k hdr vp @ rest) = (Some (HintOk hdr vp k), rest)"
proof -
  have ks: "unat (eh_key_size hdr) = length k"
    using assms by (simp add: unat_of_nat_u32)
  have dh: "decode_hint_header (take HINT_HEADER_SIZE (encode_hint k hdr vp @ rest)) = (hdr, vp)"
    using assms(1) by (intro decode_hint_header_encode) (simp add: ks)
  have split: "drop HINT_HEADER_SIZE (encode_hint k hdr vp @ rest) = k @ rest"
    "encode_hint k hdr vp @ rest \<noteq> []" "\<not> length (encode_hint k hdr vp @ rest) < HINT_HEADER_SIZE"
    by (simp_all add: encode_hint_def Let_def HINT_HEADER_SIZE_def le32_def eval_nat_numeral)
  show ?thesis
    unfolding parse_hint_def Let_def dh split_conv ks by (simp only: split if_False) simp
qed

text \<open>Hint records are only ever trusted under a whole-file checksum.\<close>

lemma verify_hint_file_trailer:
  "verify_hint_file C (content @ le32 (crc_hash C content)) = Some content"
  by (simp add: verify_hint_file_def HINT_TRAILER_SIZE_def Let_def)

lemma verify_hint_file_Some:
  assumes "verify_hint_file C bs = Some content"
  shows "bs = content @ le32 (crc_hash C content)"
proof -
  let ?n = "length bs - HINT_TRAILER_SIZE"
  from assms have n: "\<not> length bs < HINT_TRAILER_SIZE" and c: "content = take ?n bs"
    and crc: "crc_hash C content = le_decode (drop ?n bs)"
    by (auto simp: verify_hint_file_def Let_def split: if_splits)
  have "length (drop ?n bs) = 4" using n by (simp add: HINT_TRAILER_SIZE_def)
  then have "le32 (crc_hash C content) = drop ?n bs" by (simp add: crc decode_le32)
  then show ?thesis by (simp only: c append_take_drop_id)
qed

section \<open>A concrete checksum\<close>

text \<open>
  An instance of the parameter, to evaluate the model on concrete inputs: the sum of the bytes.
\<close>

definition byte_sum :: "u32 crc32fast" where
  "byte_sum = \<lparr>crc_hash = foldl (\<lambda>h b. h + ucast b) 0, hasher_new = 0,
     hasher_update = foldl (\<lambda>h b. h + ucast b), hasher_finalize = \<lambda>h. h\<rparr>"

lemma byte_sum_ok: "crc32fast_ok byte_sum"
proof -
  have "foldl (foldl (\<lambda>h b. h + ucast b)) h chunks = foldl (\<lambda>h b. h + ucast b) h (concat chunks)"
    for h :: u32 and chunks :: "bytes list"
    by (induction chunks arbitrary: h) auto
  then show ?thesis by (simp add: crc32fast_ok_def byte_sum_def)
qed

section \<open>Properties\<close>

text \<open>
  C26: Whatever is written by encode_entry for a key below 2^31 bytes and a value below 2^32 bytes
  reads back from read_entry as the same key, value, timestamp and tombstone flag, and the reader
  is left at the byte after the entry, however the reads are split into short ones.
\<close>

theorem entry_roundtrip:
  assumes "sizes_ok k v" and "fault_free outs"
  shows "\<exists>outs'. read_entry C \<lparr>rd_rest = ee_bytes (encode_entry C k v t ts) @ rest, rd_outs = outs\<rparr> =
    (Inr (Some (EntryOk
       \<lparr>en_header = \<lparr>eh_timestamp = ts, eh_key_size = of_nat (length k), eh_value_size = of_nat (length v),
          eh_tombstone = t\<rparr>, en_key = k, en_value = v\<rparr>
       (of_nat (16 + length k + length v)))), \<lparr>rd_rest = rest, rd_outs = outs'\<rparr>)"
proof -
  let ?r = "\<lparr>rd_rest = ee_bytes (encode_entry C k v t ts) @ rest, rd_outs = outs\<rparr>"
  obtain n where "read_entry C ?r = (Inr (fst (parse_entry C (rd_rest ?r))),
     \<lparr>rd_rest = snd (parse_entry C (rd_rest ?r)), rd_outs = drop n (rd_outs ?r)\<rparr>)"
    by (rule read_entry_fault_free [of ?r C]) (use assms(2) in auto)
  then show ?thesis
    using parse_encode_entry [OF assms(1), of C t ts rest]
    by (auto simp: entry_of_def HEADER_SIZE_def)
qed

lemma entry_roundtrip_witness:
  "\<exists>outs'. read_entry byte_sum
     \<lparr>rd_rest = ee_bytes (encode_entry byte_sum [107] [118, 119] False 7) @ [1], rd_outs = [Short 3, Short 1]\<rparr> =
    (Inr (Some (EntryOk
       \<lparr>en_header = \<lparr>eh_timestamp = 7, eh_key_size = 1, eh_value_size = 2, eh_tombstone = False\<rparr>,
        en_key = [107], en_value = [118, 119]\<rparr> 19)), \<lparr>rd_rest = [1], rd_outs = outs'\<rparr>)"
  using entry_roundtrip [of "[107]" "[118, 119]" "[Short 3, Short 1]" byte_sum False 7 "[1]"]
  by (simp add: sizes_ok_def fault_free_def)

text \<open>
  C27: The entry format is canonical: whenever read_entry accepts bytes as a valid entry, under any
  short or failing reads, those bytes are exactly what encode_entry produces for the entry it
  returns, the lengths fit their fields and the reported length is the length on disk.
\<close>

theorem entry_canonical:
  assumes "read_entry C r = (Inr (Some (EntryOk e n)), r')"
  shows "rd_rest r = ee_bytes (encode_entry C (en_key e) (en_value e) (is_tombstone e)
      (eh_timestamp (en_header e))) @ rd_rest r' \<and>
    length (en_key e) < 2 ^ 31 \<and> length (en_value e) < 2 ^ 32 \<and>
    n = of_nat (16 + length (en_key e) + length (en_value e))"
  using parse_entry_Ok_inverse [OF read_entry_parse [OF assms]]
  by (simp add: sizes_ok_def HEADER_SIZE_def)

lemma entry_canonical_witness:
  "fst (read_entry byte_sum \<lparr>rd_rest = [110, 0, 0, 0, 1, 0, 0, 0, 1, 0, 0, 0, 1, 0, 0, 0, 100, 7], rd_outs = []\<rparr>) =
     Inr (Some (EntryOk \<lparr>en_header = \<lparr>eh_timestamp = 1, eh_key_size = 1, eh_value_size = 1,
       eh_tombstone = False\<rparr>, en_key = [100], en_value = [7]\<rparr> 18)) \<and>
   [110, 0, 0, 0, 1, 0, 0, 0, 1, 0, 0, 0, 1, 0, 0, 0, 100, 7] =
     ee_bytes (encode_entry byte_sum [100] [7] False 1)"
proof -
  have r: "read_entry byte_sum
      \<lparr>rd_rest = [110, 0, 0, 0, 1, 0, 0, 0, 1, 0, 0, 0, 1, 0, 0, 0, 100, 7], rd_outs = []\<rparr> =
    (Inr (Some (EntryOk \<lparr>en_header = \<lparr>eh_timestamp = 1, eh_key_size = 1, eh_value_size = 1,
       eh_tombstone = False\<rparr>, en_key = [100], en_value = [7]\<rparr> 18)), \<lparr>rd_rest = [], rd_outs = []\<rparr>)"
    by code_simp
  show ?thesis using entry_canonical [OF r] r by (simp add: is_tombstone_def)
qed

text \<open>
  C28: A torn write is recognised: any proper, non-empty prefix of an encoded entry reads as
  Truncated (never as a valid or a corrupt entry), and no bytes at all read as the end of the file,
  however the reads are split.
\<close>

theorem entry_torn_prefix:
  assumes "sizes_ok k v" and "fault_free outs" and "n < 16 + length k + length v"
  shows "fst (read_entry C \<lparr>rd_rest = take n (ee_bytes (encode_entry C k v t ts)), rd_outs = outs\<rparr>) =
    Inr (if n = 0 then None else Some EntryTruncated)"
proof -
  let ?r = "\<lparr>rd_rest = take n (ee_bytes (encode_entry C k v t ts)), rd_outs = outs\<rparr>"
  obtain m where "read_entry C ?r = (Inr (fst (parse_entry C (rd_rest ?r))),
     \<lparr>rd_rest = snd (parse_entry C (rd_rest ?r)), rd_outs = drop m (rd_outs ?r)\<rparr>)"
    by (rule read_entry_fault_free [of ?r C]) (use assms(2) in auto)
  then show ?thesis
    using parse_entry_truncated [OF assms(1), of n C t ts] assms(3)
    by (auto simp: length_encode_entry HEADER_SIZE_def)
qed

lemma entry_torn_prefix_witness:
  "fst (read_entry byte_sum \<lparr>rd_rest = take 17 (ee_bytes (encode_entry byte_sum [107] [118] False 7)),
     rd_outs = [Short 2]\<rparr>) = Inr (Some EntryTruncated)"
  using entry_torn_prefix [of "[107]" "[118]" "[Short 2]" 17 byte_sum False 7]
  by (simp add: sizes_ok_def fault_free_def)

text \<open>
  Packing a key length and the tombstone flag into one 32-bit word loses nothing: for lengths
  below 2^31 the pair is recovered, and every word is the packing of what it decodes to.
\<close>

theorem key_size_packing:
  "(unat k < 2 ^ 31 \<longrightarrow> decode_key_size (encode_key_size k t) = (k, t)) \<and>
   encode_key_size (fst (decode_key_size raw)) (snd (decode_key_size raw)) = raw \<and>
   unat (fst (decode_key_size raw)) \<le> unat MAX_KEY_LEN"
  using decode_encode_key_size [of k t] encode_decode_key_size [of raw] decode_key_size_bound [of raw]
  by (simp add: unat_MAX_KEY_LEN)

lemma key_size_packing_witness: "decode_key_size (encode_key_size 5 True) = (5, True)"
  using key_size_packing [of 5 True 0] by simp

text \<open>With the top bit of the length set, the word decodes as a tombstone of a key 2^31 bytes shorter.\<close>

lemma oversized_key_size:
  assumes "2 ^ 31 \<le> unat k"
  shows "decode_key_size (encode_key_size k t) = (k - 2 ^ 31, True)"
proof -
  have b: "bit k 31" using assms by (simp add: key_len_high_bit_iff)
  have mask: "(encode_key_size k t AND KEYSIZE_MASK) = k AND KEYSIZE_MASK"
    by (rule bit_word_eqI)
      (auto simp: encode_key_size_def KEYSIZE_MASK_def bit_and_iff bit_or_iff bit_not_iff bit_TOMBSTONE_BIT)
  have "k = (k AND KEYSIZE_MASK) + TOMBSTONE_BIT" using b by (rule tombstone_split)
  then have "k AND KEYSIZE_MASK = k - 2 ^ 31" by (simp add: TOMBSTONE_BIT_def algebra_simps)
  moreover have "bit (encode_key_size k t) 31" using b by (simp add: encode_key_size_def bit_or_iff)
  ultimately show ?thesis by (simp add: decode_key_size_def tombstone_test mask)
qed

lemma encode_entry_checked_panics:
  assumes "length k < 2 ^ 32"
  shows "encode_entry_checked debug C k v t ts =
    (if debug \<and> 2 ^ 31 \<le> length k then None else Some (encode_entry C k v t ts))"
proof -
  have "unat (of_nat (length k) :: u32) = length k" using assms by (simp add: unat_of_nat_u32)
  then show ?thesis
    by (simp add: encode_entry_checked_def encode_key_size_checked_def word_le_nat_alt unat_MAX_KEY_LEN linorder_not_le)
qed

text \<open>What a reader makes of the bytes has the header's tombstone flag.\<close>

lemma parse_entry_header:
  assumes "fst (parse_entry C (hb @ rest)) = Some (EntryOk e n)" and "length hb = HEADER_SIZE"
  shows "en_header e = snd (decode_entry_header hb)"
  using assms by (auto simp: parse_entry_def Let_def split: prod.splits if_splits)

text \<open>
  C29: \<open>encode_entry\<close> on a key of 2^31 bytes or more (below 2^32). A build with debug assertions panics, for such keys
  and for no others. A release build, which has no such check in \<open>encode_entry\<close> nor in \<open>Engine::put\<close>, produces an
  entry whose header decodes as a tombstone of a key 2^31 bytes shorter, whatever flag was asked for: no reader ever
  takes these bytes, whatever follows them, for a value.
\<close>

theorem oversized_key_becomes_tombstone:
  assumes "length k < 2 ^ 32"
  shows "(encode_entry_checked True C k v t ts = None \<longleftrightarrow> 2 ^ 31 \<le> length k) \<and>
    (\<exists>e. encode_entry_checked False C k v t ts = Some e \<and>
      (2 ^ 31 \<le> length k \<longrightarrow>
        (let hdr = snd (decode_entry_header (take HEADER_SIZE (ee_bytes e)))
         in eh_tombstone hdr \<and> unat (eh_key_size hdr) = length k - 2 ^ 31) \<and>
        (\<forall>rest e' n. fst (parse_entry C (ee_bytes e @ rest)) = Some (EntryOk e' n) \<longrightarrow> is_tombstone e')))"
proof -
  obtain hdr where h: "ee_bytes (encode_entry C k v t ts) = hdr @ k @ v" "length hdr = HEADER_SIZE"
    "snd (decode_entry_header hdr) =
       \<lparr>eh_timestamp = ts, eh_key_size = fst (decode_key_size (encode_key_size (of_nat (length k)) t)),
        eh_value_size = of_nat (length v), eh_tombstone = snd (decode_key_size (encode_key_size (of_nat (length k)) t))\<rparr>"
    using encode_entry_split [of C k v t ts] by auto
  have u: "unat (of_nat (length k) :: u32) = length k" using assms by (simp add: unat_of_nat_u32)
  have "eh_tombstone (snd (decode_entry_header hdr)) \<and>
      unat (eh_key_size (snd (decode_entry_header hdr))) = length k - 2 ^ 31" if big: "2 ^ 31 \<le> length k"
  proof -
    have "(2 ^ 31 :: u32) \<le> of_nat (length k)" using big u by (simp add: word_le_nat_alt)
    then have "unat (of_nat (length k) - 2 ^ 31 :: u32) = length k - 2 ^ 31" using u by (simp add: unat_sub)
    then show ?thesis using oversized_key_size [of "of_nat (length k)" t] big u by (simp add: h(3))
  qed
  moreover have "is_tombstone e'" if "fst (parse_entry C (ee_bytes (encode_entry C k v t ts) @ rest)) = Some (EntryOk e' n)"
    "eh_tombstone (snd (decode_entry_header hdr))" for rest e' n
    using parse_entry_header [of C hdr "k @ v @ rest" e' n] that h(1,2) by (simp add: is_tombstone_def)
  ultimately show ?thesis
    using encode_entry_checked_panics [OF assms, of _ C v t ts] h(1,2) by (auto simp: Let_def)
qed

lemma oversized_key_becomes_tombstone_witness:
  "encode_entry_checked True byte_sum (replicate (2 ^ 31 + 3) 0) [118] False 7 = None"
proof -
  let ?k = "replicate (2 ^ 31 + 3) (0 :: u8)"
  have n: "length ?k = 2 ^ 31 + 3" by (rule length_replicate)
  have small: "length ?k < 2 ^ 32" and big: "2 ^ 31 \<le> length ?k" unfolding n by simp_all
  show ?thesis by (rule oversized_key_becomes_tombstone [OF small, THEN conjunct1, THEN iffD2, OF big])
qed

text \<open>
  C30: A hint record written by encode_hint reads back from read_hint with the same header, value
  position and key, and leaves the reader at the next record, however the reads are split.
\<close>

theorem hint_roundtrip:
  assumes "length k < 2 ^ 31" and "eh_key_size hdr = of_nat (length k)" and "fault_free outs"
  shows "\<exists>outs'. read_hint \<lparr>rd_rest = encode_hint k hdr value_pos @ rest, rd_outs = outs\<rparr> =
    (Inr (Some (HintOk hdr value_pos k)), \<lparr>rd_rest = rest, rd_outs = outs'\<rparr>)"
proof -
  let ?r = "\<lparr>rd_rest = encode_hint k hdr value_pos @ rest, rd_outs = outs\<rparr>"
  obtain x r' where m: "read_hint ?r = (Inr x, r')"
    by (rule robustD [OF robust_read_hint, of ?r]) (use assms(3) in auto)
  then have "(x, rd_rest r') = (Some (HintOk hdr value_pos k), rest)"
    using read_hint_parse [OF m] parse_encode_hint [OF assms(1,2), of value_pos rest] by simp
  with m show ?thesis by (cases r') auto
qed

lemma hint_roundtrip_witness:
  "\<exists>outs'. read_hint \<lparr>rd_rest = encode_hint [107]
       \<lparr>eh_timestamp = 9, eh_key_size = 1, eh_value_size = 4, eh_tombstone = False\<rparr> 42 @ [], rd_outs = [Short 5]\<rparr> =
    (Inr (Some (HintOk \<lparr>eh_timestamp = 9, eh_key_size = 1, eh_value_size = 4, eh_tombstone = False\<rparr> 42 [107])),
     \<lparr>rd_rest = [], rd_outs = outs'\<rparr>)"
  using hint_roundtrip [of "[107]" "\<lparr>eh_timestamp = 9, eh_key_size = 1, eh_value_size = 4, eh_tombstone = False\<rparr>"
      "[Short 5]" 42 "[]"] by (simp add: fault_free_def)

text \<open>
  verify_hint_file accepts exactly the byte strings that end in the little-endian CRC of what
  comes before, and then returns what comes before.
\<close>

theorem hint_file_checksum:
  "verify_hint_file C bs = Some content \<longleftrightarrow> bs = content @ le32 (crc_hash C content)"
  using verify_hint_file_trailer verify_hint_file_Some by metis

end
