(* ===== verification/Keydir.thy ===== *)
theory Keydir
  imports Format
begin

text \<open>
  The in-memory index of \<open>src/keydir.rs\<close>. The hash map is an association list with distinct keys;
  the order in which a \<open>HashMap\<close> iterates is not specified, so it is a parameter \<open>ord\<close> of the
  operations that iterate. \<open>SharedKeydir\<close> is the same index behind a readers-writer lock: each of
  its operations is one atomic step.
\<close>

section \<open>The interface of an index\<close>

text \<open>
  What the clients of the index (recovery, merge, the engine) rely on: lookups see the last write
  of a key, whatever was written to other keys.
\<close>

locale key_index =
  fixes new :: "'ix"
    and get :: "'k \<Rightarrow> 'ix \<Rightarrow> 'e option"
    and insert :: "'k \<Rightarrow> 'e \<Rightarrow> 'ix \<Rightarrow> 'ix"
    and remove :: "'k \<Rightarrow> 'ix \<Rightarrow> 'ix"
  assumes get_new: "get k new = None"
    and get_insert: "get k' (insert k e ix) = (if k' = k then Some e else get k' ix)"
    and get_remove: "get k' (remove k ix) = (if k' = k then None else get k' ix)"
begin

lemma last_write_wins: "get k (insert k e2 (insert k e1 ix)) = Some e2"
  by (simp add: get_insert)

text \<open>A log of writes: \<open>Some e\<close> stores, \<open>None\<close> removes.\<close>

lemma get_replay:
  "get k (fold (\<lambda>(k, w) ix. case w of Some e \<Rightarrow> insert k e ix | None \<Rightarrow> remove k ix) log ix)
     = fold (\<lambda>(k', w) m. m(k' := w)) log (\<lambda>k. get k ix) k"
proof (induction log arbitrary: ix)
  case Nil
  then show ?case by simp
next
  case (Cons x log)
  obtain k' w where x: "x = (k', w)" by fastforce
  have upd: "(\<lambda>k. get k (case w of Some e \<Rightarrow> insert k' e ix | None \<Rightarrow> remove k' ix))
      = (\<lambda>k. get k ix)(k' := w)"
    by (auto simp: fun_eq_iff get_insert get_remove split: option.splits)
  show ?case by (simp only: x fold_Cons comp_apply split_conv Cons.IH upd)
qed

text \<open>Only the last write to a key in a log matters.\<close>

lemma get_replay_last:
  "get k (fold (\<lambda>(k, w) ix. case w of Some e \<Rightarrow> insert k e ix | None \<Rightarrow> remove k ix) log ix)
     = (case map_of (rev log) k of Some w \<Rightarrow> w | None \<Rightarrow> get k ix)"
proof -
  have "fold (\<lambda>(k', w) m. m(k' := w)) log m k = (case map_of (rev log) k of Some w \<Rightarrow> w | None \<Rightarrow> m k)"
    for m :: "'k \<Rightarrow> 'e option"
    by (induction log arbitrary: m) (auto simp: map_add_def split: option.splits)
  then show ?thesis by (simp add: get_replay)
qed

end

section \<open>The index\<close>

record kd_entry =
  kd_file_id :: u32
  kd_value_size :: u32
  kd_value_pos :: u64
  kd_timestamp :: u32

record keydir =
  kd_map :: "(bytes \<times> kd_entry) list"

definition keydir_new :: keydir where
  "keydir_new = \<lparr>kd_map = []\<rparr>"

definition keydir_get :: "bytes \<Rightarrow> keydir \<Rightarrow> kd_entry option" where
  "keydir_get key kd = map_of (kd_map kd) key"

definition keydir_insert :: "bytes \<Rightarrow> kd_entry \<Rightarrow> keydir \<Rightarrow> keydir" where
  "keydir_insert key ent kd =
     (case map_of (kd_map kd) key of
        Some slot \<Rightarrow> kd\<lparr>kd_map := AList.update key ent (kd_map kd)\<rparr>
      | None \<Rightarrow> kd\<lparr>kd_map := (key, ent) # kd_map kd\<rparr>)"

definition keydir_remove :: "bytes \<Rightarrow> keydir \<Rightarrow> kd_entry option \<times> keydir" where
  "keydir_remove key kd = (map_of (kd_map kd) key, kd\<lparr>kd_map := AList.delete key (kd_map kd)\<rparr>)"

definition keydir_len :: "keydir \<Rightarrow> nat" where
  "keydir_len kd = length (kd_map kd)"

definition keydir_is_empty :: "keydir \<Rightarrow> bool" where
  "keydir_is_empty kd \<longleftrightarrow> kd_map kd = []"

definition keydir_iter :: "((bytes \<times> kd_entry) list \<Rightarrow> (bytes \<times> kd_entry) list) \<Rightarrow> keydir \<Rightarrow>
    (bytes \<times> kd_entry) list" where
  "keydir_iter ord kd = ord (kd_map kd)"

definition cas_repoint :: "bytes \<Rightarrow> kd_entry \<Rightarrow> kd_entry \<Rightarrow> keydir \<Rightarrow> bool \<times> keydir" where
  "cas_repoint key expected_old new_ent kd =
     (case map_of (kd_map kd) key of
        Some slot \<Rightarrow>
          (if slot = expected_old then (True, kd\<lparr>kd_map := AList.update key new_ent (kd_map kd)\<rparr>)
           else (False, kd))
      | None \<Rightarrow> (False, kd))"

text \<open>\<open>SharedKeydir::snapshot\<close>: a copy of all entries, taken under the read lock.\<close>

definition snapshot :: "((bytes \<times> kd_entry) list \<Rightarrow> (bytes \<times> kd_entry) list) \<Rightarrow> keydir \<Rightarrow>
    (bytes \<times> kd_entry) list" where
  "snapshot ord kd = map (\<lambda>(k, v). (k, v)) (keydir_iter ord kd)"

text \<open>What is known of the iteration order of a \<open>HashMap\<close>: every entry once.\<close>

definition iteration_order :: "('a list \<Rightarrow> 'a list) \<Rightarrow> bool" where
  "iteration_order ord \<longleftrightarrow> (\<forall>xs. distinct xs \<longrightarrow> distinct (ord xs) \<and> set (ord xs) = set xs)"

definition keydir_ok :: "keydir \<Rightarrow> bool" where
  "keydir_ok kd \<longleftrightarrow> distinct (map fst (kd_map kd))"

section \<open>Laws\<close>

lemma keydir_get_new [simp]: "keydir_get k keydir_new = None"
  by (simp add: keydir_get_def keydir_new_def)

lemma keydir_get_insert [simp]:
  "keydir_get k' (keydir_insert k e kd) = (if k' = k then Some e else keydir_get k' kd)"
  by (simp add: keydir_get_def keydir_insert_def update_conv' split: option.splits)

lemma keydir_get_remove [simp]:
  "keydir_get k' (snd (keydir_remove k kd)) = (if k' = k then None else keydir_get k' kd)"
  by (simp add: keydir_get_def keydir_remove_def delete_conv')

lemma fst_keydir_remove [simp]: "fst (keydir_remove k kd) = keydir_get k kd"
  by (simp add: keydir_get_def keydir_remove_def)

interpretation kd: key_index keydir_new keydir_get keydir_insert "\<lambda>k kd. snd (keydir_remove k kd)"
  by unfold_locales auto

lemma keydir_get_cas [simp]:
  "keydir_get k' (snd (cas_repoint k old new_ent kd)) =
     (if k' = k \<and> keydir_get k kd = Some old then Some new_ent else keydir_get k' kd)"
  by (auto simp: keydir_get_def cas_repoint_def update_conv' split: option.splits)

lemma fst_cas_repoint: "fst (cas_repoint k old new_ent kd) \<longleftrightarrow> keydir_get k kd = Some old"
  by (auto simp: keydir_get_def cas_repoint_def split: option.splits)

lemma keydir_ok_new [simp]: "keydir_ok keydir_new"
  by (simp add: keydir_ok_def keydir_new_def)

lemma keydir_ok_insert [simp]: "keydir_ok kd \<Longrightarrow> keydir_ok (keydir_insert k e kd)"
  by (auto simp: keydir_ok_def keydir_insert_def map_of_eq_None_iff distinct_update split: option.splits)

lemma keydir_ok_remove [simp]: "keydir_ok kd \<Longrightarrow> keydir_ok (snd (keydir_remove k kd))"
  by (simp add: keydir_ok_def keydir_remove_def distinct_delete)

lemma keydir_ok_cas [simp]: "keydir_ok kd \<Longrightarrow> keydir_ok (snd (cas_repoint k old new_ent kd))"
  by (auto simp: keydir_ok_def cas_repoint_def distinct_update split: option.splits)

lemma snapshot_iter: "snapshot ord kd = ord (kd_map kd)"
  by (simp add: snapshot_def keydir_iter_def)

lemma keydir_ok_distinct: "keydir_ok kd \<Longrightarrow> distinct (kd_map kd) \<and> inj_on fst (set (kd_map kd))"
  by (simp add: keydir_ok_def distinct_map)

lemma set_snapshot:
  "iteration_order ord \<Longrightarrow> keydir_ok kd \<Longrightarrow>
     set (snapshot ord kd) = set (kd_map kd) \<and> distinct (snapshot ord kd)"
  by (drule keydir_ok_distinct) (simp add: snapshot_iter iteration_order_def)

lemma in_snapshot:
  assumes "iteration_order ord" and "keydir_ok kd"
  shows "(k, e) \<in> set (snapshot ord kd) \<longleftrightarrow> keydir_get k kd = Some e"
proof -
  have "distinct (map fst (kd_map kd))" using assms(2) by (simp add: keydir_ok_def)
  then show ?thesis
    using set_snapshot [OF assms] by (simp add: keydir_get_def map_of_eq_Some_iff)
qed

lemma snapshot_keys_distinct:
  assumes "iteration_order ord" and "keydir_ok kd"
  shows "distinct (map fst (snapshot ord kd))"
  using set_snapshot [OF assms] keydir_ok_distinct [OF assms(2)] by (simp add: distinct_map)

lemma set_snapshot_keys:
  assumes "iteration_order ord" and "keydir_ok kd"
  shows "set (map fst (snapshot ord kd)) = {k. keydir_get k kd \<noteq> None}"
  using in_snapshot [OF assms] by (force simp: image_iff)

section \<open>Properties\<close>

text \<open>
  After any sequence of inserts and removes on any index, a lookup of a key gives what the
  last of them that names the key left there, and what it gave before if none does.
\<close>

theorem keydir_last_write_wins:
  "keydir_get k (fold (\<lambda>(k, w) kd. case w of Some e \<Rightarrow> keydir_insert k e kd
      | None \<Rightarrow> snd (keydir_remove k kd)) writes kd) =
   (case map_of (rev writes) k of Some w \<Rightarrow> w | None \<Rightarrow> keydir_get k kd)"
  by (rule kd.get_replay_last)

text \<open>
  cas_repoint replaces the entry of a key when it still is the expected one, reports whether
  it did, and touches nothing else: no key is added or removed, no other entry changes, and the
  index keeps one entry per key.
\<close>

theorem cas_repoint_atomic:
  "case cas_repoint k old_ent new_ent kd of (swapped, kd') \<Rightarrow>
     swapped = (keydir_get k kd = Some old_ent) \<and>
     keydir_get k' kd' = (if swapped \<and> k' = k then Some new_ent else keydir_get k' kd) \<and>
     map fst (kd_map kd') = map fst (kd_map kd) \<and> keydir_len kd' = keydir_len kd"
proof (cases "map_of (kd_map kd) k")
  case None
  then show ?thesis by (simp add: cas_repoint_def keydir_get_def)
next
  case (Some slot)
  then have "k \<in> fst ` set (kd_map kd)" by (metis map_of_eq_None_iff option.distinct(1))
  then have keys: "map fst (AList.update k new_ent (kd_map kd)) = map fst (kd_map kd)"
    by (simp add: update_keys)
  then have "length (AList.update k new_ent (kd_map kd)) = length (kd_map kd)" by (metis length_map)
  with Some keys show ?thesis
    by (simp add: cas_repoint_def keydir_get_def keydir_len_def update_conv')
qed

text \<open>
  A snapshot of a well-formed index lists every entry once, whatever order the hash map
  iterates in; its size is the index's length, which is the number of keys a lookup finds.
\<close>

theorem snapshot_complete:
  assumes "iteration_order ord" and "keydir_ok kd"
  shows "distinct (map fst (snapshot ord kd)) \<and>
    (\<forall>k e. (k, e) \<in> set (snapshot ord kd) \<longleftrightarrow> keydir_get k kd = Some e) \<and>
    length (snapshot ord kd) = keydir_len kd \<and>
    keydir_len kd = card {k. keydir_get k kd \<noteq> None} \<and>
    (keydir_is_empty kd \<longleftrightarrow> (\<forall>k. keydir_get k kd = None))"
proof -
  have d: "distinct (map fst (snapshot ord kd))" by (rule snapshot_keys_distinct [OF assms])
  have l: "length (snapshot ord kd) = length (kd_map kd)"
    using set_snapshot [OF assms] keydir_ok_distinct [OF assms(2)] by (metis distinct_card)
  have "length (snapshot ord kd) = card (set (map fst (snapshot ord kd)))"
    using distinct_card [OF d] by simp
  then have "keydir_len kd = card {k. keydir_get k kd \<noteq> None}"
    using l by (simp only: keydir_len_def set_snapshot_keys [OF assms])
  moreover have "keydir_is_empty kd \<longleftrightarrow> (\<forall>k. keydir_get k kd = None)"
    by (cases "kd_map kd") (auto simp: keydir_is_empty_def keydir_get_def)
  ultimately show ?thesis using d l in_snapshot [OF assms] by (simp add: keydir_len_def)
qed

lemma snapshot_complete_witness:
  "distinct (map fst (snapshot rev (keydir_insert [2] \<lparr>kd_file_id = 0, kd_value_size = 1, kd_value_pos = 17, kd_timestamp = 3\<rparr>
     (keydir_insert [1] \<lparr>kd_file_id = 0, kd_value_size = 0, kd_value_pos = 34, kd_timestamp = 4\<rparr> keydir_new))))"
  by (rule snapshot_complete [THEN conjunct1]) (simp_all add: iteration_order_def)

end
