(* ===== verification/SharedKeydir.thy ===== *)
theory SharedKeydir
  imports Keydir
begin

text \<open>
  \<open>SharedKeydir\<close> of \<open>src/keydir.rs\<close>: the index behind a readers-writer lock. Every method takes the lock, makes one call on the
  index and releases the lock, so that the calls of several threads happen one after the other, in some order. What a thread
  may conclude from the answer of its call must hold for all orders.
\<close>

section \<open>Calls\<close>

datatype kd_call =
    SkGet bytes
  | SkInsert bytes kd_entry
  | SkRemove bytes
  | SkLen
  | SkIsEmpty
  | SkCas bytes kd_entry kd_entry
  | SkSnapshot

datatype kd_answer =
    Entry "kd_entry option"
  | Inserted
  | Count nat
  | Flag bool
  | Entries "(bytes \<times> kd_entry) list"

fun shared_call :: "((bytes \<times> kd_entry) list \<Rightarrow> (bytes \<times> kd_entry) list) \<Rightarrow> kd_call \<Rightarrow> keydir \<Rightarrow> kd_answer \<times> keydir" where
  "shared_call ord (SkGet k) kd = (Entry (keydir_get k kd), kd)"
| "shared_call ord (SkInsert k e) kd = (Inserted, keydir_insert k e kd)"
| "shared_call ord (SkRemove k) kd = (case keydir_remove k kd of (old, kd) \<Rightarrow> (Entry old, kd))"
| "shared_call ord SkLen kd = (Count (keydir_len kd), kd)"
| "shared_call ord SkIsEmpty kd = (Flag (keydir_is_empty kd), kd)"
| "shared_call ord (SkCas k old new_ent) kd = (case cas_repoint k old new_ent kd of (swapped, kd) \<Rightarrow> (Flag swapped, kd))"
| "shared_call ord SkSnapshot kd = (Entries (snapshot ord kd), kd)"

text \<open>The calls of all threads in the order in which they got the lock, with their answers.\<close>

fun shared_history :: "((bytes \<times> kd_entry) list \<Rightarrow> (bytes \<times> kd_entry) list) \<Rightarrow> kd_call list \<Rightarrow> keydir \<Rightarrow> (kd_call \<times> kd_answer) list \<times> keydir" where
  "shared_history ord [] kd = ([], kd)"
| "shared_history ord (c # cs) kd =
     (case shared_call ord c kd of (ans, kd) \<Rightarrow>
        (case shared_history ord cs kd of (h, kd) \<Rightarrow> ((c, ans) # h, kd)))"

section \<open>An entry is repointed once\<close>

definition installs :: "bytes \<Rightarrow> kd_entry \<Rightarrow> kd_call \<Rightarrow> bool" where
  "installs k ent c \<longleftrightarrow> c = SkInsert k ent \<or> (\<exists>e. c = SkCas k e ent)"

fun won :: "bytes \<Rightarrow> kd_entry \<Rightarrow> kd_call \<times> kd_answer \<Rightarrow> bool" where
  "won k old (SkCas k' e new_ent, Flag b) \<longleftrightarrow> k' = k \<and> e = old \<and> b"
| "won k old _ \<longleftrightarrow> False"

lemma keydir_ok_call: "keydir_ok kd \<Longrightarrow> keydir_ok (snd (shared_call ord c kd))"
  using keydir_ok_remove keydir_ok_cas by (cases c) (auto simp: split_beta)

lemma entry_gone_call:
  assumes "keydir_get k kd \<noteq> Some old" and "\<not> installs k old c"
  shows "keydir_get k (snd (shared_call ord c kd)) \<noteq> Some old" and "\<not> won k old (c, fst (shared_call ord c kd))"
  using assms by (cases c; auto simp: installs_def split_beta fst_cas_repoint)+

lemma entry_gone_history:
  assumes "keydir_get k kd \<noteq> Some old" and "\<forall>c \<in> set cs. \<not> installs k old c"
  shows "filter (won k old) (fst (shared_history ord cs kd)) = []"
  using assms
proof (induction cs arbitrary: kd)
  case (Cons c cs)
  from entry_gone_call [OF Cons.prems(1), of c ord] Cons show ?case by (simp add: split_beta)
qed simp

lemma won_leaves: "won k old (c, fst (shared_call ord c kd)) \<Longrightarrow> \<not> installs k old c \<Longrightarrow>
  keydir_get k kd = Some old \<and> keydir_get k (snd (shared_call ord c kd)) \<noteq> Some old"
  by (cases c) (auto simp: installs_def split_beta fst_cas_repoint)

text \<open>
  C31: An entry is repointed at most once. Whatever the threads do with the shared index and in whatever order they get its lock, if
  nobody stores the entry \<open>old\<close> under the key again, then at most one \<open>cas_repoint\<close> that expects it reports success; the
  index keeps one entry per key all the time.
\<close>

theorem repointed_once:
  assumes "\<forall>c \<in> set cs. \<not> installs k old c" and "keydir_ok kd"
  shows "length (filter (won k old) (fst (shared_history ord cs kd))) \<le> 1 \<and> keydir_ok (snd (shared_history ord cs kd))"
  using assms
proof (induction cs arbitrary: kd)
  case (Cons c cs)
  let ?kd = "snd (shared_call ord c kd)"
  have ok: "keydir_ok ?kd" by (rule keydir_ok_call [OF Cons.prems(2)])
  have rest: "\<forall>c \<in> set cs. \<not> installs k old c" using Cons.prems(1) by simp
  note IH = Cons.IH [OF rest ok]
  show ?case
  proof (cases "won k old (c, fst (shared_call ord c kd))")
    case True
    then have "keydir_get k ?kd \<noteq> Some old" using won_leaves Cons.prems(1) by simp
    then show ?thesis using True IH entry_gone_history [OF _ rest, of ?kd ord] by (simp add: split_beta)
  next
    case False
    then show ?thesis using IH by (simp add: split_beta)
  qed
qed simp

lemma repointed_once_witness:
  "length (filter (won [107] \<lparr>kd_file_id = 1, kd_value_size = 4, kd_value_pos = 20, kd_timestamp = 7\<rparr>)
     (fst (shared_history rev
        [SkInsert [108] \<lparr>kd_file_id = 2, kd_value_size = 4, kd_value_pos = 20, kd_timestamp = 7\<rparr>,
         SkCas [107] \<lparr>kd_file_id = 1, kd_value_size = 4, kd_value_pos = 20, kd_timestamp = 7\<rparr>
           \<lparr>kd_file_id = 3, kd_value_size = 4, kd_value_pos = 20, kd_timestamp = 7\<rparr>,
         SkCas [107] \<lparr>kd_file_id = 1, kd_value_size = 4, kd_value_pos = 20, kd_timestamp = 7\<rparr>
           \<lparr>kd_file_id = 4, kd_value_size = 4, kd_value_pos = 20, kd_timestamp = 7\<rparr>]
        (keydir_insert [107] \<lparr>kd_file_id = 1, kd_value_size = 4, kd_value_pos = 20, kd_timestamp = 7\<rparr> keydir_new)))) \<le> 1"
  by (rule conjunct1 [OF repointed_once]) (simp_all add: installs_def)

end
