(* ===== verification/Commit.thy ===== *)
theory Commit
  imports OsModel
begin

text \<open>
  \<open>src/commit.rs\<close> as one thread sees it: the coordinator's state, its three operations, and the
  loop of \<open>commit\<close>. A call that would have to wait for another thread's fsync does not return in
  this model (\<open>None\<close>); the interleaving of several threads is in \<open>CommitSteps\<close>.
\<close>

record group_commit =
  gc_pending_writes :: u64
  gc_max_durable_generation :: u64
  gc_is_syncing :: bool
  gc_n_fsync_calls :: nat

definition gc_new :: group_commit where
  "gc_new = \<lparr>gc_pending_writes = 0, gc_max_durable_generation = 0, gc_is_syncing = False,
     gc_n_fsync_calls = 0\<rparr>"

definition record_pending :: "group_commit \<Rightarrow> u64 \<times> group_commit" where
  "record_pending gc =
     (let gc' = gc\<lparr>gc_pending_writes := gc_pending_writes gc + 1\<rparr> in (gc_pending_writes gc', gc'))"

definition mark_all_durable :: "group_commit \<Rightarrow> group_commit" where
  "mark_all_durable gc = gc\<lparr>gc_max_durable_generation := gc_pending_writes gc\<rparr>"

text \<open>What the leader does to the state before its fsync, and after it.\<close>

definition begin_sync :: "group_commit \<Rightarrow> u64 \<times> group_commit" where
  "begin_sync gc = (gc_pending_writes gc, gc\<lparr>gc_is_syncing := True\<rparr>)"

definition end_sync :: "u64 \<Rightarrow> bool \<Rightarrow> group_commit \<Rightarrow> group_commit" where
  "end_sync covers_up_to ok gc =
     gc\<lparr>gc_n_fsync_calls := Suc (gc_n_fsync_calls gc), gc_is_syncing := False,
        gc_max_durable_generation :=
          (if ok then max (gc_max_durable_generation gc) covers_up_to
           else gc_max_durable_generation gc)\<rparr>"

text \<open>
  One round of leading: run the fsync (which may change the rest of the state) between the two.
\<close>

definition lead :: "('s, io_error, unit) act \<Rightarrow> (group_commit \<times> 's, io_error, unit) act" where
  "lead do_fsync = (\<lambda>(gc, s).
     (let (covers_up_to, gc') = begin_sync gc; (res, s') = do_fsync s
      in (res, (end_sync covers_up_to (\<not> isl res) gc', s'))))"

partial_function (option) gc_commit ::
  "u64 \<Rightarrow> ('s, io_error, unit) act \<Rightarrow> group_commit \<times> 's \<Rightarrow>
     ((io_error + unit) \<times> group_commit \<times> 's) option" where
  "gc_commit target do_fsync st =
     (if target \<le> gc_max_durable_generation (fst st) then Some (Inr (), st)
      else if \<not> gc_is_syncing (fst st) then
        (case lead do_fsync st of
           (Inl e, st') \<Rightarrow> Some (Inl e, st')
         | (Inr _, st') \<Rightarrow> gc_commit target do_fsync st')
      else None)"

declare gc_commit.simps [code]

text \<open>No call of this thread is in progress, and only recorded generations are durable.\<close>

definition gc_ok :: "group_commit \<Rightarrow> bool" where
  "gc_ok gc \<longleftrightarrow> \<not> gc_is_syncing gc \<and> gc_max_durable_generation gc \<le> gc_pending_writes gc"

lemma gc_ok_new [simp]: "gc_ok gc_new"
  by (simp add: gc_ok_def gc_new_def)

lemma gc_ok_mark_all_durable [simp]: "gc_ok gc \<Longrightarrow> gc_ok (mark_all_durable gc)"
  by (simp add: gc_ok_def mark_all_durable_def)

lemma gc_ok_record_pending:
  "gc_ok gc \<Longrightarrow> unat (gc_pending_writes gc) < 2 ^ 64 - 1 \<Longrightarrow> gc_ok (snd (record_pending gc))"
proof -
  assume ok: "gc_ok gc" and b: "unat (gc_pending_writes gc) < 2 ^ 64 - 1"
  then have "unat (gc_pending_writes gc + 1) = unat (gc_pending_writes gc) + 1"
    by (subst unat_add_lem [THEN iffD1]) auto
  with ok show ?thesis
    by (simp add: gc_ok_def record_pending_def word_le_nat_alt)
qed

text \<open>
  A single caller whose generation has been recorded is never blocked: it leads at most one
  fsync, and its result is the fsync's.
\<close>

lemma gc_commit_returns:
  assumes "gc_ok gc" and "target \<le> gc_pending_writes gc"
  shows "gc_commit target do_fsync (gc, s) =
    (if target \<le> gc_max_durable_generation gc then Some (Inr (), gc, s)
     else Some (fst (do_fsync s),
       end_sync (gc_pending_writes gc) (\<not> isl (fst (do_fsync s))) (snd (begin_sync gc)), snd (do_fsync s)))"
proof (cases "target \<le> gc_max_durable_generation gc")
  case True
  then show ?thesis by (simp add: gc_commit.simps [of target do_fsync])
next
  case False
  have ns: "\<not> gc_is_syncing gc" using assms(1) by (simp add: gc_ok_def)
  obtain res s' where f: "do_fsync s = (res, s')" by fastforce
  show ?thesis
  proof (cases res)
    case (Inl e)
    then show ?thesis using False ns f
      by (simp add: gc_commit.simps [of target do_fsync "(gc, s)"] lead_def begin_sync_def Let_def)
  next
    case (Inr u)
    have "target \<le> max (gc_max_durable_generation gc) (gc_pending_writes gc)"
      using assms(2) by (simp add: le_max_iff_disj)
    then show ?thesis using False ns f Inr
      by (simp add: gc_commit.simps [of target do_fsync "(gc, s)"]
          gc_commit.simps [of target do_fsync "(_, s')"] lead_def begin_sync_def end_sync_def Let_def)
  qed
qed

lemma gc_ok_end_sync [simp]:
  "gc_ok gc \<Longrightarrow> gc_ok (end_sync (gc_pending_writes gc) ok (snd (begin_sync gc)))"
  by (simp add: gc_ok_def end_sync_def begin_sync_def)

end
