(* ===== verification/CommitSteps.thy ===== *)
theory CommitSteps
  imports Commit
begin

text \<open>
  \<open>src/commit.rs\<close> with any number of threads: a step relation whose steps are the sections of \<open>commit\<close>,
  \<open>record_pending\<close> and \<open>mark_all_durable\<close> that hold the mutex. A thread is asleep on the condition variable,
  awake, or inside its fsync; the condition variable may wake a thread for no reason.
\<close>

section \<open>Threads\<close>

text \<open>
  \<open>Ready t\<close>: has recorded generation \<open>t\<close> and calls \<open>commit\<close>. \<open>Leading t c\<close>: is running the fsync that covers
  everything up to \<open>c\<close>. \<open>Notified t\<close>: has been woken and will take the mutex.
\<close>

datatype thread =
    Idle
  | Ready u64
  | Waiting u64
  | Notified u64
  | Leading u64 u64
  | Returned u64 "io_error + unit"

text \<open>
  The coordinator, the threads, and the generation up to which the writes have reached the disk, which the
  code does not see.
\<close>

record commit_sys =
  cs_gc :: group_commit
  cs_threads :: "thread list"
  cs_on_disk :: u64

definition cs_init :: "nat \<Rightarrow> commit_sys" where
  "cs_init n = \<lparr>cs_gc = gc_new, cs_threads = replicate n Idle, cs_on_disk = 0\<rparr>"

text \<open>The top of the loop of \<open>commit\<close>, with the mutex held: return, start leading, or sleep.\<close>

definition loop_top :: "u64 \<Rightarrow> group_commit \<Rightarrow> thread \<times> group_commit" where
  "loop_top target gc =
     (if target \<le> gc_max_durable_generation gc then (Returned target (Inr ()), gc)
      else if \<not> gc_is_syncing gc then (case begin_sync gc of (covers_up_to, gc) \<Rightarrow> (Leading target covers_up_to, gc))
      else (Waiting target, gc))"

text \<open>\<open>notify_all\<close>\<close>

fun notify :: "thread \<Rightarrow> thread" where
  "notify (Waiting t) = Notified t"
| "notify th = th"

fun may_append :: "thread \<Rightarrow> bool" where
  "may_append Idle = True"
| "may_append (Returned _ _) = True"
| "may_append _ = False"

fun runnable :: "thread \<Rightarrow> u64 option" where
  "runnable (Ready t) = Some t"
| "runnable (Notified t) = Some t"
| "runnable _ = None"

section \<open>Steps\<close>

datatype event = Recorded | Forgotten | Rotated | Entered | Spurious | Synced | SyncFailed

text \<open>
  \<open>Recorded\<close>: a write is appended and will be committed; \<open>Forgotten\<close>: it will not (syncing is off, or the
  rotation that follows fails). \<open>Rotated\<close>: the active file was synced under the append lock. An fsync that
  succeeds has brought at least what had been recorded when it started to the disk (\<open>fdatasync\<close>), also after
  another fsync has failed: the code, too, takes a later success for all of it. The counter of generations does
  not wrap.
\<close>

inductive cstep :: "event \<Rightarrow> commit_sys \<Rightarrow> commit_sys \<Rightarrow> bool" where
  Recorded: "i < length ths \<Longrightarrow> may_append (ths ! i) \<Longrightarrow> unat (gc_pending_writes gc) < 2 ^ 64 - 1 \<Longrightarrow>
    record_pending gc = (t, gc') \<Longrightarrow>
    cstep Recorded \<lparr>cs_gc = gc, cs_threads = ths, cs_on_disk = d\<rparr>
      \<lparr>cs_gc = gc', cs_threads = ths[i := Ready t], cs_on_disk = d\<rparr>"
| Forgotten: "unat (gc_pending_writes gc) < 2 ^ 64 - 1 \<Longrightarrow> record_pending gc = (t, gc') \<Longrightarrow>
    cstep Forgotten \<lparr>cs_gc = gc, cs_threads = ths, cs_on_disk = d\<rparr> \<lparr>cs_gc = gc', cs_threads = ths, cs_on_disk = d\<rparr>"
| Rotated: "cstep Rotated \<lparr>cs_gc = gc, cs_threads = ths, cs_on_disk = d\<rparr>
      \<lparr>cs_gc = mark_all_durable gc, cs_threads = map notify ths, cs_on_disk = gc_pending_writes gc\<rparr>"
| Entered: "i < length ths \<Longrightarrow> runnable (ths ! i) = Some t \<Longrightarrow> loop_top t gc = (th, gc') \<Longrightarrow>
    cstep Entered \<lparr>cs_gc = gc, cs_threads = ths, cs_on_disk = d\<rparr>
      \<lparr>cs_gc = gc', cs_threads = ths[i := th], cs_on_disk = d\<rparr>"
| Spurious: "i < length ths \<Longrightarrow> ths ! i = Waiting t \<Longrightarrow> loop_top t gc = (th, gc') \<Longrightarrow>
    cstep Spurious \<lparr>cs_gc = gc, cs_threads = ths, cs_on_disk = d\<rparr>
      \<lparr>cs_gc = gc', cs_threads = ths[i := th], cs_on_disk = d\<rparr>"
| Synced: "i < length ths \<Longrightarrow> ths ! i = Leading t c \<Longrightarrow> d \<le> d' \<Longrightarrow> c \<le> d' \<Longrightarrow> d' \<le> gc_pending_writes gc \<Longrightarrow>
    loop_top t (end_sync c True gc) = (th, gc') \<Longrightarrow>
    cstep Synced \<lparr>cs_gc = gc, cs_threads = ths, cs_on_disk = d\<rparr>
      \<lparr>cs_gc = gc', cs_threads = (map notify ths)[i := th], cs_on_disk = d'\<rparr>"
| SyncFailed: "i < length ths \<Longrightarrow> ths ! i = Leading t c \<Longrightarrow>
    cstep SyncFailed \<lparr>cs_gc = gc, cs_threads = ths, cs_on_disk = d\<rparr>
      \<lparr>cs_gc = end_sync c False gc, cs_threads = (map notify ths)[i := Returned t (Inl e)], cs_on_disk = d\<rparr>"

inductive cs_reachable :: "nat \<Rightarrow> commit_sys \<Rightarrow> bool" for n where
  init: "cs_reachable n (cs_init n)"
| step: "cs_reachable n s \<Longrightarrow> cstep ev s s' \<Longrightarrow> cs_reachable n s'"

text \<open>Steps of calls of \<open>commit\<close> that are under way.\<close>

definition commit_step :: "commit_sys \<Rightarrow> commit_sys \<Rightarrow> bool" where
  "commit_step s s' \<longleftrightarrow> (\<exists>ev \<in> {Entered, Synced, SyncFailed}. cstep ev s s')"

lemma commit_stepI:
  "cstep Entered s s' \<Longrightarrow> commit_step s s'" "cstep Synced s s' \<Longrightarrow> commit_step s s'" "cstep SyncFailed s s' \<Longrightarrow> commit_step s s'"
  by (auto simp: commit_step_def)

section \<open>The invariant\<close>

fun leading :: "thread \<Rightarrow> bool" where
  "leading (Leading _ _) = True"
| "leading _ = False"

text \<open>What a thread may assume, given the recorded and the durable generation.\<close>

fun thread_ok :: "u64 \<Rightarrow> u64 \<Rightarrow> thread \<Rightarrow> bool" where
  "thread_ok pending durable Idle = True"
| "thread_ok pending durable (Leading t c) = (t \<le> c \<and> c \<le> pending)"
| "thread_ok pending durable (Returned t (Inr _)) = (t \<le> durable)"
| "thread_ok pending durable (Returned t (Inl _)) = (t \<le> pending)"
| "thread_ok pending durable (Ready t) = (t \<le> pending)"
| "thread_ok pending durable (Waiting t) = (t \<le> pending)"
| "thread_ok pending durable (Notified t) = (t \<le> pending)"

definition in_commit :: "thread \<Rightarrow> bool" where
  "in_commit th \<longleftrightarrow> \<not> may_append th"

definition count :: "('a \<Rightarrow> bool) \<Rightarrow> 'a list \<Rightarrow> nat" where
  "count P xs = length (filter P xs)"

text \<open>
  One leader exactly when an fsync is in flight; nobody sleeps without one; every thread inside \<open>commit\<close> has
  recorded a write that has not yet been paid for by an fsync.
\<close>

definition cs_inv :: "nat \<Rightarrow> commit_sys \<Rightarrow> bool" where
  "cs_inv n s \<longleftrightarrow> length (cs_threads s) = n \<and>
     gc_max_durable_generation (cs_gc s) \<le> cs_on_disk s \<and> cs_on_disk s \<le> gc_pending_writes (cs_gc s) \<and>
     (\<forall>th \<in> set (cs_threads s). thread_ok (gc_pending_writes (cs_gc s)) (gc_max_durable_generation (cs_gc s)) th) \<and>
     count leading (cs_threads s) = of_bool (gc_is_syncing (cs_gc s)) \<and>
     ((\<exists>t. Waiting t \<in> set (cs_threads s)) \<longrightarrow> gc_is_syncing (cs_gc s)) \<and>
     gc_n_fsync_calls (cs_gc s) + count in_commit (cs_threads s) \<le> unat (gc_pending_writes (cs_gc s))"


lemma count_update:
  "i < length xs \<Longrightarrow> count P (xs[i := x]) + of_bool (P (xs ! i)) = count P xs + of_bool (P x)"
proof (induction xs arbitrary: i)
  case (Cons y ys)
  show ?case using Cons.prems Cons.IH [of "i - 1"] by (cases i) (auto simp: count_def)
qed simp

lemma count_notify [simp]:
  "count leading (map notify ths) = count leading ths" "count in_commit (map notify ths) = count in_commit ths"
proof -
  have "leading (notify th) = leading th" "in_commit (notify th) = in_commit th" for th
    by (cases th; simp add: in_commit_def)+
  then show "count leading (map notify ths) = count leading ths" "count in_commit (map notify ths) = count in_commit ths"
    by (induction ths) (simp_all add: count_def)
qed

lemma notify_leading [simp]: "notify th = Leading t c \<longleftrightarrow> th = Leading t c" "Waiting t \<noteq> notify th" "leading (notify th) = leading th"
  by (cases th; simp)+

lemma thread_ok_notify [simp]: "thread_ok p d (notify th) = thread_ok p d th"
  by (cases th) simp_all

lemma thread_ok_mono: "thread_ok p d th \<Longrightarrow> p \<le> p' \<Longrightarrow> d \<le> d' \<Longrightarrow> thread_ok p' d' th"
  by (induction p d th rule: thread_ok.induct) auto

lemma count_pos: "x \<in> set xs \<Longrightarrow> P x \<Longrightarrow> 0 < count P xs"
  by (auto simp: count_def filter_empty_conv)

lemma count_exists: "0 < count P xs \<Longrightarrow> \<exists>x \<in> set xs. P x"
  by (auto simp: count_def filter_empty_conv)

lemma leading_unique:
  assumes "count leading xs \<le> 1" and "i < length xs" and "j < length xs" and "leading (xs ! i)" and "leading (xs ! j)"
  shows "i = j"
proof (rule ccontr)
  assume "i \<noteq> j"
  have "count leading (xs[i := Idle]) + 1 = count leading xs" using count_update [OF assms(2), of leading Idle] assms(4) by simp
  moreover have "0 < count leading (xs[i := Idle])"
    using assms(3,5) \<open>i \<noteq> j\<close> by (intro count_pos [of "xs ! j"]) (auto simp: in_set_conv_nth)
  ultimately show False using assms(1) by simp
qed

lemma record_pending_next:
  assumes "unat (gc_pending_writes gc) < 2 ^ 64 - 1" and "record_pending gc = (t, gc')"
  shows "unat (gc_pending_writes gc') = Suc (unat (gc_pending_writes gc))" and "gc_pending_writes gc \<le> gc_pending_writes gc'"
    and "t = gc_pending_writes gc'" and "gc_max_durable_generation gc' = gc_max_durable_generation gc"
    and "gc_is_syncing gc' = gc_is_syncing gc" and "gc_n_fsync_calls gc' = gc_n_fsync_calls gc"
proof -
  have s: "unat (gc_pending_writes gc + 1) = Suc (unat (gc_pending_writes gc))"
    using assms(1) by (subst unat_add_lem [THEN iffD1]) auto
  then show "unat (gc_pending_writes gc') = Suc (unat (gc_pending_writes gc))" "gc_pending_writes gc \<le> gc_pending_writes gc'"
    using assms(2) by (auto simp: record_pending_def Let_def word_le_nat_alt)
qed (use assms(2) in \<open>auto simp: record_pending_def Let_def\<close>)

lemma set_update_ball: "\<forall>x \<in> set xs. P x \<Longrightarrow> P y \<Longrightarrow> \<forall>x \<in> set (xs[i := y]). P x"
  using set_update_subset_insert [of xs i y] by blast

text \<open>A thread that passes the top of the loop, and is not leading, keeps the invariant.\<close>

lemma loop_top_inv:
  assumes inv: "cs_inv n \<lparr>cs_gc = gc, cs_threads = ths, cs_on_disk = d\<rparr>" and i: "i < length ths"
    and t: "in_commit (ths ! i)" "\<not> leading (ths ! i)" "t \<le> gc_pending_writes gc" and l: "loop_top t gc = (th, gc')"
  shows "cs_inv n \<lparr>cs_gc = gc', cs_threads = ths[i := th], cs_on_disk = d\<rparr>"
proof -
  have ok: "\<forall>th \<in> set ths. thread_ok (gc_pending_writes gc) (gc_max_durable_generation gc) th"
    and w: "(\<exists>t. Waiting t \<in> set ths) \<longrightarrow> gc_is_syncing gc"
    using inv by (simp_all add: cs_inv_def)
  have gc': "gc_pending_writes gc' = gc_pending_writes gc" "gc_max_durable_generation gc' = gc_max_durable_generation gc"
    "gc_n_fsync_calls gc' = gc_n_fsync_calls gc"
    and th: "thread_ok (gc_pending_writes gc) (gc_max_durable_generation gc) th"
    and s: "of_bool (gc_is_syncing gc') = (of_bool (gc_is_syncing gc) + of_bool (leading th) :: nat)"
    "th = Waiting t' \<Longrightarrow> gc_is_syncing gc'" "gc_is_syncing gc \<Longrightarrow> gc_is_syncing gc'" for t'
    using l t(3) by (auto simp: loop_top_def begin_sync_def split: if_splits)
  have "Waiting t' \<in> set (ths[i := th]) \<Longrightarrow> gc_is_syncing gc'" for t'
    using w s(2,3) set_update_subset_insert [of ths i th] by blast
  moreover have "count in_commit (ths[i := th]) \<le> count in_commit ths"
    using count_update [OF i, of in_commit th] t(1) by (cases "in_commit th") simp_all
  moreover have "count leading (ths[i := th]) = count leading ths + of_bool (leading th)"
    using count_update [OF i, of leading th] t(2) by simp
  ultimately show ?thesis
    using inv gc' s set_update_ball [OF ok th] by (auto simp: cs_inv_def)
qed

text \<open>The end of an fsync, good or bad: the leader returns, everybody is notified.\<close>

lemma lead_end_inv:
  assumes inv: "cs_inv n \<lparr>cs_gc = gc, cs_threads = ths, cs_on_disk = d\<rparr>" and i: "i < length ths" "ths ! i = Leading t c"
    and d: "d \<le> d'" "d' \<le> gc_pending_writes gc" "ok \<Longrightarrow> c \<le> d'" and r: "\<not> isl r \<longleftrightarrow> ok"
  shows "cs_inv n \<lparr>cs_gc = end_sync c ok gc, cs_threads = (map notify ths)[i := Returned t r], cs_on_disk = d'\<rparr>"
proof -
  let ?gc = "end_sync c ok gc" and ?ths = "(map notify ths)[i := Returned t r]"
  have ok: "\<forall>th \<in> set ths. thread_ok (gc_pending_writes gc) (gc_max_durable_generation gc) th"
    and dur: "gc_max_durable_generation gc \<le> d"
    using inv by (simp_all add: cs_inv_def)
  have tc: "t \<le> c" "c \<le> gc_pending_writes gc" using ok i nth_mem [of i ths] by force+
  have gc: "gc_pending_writes ?gc = gc_pending_writes gc" "gc_max_durable_generation gc \<le> gc_max_durable_generation ?gc"
    "gc_max_durable_generation ?gc \<le> d'" "ok \<Longrightarrow> c \<le> gc_max_durable_generation ?gc" "\<not> gc_is_syncing ?gc"
    "gc_n_fsync_calls ?gc = Suc (gc_n_fsync_calls gc)"
    using d dur by (auto simp: end_sync_def)
  have "thread_ok (gc_pending_writes ?gc) (gc_max_durable_generation ?gc) (Returned t r)"
    using tc gc(1,4) r by (cases r) auto
  moreover have "\<forall>th \<in> set (map notify ths). thread_ok (gc_pending_writes ?gc) (gc_max_durable_generation ?gc) th"
    using ok gc(1,2) thread_ok_mono by fastforce
  ultimately have 1: "\<forall>th \<in> set ?ths. thread_ok (gc_pending_writes ?gc) (gc_max_durable_generation ?gc) th"
    by (intro set_update_ball)
  have "leading (map notify ths ! i)" "in_commit (map notify ths ! i)" using i by (simp_all add: in_commit_def)
  then have c: "count leading ?ths + 1 = count leading ths" "count in_commit ?ths + 1 = count in_commit ths"
    using count_update [of i "map notify ths" leading "Returned t r"] count_update [of i "map notify ths" in_commit "Returned t r"] i(1)
    by (simp_all add: in_commit_def)
  have "Waiting t' \<notin> set ?ths" for t' using set_update_subset_insert [of "map notify ths" i "Returned t r"] by auto
  moreover have "count leading ?ths = 0" using c(1) inv by (cases "gc_is_syncing gc") (simp_all add: cs_inv_def)
  ultimately show ?thesis
    using inv 1 c(2) gc d by (simp add: cs_inv_def)
qed

lemma synced_returns:
  assumes "t \<le> c"
  shows "loop_top t (end_sync c True gc) = (Returned t (Inr ()), end_sync c True gc)"
  using assms by (simp add: loop_top_def end_sync_def le_max_iff_disj)

lemma in_commit_simps [simp]: "in_commit (Ready t)" "in_commit (Waiting t)" "in_commit (Notified t)" "in_commit (Leading t c)"
  "\<not> in_commit Idle" "\<not> in_commit (Returned t r)"
  by (simp_all add: in_commit_def)

lemma runnable_cases: "runnable th = Some t \<longleftrightarrow> th = Ready t \<or> th = Notified t"
  by (cases th) auto

lemma not_in_commit: "may_append th \<Longrightarrow> \<not> in_commit th \<and> \<not> leading th"
  by (cases th) simp_all

lemma inv_thread:
  "cs_inv n \<lparr>cs_gc = gc, cs_threads = ths, cs_on_disk = d\<rparr> \<Longrightarrow> i < length ths \<Longrightarrow>
     thread_ok (gc_pending_writes gc) (gc_max_durable_generation gc) (ths ! i)"
  by (simp add: cs_inv_def)

lemma cstep_inv:
  assumes "cstep ev s s'" and "cs_inv n s"
  shows "cs_inv n s'"
  using assms
proof (induction rule: cstep.induct)
  case (Recorded i ths gc t gc' d)
  note nxt = record_pending_next [OF Recorded.hyps(3,4)] and inv = Recorded.prems
  have "thread_ok (gc_pending_writes gc') (gc_max_durable_generation gc') x" if "x \<in> set ths" for x
    using inv that nxt(2,4) thread_ok_mono by (fastforce simp: cs_inv_def)
  then have "\<forall>x \<in> set (ths[i := Ready t]). thread_ok (gc_pending_writes gc') (gc_max_durable_generation gc') x"
    using nxt(3) by (intro set_update_ball) auto
  moreover have "count leading (ths[i := Ready t]) = count leading ths" "count in_commit (ths[i := Ready t]) = Suc (count in_commit ths)"
    using count_update [OF Recorded.hyps(1), of leading "Ready t"] count_update [OF Recorded.hyps(1), of in_commit "Ready t"]
      not_in_commit [OF Recorded.hyps(2)] by simp_all
  moreover have "Waiting t' \<in> set (ths[i := Ready t]) \<Longrightarrow> gc_is_syncing gc'" for t'
    using inv nxt(5) set_update_subset_insert [of ths i "Ready t"] by (fastforce simp: cs_inv_def)
  ultimately show ?case using inv nxt by (auto simp: cs_inv_def)
next
  case (Forgotten gc t gc' ths d)
  note nxt = record_pending_next [OF Forgotten.hyps] and inv = Forgotten.prems
  have "thread_ok (gc_pending_writes gc') (gc_max_durable_generation gc') x" if "x \<in> set ths" for x
    using inv that nxt(2,4) thread_ok_mono by (fastforce simp: cs_inv_def)
  then show ?case using inv nxt by (auto simp: cs_inv_def)
next
  case (Rotated gc ths d)
  have "thread_ok (gc_pending_writes gc) (gc_pending_writes gc) x" if "x \<in> set ths" for x
    using Rotated that thread_ok_mono by (fastforce simp: cs_inv_def)
  then show ?case using Rotated by (auto simp: cs_inv_def mark_all_durable_def)
next
  case (Entered i ths t gc th gc' d)
  then have "t \<le> gc_pending_writes gc" using inv_thread [OF Entered.prems, of i] by (auto simp: runnable_cases)
  then show ?case using Entered by (intro loop_top_inv) (auto simp: runnable_cases)
next
  case (Spurious i ths t gc th gc' d)
  then have "t \<le> gc_pending_writes gc" using inv_thread [OF Spurious.prems, of i] by simp
  then show ?case using Spurious by (intro loop_top_inv) auto
next
  case (Synced i ths t c d d' gc th gc')
  have "t \<le> c" using inv_thread [OF Synced.prems Synced.hyps(1)] Synced.hyps(2) by simp
  then show ?case using Synced lead_end_inv [OF Synced.prems, of i t c d' True "Inr ()"] by (simp add: synced_returns)
next
  case (SyncFailed i ths t c gc d e)
  then show ?case using lead_end_inv [OF SyncFailed.prems, of i t c d False "Inl e"] by (simp add: cs_inv_def)
qed

lemma count_replicate: "\<not> P x \<Longrightarrow> count P (replicate n x) = 0"
  by (simp add: count_def)

lemma reachable_inv: "cs_reachable n s \<Longrightarrow> cs_inv n s"
proof (induction rule: cs_reachable.induct)
  case init
  show ?case by (auto simp: cs_inv_def cs_init_def gc_new_def count_replicate)
next
  case (step s ev s')
  then show ?case by (blast intro: cstep_inv)
qed


section \<open>Progress\<close>

text \<open>How far the calls under way are from returning: every fsync lets one return and wakes the others.\<close>

definition awake :: "thread \<Rightarrow> bool" where
  "awake th \<longleftrightarrow> runnable th \<noteq> None"

definition remaining :: "commit_sys \<Rightarrow> nat" where
  "remaining s = count in_commit (cs_threads s) * (length (cs_threads s) + 1) + count awake (cs_threads s)"

lemma count_le: "count P xs \<le> length xs"
  by (simp add: count_def)

lemma loop_top_asleep: "loop_top t gc = (th, gc') \<Longrightarrow> \<not> awake th"
  by (auto simp: loop_top_def awake_def begin_sync_def split: if_splits)

lemma lead_end_remaining:
  assumes "i < length ths" and "ths ! i = Leading t c"
  shows "remaining \<lparr>cs_gc = gc', cs_threads = (map notify ths)[i := Returned t r], cs_on_disk = d'\<rparr>
    < remaining \<lparr>cs_gc = gc, cs_threads = ths, cs_on_disk = d\<rparr>"
proof -
  have "in_commit (map notify ths ! i)" using assms by simp
  then have n: "count in_commit ths = Suc (count in_commit ((map notify ths)[i := Returned t r]))"
    using count_update [of i "map notify ths" in_commit "Returned t r"] assms(1) by simp
  have "count awake ((map notify ths)[i := Returned t r]) \<le> length ths"
    using count_le [of awake "(map notify ths)[i := Returned t r]"] by simp
  then show ?thesis by (simp add: remaining_def n)
qed

text \<open>
  A step of a call costs one. A spurious wakeup gains nothing and costs nothing: whoever sleeps finds the fsync
  still in flight, or its write durable. A new write adds a call, a rotation wakes everybody.
\<close>

fun in_call :: "event \<Rightarrow> bool" where
  "in_call Entered = True"
| "in_call Synced = True"
| "in_call SyncFailed = True"
| "in_call _ = False"

definition added :: "nat \<Rightarrow> event \<Rightarrow> nat" where
  "added n ev = (n + 2) * of_bool (ev = Recorded) + n * of_bool (ev = Rotated)"

lemma passed_in_commit:
  assumes "i < length ths" and "in_commit (ths ! i)"
  shows "count in_commit (ths[i := th]) * (length ths + 1) \<le> count in_commit ths * (length ths + 1)"
proof -
  have "count in_commit (ths[i := th]) \<le> count in_commit ths"
    using count_update [OF assms(1), of in_commit th] assms(2) by (cases "in_commit th") simp_all
  then show ?thesis by (rule mult_le_mono1)
qed

lemma cstep_remaining:
  assumes "cstep ev s s'" and "cs_inv n s"
  shows "remaining s' + of_bool (in_call ev) \<le> remaining s + added n ev"
  using assms
proof (induction rule: cstep.induct)
  case (Recorded i ths gc t gc' d)
  have "length ths = n" using Recorded.prems by (simp add: cs_inv_def)
  moreover have "count in_commit (ths[i := Ready t]) = Suc (count in_commit ths)"
    using count_update [OF Recorded.hyps(1), of in_commit "Ready t"] not_in_commit [OF Recorded.hyps(2)] by simp
  moreover have "count awake (ths[i := Ready t]) \<le> Suc (count awake ths)"
    using count_update [OF Recorded.hyps(1), of awake "Ready t"] by (simp add: awake_def split: if_splits)
  ultimately show ?case by (simp add: remaining_def added_def)
next
  case (Forgotten gc t gc' ths d)
  show ?case by (simp add: remaining_def)
next
  case (Rotated gc ths d)
  have "count awake (map notify ths) \<le> n"
    using count_le [of awake "map notify ths"] Rotated by (simp add: cs_inv_def)
  then show ?case by (simp add: remaining_def added_def)
next
  case (Entered i ths t gc th gc' d)
  have i: "in_commit (ths ! i)" "awake (ths ! i)" using Entered.hyps(2) by (auto simp: runnable_cases awake_def)
  have "count awake ths = Suc (count awake (ths[i := th]))"
    using count_update [OF Entered.hyps(1), of awake th] i(2) loop_top_asleep [OF Entered.hyps(3)] by simp
  then show ?case using passed_in_commit [OF Entered.hyps(1) i(1), of th] unfolding remaining_def by simp
next
  case (Spurious i ths t gc th gc' d)
  have i: "in_commit (ths ! i)" "\<not> awake (ths ! i)" using Spurious.hyps(2) by (simp_all add: awake_def)
  have "count awake (ths[i := th]) = count awake ths"
    using count_update [OF Spurious.hyps(1), of awake th] i(2) loop_top_asleep [OF Spurious.hyps(3)] by simp
  then show ?case using passed_in_commit [OF Spurious.hyps(1) i(1), of th] unfolding remaining_def by simp
next
  case (Synced i ths t c d d' gc th gc')
  have "t \<le> c" using inv_thread [OF Synced.prems Synced.hyps(1)] Synced.hyps(2) by simp
  then have "th = Returned t (Inr ())" using Synced.hyps(6) by (simp add: synced_returns)
  then show ?case using lead_end_remaining [OF Synced.hyps(1,2)] by (simp add: Suc_le_eq trans_less_add1)
next
  case (SyncFailed i ths t c gc d e)
  show ?case using lead_end_remaining [OF SyncFailed.hyps] by (simp add: Suc_le_eq trans_less_add1)
qed

text \<open>As long as a call is under way, some call can take a step.\<close>

lemma commit_not_stuck:
  assumes inv: "cs_inv n s" and th: "th \<in> set (cs_threads s)" "in_commit th"
  shows "\<exists>s'. commit_step s s'"
proof -
  obtain gc ths d where s: "s = \<lparr>cs_gc = gc, cs_threads = ths, cs_on_disk = d\<rparr>" by (cases s)
  have enter: "\<exists>s'. commit_step s s'" if x: "x \<in> set ths" "runnable x = Some t" for x t
  proof -
    obtain i where i: "i < length ths" "ths ! i = x" using x(1) by (auto simp: in_set_conv_nth)
    obtain th' gc' where l: "loop_top t gc = (th', gc')" by fastforce
    show ?thesis using cstep.Entered [OF i(1) _ l, of d] i x(2) s by (auto simp: commit_step_def)
  qed
  have lead: "\<exists>s'. commit_step s s'" if "0 < count leading ths"
  proof -
    obtain x where x: "x \<in> set ths" "leading x" using count_exists [OF \<open>0 < count leading ths\<close>] by blast
    obtain t c where "x = Leading t c" using x(2) by (cases x) auto
    then obtain i where i: "i < length ths" "ths ! i = Leading t c" using x(1) by (auto simp: in_set_conv_nth)
    show ?thesis using cstep.SyncFailed [OF i, where gc = gc and d = d] s by (auto simp: commit_step_def)
  qed
  show ?thesis
  proof (cases th)
    case (Waiting t)
    then have "gc_is_syncing gc" using inv th(1) s by (auto simp: cs_inv_def)
    then show ?thesis using lead inv s by (simp add: cs_inv_def)
  next
    case (Leading t c)
    then show ?thesis using lead th(1) s by (metis commit_sys.select_convs(2) count_pos leading.simps(1))
  qed (use enter th s in auto)
qed

text \<open>Runs: the events of any schedule, in their order.\<close>

inductive crun :: "event list \<Rightarrow> commit_sys \<Rightarrow> commit_sys \<Rightarrow> bool" where
  run_nil: "crun [] s s"
| run_snoc: "crun evs s s' \<Longrightarrow> cstep ev s' s'' \<Longrightarrow> crun (evs @ [ev]) s s''"

lemma crun_remaining:
  assumes "crun evs s s'" and "cs_reachable n s"
  shows "cs_reachable n s' \<and> remaining s' + length (filter in_call evs) \<le> remaining s + sum_list (map (added n) evs)"
  using assms
proof (induction rule: crun.induct)
  case (run_snoc evs s s' ev s'')
  then have "cs_reachable n s'" and 1: "remaining s' + length (filter in_call evs) \<le> remaining s + sum_list (map (added n) evs)"
    by simp_all
  then have "cs_reachable n s''" and "remaining s'' + of_bool (in_call ev) \<le> remaining s' + added n ev"
    using run_snoc.hyps(2) cstep_remaining [OF run_snoc.hyps(2) reachable_inv] by (blast intro: cs_reachable.step)+
  then show ?case using 1 by (cases "in_call ev") simp_all
qed simp

lemma added_sum: "sum_list (map (added n) evs) = (n + 2) * count_list evs Recorded + n * count_list evs Rotated"
  by (induction evs) (simp_all add: added_def algebra_simps)

lemma remaining_bound: "cs_inv n s \<Longrightarrow> remaining s \<le> n * (n + 2)"
proof -
  assume "cs_inv n s"
  then have "count in_commit (cs_threads s) \<le> n" "count awake (cs_threads s) \<le> n" "length (cs_threads s) = n"
    using count_le [of in_commit "cs_threads s"] count_le [of awake "cs_threads s"] by (simp_all add: cs_inv_def)
  then have "remaining s \<le> n * (n + 1) + n" unfolding remaining_def by (simp add: add_mono mult_le_mono1)
  then show ?thesis by simp
qed


section \<open>A run of two threads\<close>

text \<open>
  The second thread appends after the first has started its fsync: that fsync does not cover its write, so it
  leads one of its own when it wakes up.
\<close>

definition two_threads :: "u64 \<Rightarrow> u64 \<Rightarrow> bool \<Rightarrow> nat \<Rightarrow> thread \<Rightarrow> thread \<Rightarrow> commit_sys" where
  "two_threads p d syncing calls th th' =
     \<lparr>cs_gc = \<lparr>gc_pending_writes = p, gc_max_durable_generation = d, gc_is_syncing = syncing, gc_n_fsync_calls = calls\<rparr>,
      cs_threads = [th, th'], cs_on_disk = d\<rparr>"

lemmas run_simps = two_threads_def record_pending_def loop_top_def begin_sync_def end_sync_def Let_def

lemma recorded_step:
  assumes "i < length (cs_threads s)" and "may_append (cs_threads s ! i)" and "unat (gc_pending_writes (cs_gc s)) < 2 ^ 64 - 1"
    and "s' = (case record_pending (cs_gc s) of (t, gc) \<Rightarrow> s\<lparr>cs_gc := gc, cs_threads := (cs_threads s)[i := Ready t]\<rparr>)"
  shows "cstep Recorded s s'"
  using assms by (cases s) (auto split: prod.splits intro: cstep.Recorded)

lemma entered_step:
  assumes "i < length (cs_threads s)" and "runnable (cs_threads s ! i) = Some t"
    and "s' = (case loop_top t (cs_gc s) of (th, gc) \<Rightarrow> s\<lparr>cs_gc := gc, cs_threads := (cs_threads s)[i := th]\<rparr>)"
  shows "cstep Entered s s'"
  using assms by (cases s) (auto split: prod.splits intro: cstep.Entered)

lemma synced_step:
  assumes "i < length (cs_threads s)" and "cs_threads s ! i = Leading t c"
    and "cs_on_disk s \<le> d" and "c \<le> d" and "d \<le> gc_pending_writes (cs_gc s)"
    and "s' = (case loop_top t (end_sync c True (cs_gc s)) of (th, gc) \<Rightarrow>
      \<lparr>cs_gc = gc, cs_threads = (map notify (cs_threads s))[i := th], cs_on_disk = d\<rparr>)"
  shows "cstep Synced s s'"
  using assms by (cases s) (auto split: prod.splits intro: cstep.Synced)

lemma two_threads_waiting: "cs_reachable 2 (two_threads 2 0 True 0 (Leading 1 1) (Waiting 2))"
proof -
  have "cs_reachable 2 (two_threads 0 0 False 0 Idle Idle)"
    using cs_reachable.init [of 2] by (simp add: cs_init_def gc_new_def two_threads_def numeral_2_eq_2)
  moreover have "cstep Recorded (two_threads 0 0 False 0 Idle Idle) (two_threads 1 0 False 0 (Ready 1) Idle)"
    by (rule recorded_step [of 0]) (simp_all add: run_simps)
  moreover have "cstep Entered (two_threads 1 0 False 0 (Ready 1) Idle) (two_threads 1 0 True 0 (Leading 1 1) Idle)"
    by (rule entered_step [of 0 _ 1]) (simp_all add: run_simps)
  moreover have "cstep Recorded (two_threads 1 0 True 0 (Leading 1 1) Idle) (two_threads 2 0 True 0 (Leading 1 1) (Ready 2))"
    by (rule recorded_step [of 1]) (simp_all add: run_simps)
  moreover have "cstep Entered (two_threads 2 0 True 0 (Leading 1 1) (Ready 2)) (two_threads 2 0 True 0 (Leading 1 1) (Waiting 2))"
    by (rule entered_step [of 1 _ 2]) (simp_all add: run_simps)
  ultimately show ?thesis by (blast intro: cs_reachable.step)
qed

lemma two_threads_steps:
  "cstep Synced (two_threads 2 0 True 0 (Leading 1 1) (Waiting 2)) (two_threads 2 1 False 1 (Returned 1 (Inr ())) (Notified 2))"
  "cstep Entered (two_threads 2 1 False 1 (Returned 1 (Inr ())) (Notified 2)) (two_threads 2 1 True 1 (Returned 1 (Inr ())) (Leading 2 2))"
  "cstep Synced (two_threads 2 1 True 1 (Returned 1 (Inr ())) (Leading 2 2)) (two_threads 2 2 False 2 (Returned 1 (Inr ())) (Returned 2 (Inr ())))"
proof -
  show "cstep Synced (two_threads 2 0 True 0 (Leading 1 1) (Waiting 2)) (two_threads 2 1 False 1 (Returned 1 (Inr ())) (Notified 2))"
    by (rule synced_step [of 0 _ 1 1 1]) (simp_all add: run_simps)
  show "cstep Entered (two_threads 2 1 False 1 (Returned 1 (Inr ())) (Notified 2)) (two_threads 2 1 True 1 (Returned 1 (Inr ())) (Leading 2 2))"
    by (rule entered_step [of 1 _ 2]) (simp_all add: run_simps word_le_nat_alt)
  show "cstep Synced (two_threads 2 1 True 1 (Returned 1 (Inr ())) (Leading 2 2)) (two_threads 2 2 False 2 (Returned 1 (Inr ())) (Returned 2 (Inr ())))"
    by (rule synced_step [of 1 _ 2 2 2]) (simp_all add: run_simps)
qed

text \<open>The second thread wakes up once for no reason before the first fsync ends.\<close>

lemma two_threads_spurious:
  "cstep Spurious (two_threads 2 0 True 0 (Leading 1 1) (Waiting 2)) (two_threads 2 0 True 0 (Leading 1 1) (Waiting 2))"
  using cstep.Spurious [of 1 "[Leading 1 1, Waiting 2]" 2 _ "Waiting 2"] by (simp add: run_simps)

lemma two_threads_run:
  "crun [Spurious, Synced, Entered, Synced] (two_threads 2 0 True 0 (Leading 1 1) (Waiting 2))
     (two_threads 2 2 False 2 (Returned 1 (Inr ())) (Returned 2 (Inr ())))"
  using crun.run_snoc [OF crun.run_snoc [OF crun.run_snoc [OF crun.run_snoc [OF crun.run_nil two_threads_spurious]
    two_threads_steps(1)] two_threads_steps(2)] two_threads_steps(3)] by simp

lemma two_threads_done: "cs_reachable 2 (two_threads 2 2 False 2 (Returned 1 (Inr ())) (Returned 2 (Inr ())))"
  using crun_remaining [OF two_threads_run two_threads_waiting] by simp

section \<open>Properties\<close>

text \<open>
  C18: However the threads are interleaved, a \<open>commit\<close> that returned success means that its write has
  reached the disk.
\<close>

theorem committed_is_on_disk:
  assumes "cs_reachable n s" and "Returned t (Inr ()) \<in> set (cs_threads s)"
  shows "t \<le> gc_max_durable_generation (cs_gc s) \<and> t \<le> cs_on_disk s"
proof -
  have i: "cs_inv n s" by (rule reachable_inv [OF assms(1)])
  then have "thread_ok (gc_pending_writes (cs_gc s)) (gc_max_durable_generation (cs_gc s)) (Returned t (Inr ()))"
    using assms(2) unfolding cs_inv_def by blast
  then show ?thesis using i by (auto simp: cs_inv_def)
qed

lemma committed_is_on_disk_witness:
  "2 \<le> gc_max_durable_generation (cs_gc (two_threads 2 2 False 2 (Returned 1 (Inr ())) (Returned 2 (Inr ())))) \<and>
   2 \<le> cs_on_disk (two_threads 2 2 False 2 (Returned 1 (Inr ())) (Returned 2 (Inr ())))"
  by (rule committed_is_on_disk [OF two_threads_done]) (simp add: two_threads_def)

text \<open>
  C19: No wakeup is lost: while a thread sleeps in \<open>commit\<close>, exactly one thread is inside an fsync, and it will
  notify it. There are never two fsyncs at once.
\<close>

theorem no_lost_wakeup:
  assumes "cs_reachable n s"
  shows "card {i. i < n \<and> leading (cs_threads s ! i)} \<le> 1 \<and>
    (Waiting t \<in> set (cs_threads s) \<longrightarrow> (\<exists>t' c. Leading t' c \<in> set (cs_threads s) \<and> gc_is_syncing (cs_gc s)))"
proof -
  have i: "cs_inv n s" by (rule reachable_inv [OF assms])
  then have "count leading (cs_threads s) = of_bool (gc_is_syncing (cs_gc s))" "length (cs_threads s) = n"
    "Waiting t \<in> set (cs_threads s) \<Longrightarrow> gc_is_syncing (cs_gc s)"
    by (auto simp: cs_inv_def)
  moreover have "\<exists>t' c. Leading t' c \<in> set (cs_threads s)" if "0 < count leading (cs_threads s)"
    using count_exists [OF that] by (metis leading.elims(2))
  ultimately show ?thesis
    by (auto simp: count_def length_filter_conv_card)
qed

lemma no_lost_wakeup_witness:
  "\<exists>t' c. Leading t' c \<in> set (cs_threads (two_threads 2 0 True 0 (Leading 1 1) (Waiting 2)))"
  using no_lost_wakeup [OF two_threads_waiting, of 2] by (simp add: two_threads_def)

text \<open>
  C20: Every \<open>commit\<close> returns, under any schedule of \<open>n\<close> threads, whatever the fsyncs do. Between two moments at
  which \<open>r\<close> writes are recorded and the active file is rotated \<open>q\<close> times, the calls under way make at most
  \<open>n * (n + 2) + (n + 2) * r + n * q\<close> steps that are not spurious wakeups; spurious wakeups, however many, do not
  add to that; and as long as a call is under way, one can make such a step. In particular a disk on which every
  fsync fails is not retried for ever: each failure is returned to the call that led it.
\<close>

theorem commit_always_returns:
  assumes "cs_reachable n s" and "crun evs s s'"
  shows "length (filter in_call evs) \<le> n * (n + 2) + (n + 2) * count_list evs Recorded + n * count_list evs Rotated \<and>
    ((\<forall>s''. \<not> commit_step s' s'') \<longrightarrow> (\<forall>th \<in> set (cs_threads s'). may_append th))"
proof -
  have r: "cs_reachable n s'" "remaining s' + length (filter in_call evs) \<le> remaining s + sum_list (map (added n) evs)"
    using crun_remaining [OF assms(2,1)] by simp_all
  moreover have "remaining s \<le> n * (n + 2)" by (rule remaining_bound [OF reachable_inv [OF assms(1)]])
  moreover have "may_append th" if "th \<in> set (cs_threads s')" "\<forall>s''. \<not> commit_step s' s''" for th
    using commit_not_stuck [OF reachable_inv [OF r(1)] that(1)] that(2) unfolding in_commit_def by blast
  ultimately show ?thesis by (auto simp: added_sum)
qed

lemma commit_always_returns_witness: "length (filter in_call [Spurious, Synced, Entered, Synced]) \<le> 2 * (2 + 2)"
  using conjunct1 [OF commit_always_returns [OF two_threads_waiting two_threads_run]] by simp

text \<open>Group commit never costs more fsyncs than writes; each call under way still has its write unpaid.\<close>

theorem fsyncs_bounded_by_writes:
  assumes "cs_reachable n s"
  shows "gc_n_fsync_calls (cs_gc s) + count in_commit (cs_threads s) \<le> unat (gc_pending_writes (cs_gc s))"
  using reachable_inv [OF assms] by (simp add: cs_inv_def)

lemma fsyncs_bounded_by_writes_witness:
  "gc_n_fsync_calls (cs_gc (two_threads 2 2 False 2 (Returned 1 (Inr ())) (Returned 2 (Inr ())))) \<le> unat (2 :: u64)"
  using fsyncs_bounded_by_writes [OF two_threads_done] by (simp add: two_threads_def)

text \<open>
  A thread that finds an fsync in flight cannot rely on it: it may have started before the thread's write, and
  then the thread runs an fsync of its own after it has waited.
\<close>

theorem waiter_may_lead:
  "\<exists>s s'. cs_reachable 2 s \<and> cs_threads s = [Leading 1 1, Waiting 2] \<and> (commit_step ^^ 2) s s' \<and>
     cs_threads s' = [Returned 1 (Inr ()), Leading 2 2]"
proof (intro exI conjI)
  show "cs_reachable 2 (two_threads 2 0 True 0 (Leading 1 1) (Waiting 2))" by (rule two_threads_waiting)
  show "(commit_step ^^ 2) (two_threads 2 0 True 0 (Leading 1 1) (Waiting 2)) (two_threads 2 1 True 1 (Returned 1 (Inr ())) (Leading 2 2))"
    using commit_stepI(2) [OF two_threads_steps(1)] commit_stepI(1) [OF two_threads_steps(2)]
    by (auto simp: numeral_2_eq_2 relcompp_apply)
qed (simp_all add: two_threads_def)


section \<open>One thread\<close>

text \<open>
  The sequential model of \<open>commit\<close> that the engine uses is a run of this relation: a call of a thread that is
  alone returns what \<open>gc_commit\<close> returns and leaves the coordinator as it does.
\<close>

theorem gc_commit_refines_steps:
  assumes "gc_ok gc" and "t \<le> gc_pending_writes gc" and "d \<le> gc_pending_writes gc"
    and "gc_commit t do_fsync (gc, s) = Some (r, gc', s')"
  shows "\<exists>d'. commit_step\<^sup>*\<^sup>* \<lparr>cs_gc = gc, cs_threads = [Ready t], cs_on_disk = d\<rparr>
    \<lparr>cs_gc = gc', cs_threads = [Returned t r], cs_on_disk = d'\<rparr>"
proof -
  let ?start = "\<lparr>cs_gc = gc, cs_threads = [Ready t], cs_on_disk = d\<rparr>"
  let ?p = "gc_pending_writes gc" and ?gc = "snd (begin_sync gc)"
  note ret = gc_commit_returns [OF assms(1,2), of do_fsync s]
  show ?thesis
  proof (cases "t \<le> gc_max_durable_generation gc")
    case True
    then have "commit_step ?start \<lparr>cs_gc = gc', cs_threads = [Returned t r], cs_on_disk = d\<rparr>"
      using assms(4) ret by (intro commit_stepI(1) entered_step [of 0 _ t]) (auto simp: loop_top_def)
    then show ?thesis by blast
  next
    case False
    then have e: "commit_step ?start \<lparr>cs_gc = ?gc, cs_threads = [Leading t ?p], cs_on_disk = d\<rparr>"
      using assms(1) by (intro commit_stepI(1) entered_step [of 0 _ t]) (auto simp: loop_top_def begin_sync_def gc_ok_def)
    have r: "r = fst (do_fsync s)" "gc' = end_sync ?p (\<not> isl r) ?gc" using assms(4) ret False by auto
    have "\<exists>d'. commit_step \<lparr>cs_gc = ?gc, cs_threads = [Leading t ?p], cs_on_disk = d\<rparr>
        \<lparr>cs_gc = gc', cs_threads = [Returned t r], cs_on_disk = d'\<rparr>"
    proof (cases r)
      case (Inl x)
      then show ?thesis using cstep.SyncFailed [of 0 "[Leading t ?p]" t ?p ?gc d x] r(2) by (auto intro: commit_stepI(3))
    next
      case (Inr u)
      then have "commit_step \<lparr>cs_gc = ?gc, cs_threads = [Leading t ?p], cs_on_disk = d\<rparr>
          \<lparr>cs_gc = gc', cs_threads = [Returned t r], cs_on_disk = ?p\<rparr>"
        using assms(2,3) r(2) by (intro commit_stepI(2) synced_step [of 0 _ t ?p ?p]) (simp_all add: synced_returns begin_sync_def)
      then show ?thesis by blast
    qed
    then show ?thesis using e by (blast intro: converse_rtranclp_into_rtranclp)
  qed
qed

lemma gc_commit_refines_steps_witness:
  "\<exists>d'. commit_step\<^sup>*\<^sup>* \<lparr>cs_gc = snd (record_pending gc_new), cs_threads = [Ready 1], cs_on_disk = 0\<rparr>
    \<lparr>cs_gc = end_sync 1 False (snd (begin_sync (snd (record_pending gc_new)))), cs_threads = [Returned 1 (Inl (OsError 5))], cs_on_disk = d'\<rparr>"
proof -
  have ok: "gc_ok (snd (record_pending gc_new))" by (rule gc_ok_record_pending [OF gc_ok_new]) (simp add: gc_new_def)
  have b: "1 \<le> gc_pending_writes (snd (record_pending gc_new))" "0 \<le> gc_pending_writes (snd (record_pending gc_new))"
    by (simp_all add: record_pending_def gc_new_def Let_def)
  show ?thesis
    using gc_commit_refines_steps [OF ok b, of "\<lambda>s. (Inl (OsError 5), s)" "()"] gc_commit_returns [OF ok b(1), of "\<lambda>s. (Inl (OsError 5), s)" "()"]
    by (simp add: record_pending_def gc_new_def Let_def)
qed

end
