(* ===== verification/DataFile.thy ===== *)
theory DataFile
  imports Format "HOL-Library.Char_ord"
begin

text \<open>
  \<open>src/datafile.rs\<close>: the writable active file, the read-only set of data files with its cache of
  handles, and the names of files. The directory is the one of the world, so a path is a name.
\<close>

section \<open>File names\<close>

definition digit_char :: "nat \<Rightarrow> char" where
  "digit_char d = char_of (48 + d)"

definition is_ascii_digit :: "char \<Rightarrow> bool" where
  "is_ascii_digit c \<longleftrightarrow> 48 \<le> (of_char c :: nat) \<and> (of_char c :: nat) \<le> 57"

definition digit_value :: "char \<Rightarrow> nat" where
  "digit_value c = of_char c - 48"

fun decimal :: "nat \<Rightarrow> string" where
  "decimal n = (if n < 10 then [digit_char n] else decimal (n div 10) @ [digit_char (n mod 10)])"

declare decimal.simps [simp del]

text \<open>\<open>format!("{id:020}")\<close>\<close>

definition zero_padded :: "nat \<Rightarrow> nat \<Rightarrow> string" where
  "zero_padded width n = replicate (width - length (decimal n)) (digit_char 0) @ decimal n"

definition data_path :: "u32 \<Rightarrow> string" where
  "data_path file_id = zero_padded 20 (unat file_id) @ ''.bitcask.data''"

definition hint_path :: "u32 \<Rightarrow> string" where
  "hint_path file_id = zero_padded 20 (unat file_id) @ ''.bitcask.hint''"

definition strip_suffix :: "string \<Rightarrow> string \<Rightarrow> string option" where
  "strip_suffix suf s =
     (if length suf \<le> length s \<and> drop (length s - length suf) s = suf
      then Some (take (length s - length suf) s) else None)"

text \<open>\<open>str::parse::<u32>\<close> on digits: \<open>None\<close> as soon as the value does not fit.\<close>

fun parse_u32_loop :: "nat \<Rightarrow> string \<Rightarrow> u32 option" where
  "parse_u32_loop acc [] = Some (of_nat acc)"
| "parse_u32_loop acc (c # cs) =
     (let acc' = acc * 10 + digit_value c
      in if acc' < 2 ^ 32 then parse_u32_loop acc' cs else None)"

definition parse_data_file_id :: "string \<Rightarrow> u32 option" where
  "parse_data_file_id name =
     (case strip_suffix ''.bitcask.data'' name of
        None \<Rightarrow> None
      | Some stem \<Rightarrow>
          (if length stem \<noteq> 20 \<or> \<not> list_all is_ascii_digit stem then None
           else parse_u32_loop 0 stem))"

section \<open>The active file\<close>

record active_file =
  af_file_id :: u32
  af_writer :: buf_writer
  af_read_handle :: nat
  af_offset :: u64

type_synonym 'a af_act = "(active_file \<times> world, io_error, 'a) act"

definition on_world :: "'a io \<Rightarrow> ('s \<times> world, io_error, 'a) act" where
  "on_world m = zoom snd (\<lambda>w (s, _). (s, w)) m"

definition on_writer :: "(buf_writer \<times> world, io_error, 'a) act \<Rightarrow> 'a af_act" where
  "on_writer m = zoom (\<lambda>(af, w). (af_writer af, w)) (\<lambda>(bw, w) (af, _). (af\<lparr>af_writer := bw\<rparr>, w)) m"

definition af_create :: "u32 \<Rightarrow> active_file io" where
  "af_create file_id =
     bindE (open_append (data_path file_id)) (\<lambda>file.
     bindE (file_len file) (\<lambda>offset.
     bindE (try_clone file) (\<lambda>read_handle.
     retE \<lparr>af_file_id = file_id, af_writer = bw_new file, af_read_handle = read_handle,
           af_offset = offset\<rparr>)))"

definition write_unflushed :: "encoded_entry \<Rightarrow> (u32 \<times> u64 \<times> u64) af_act" where
  "write_unflushed encoded =
     bindE (on_writer (bw_write_all (ee_bytes encoded))) (\<lambda>_ (af, w).
       let total_len = of_nat (length (ee_bytes encoded));
           value_pos = af_offset af + (total_len - of_nat (ee_value_len encoded))
       in (Inr (af_file_id af, value_pos, total_len), (af\<lparr>af_offset := af_offset af + total_len\<rparr>, w)))"

definition af_append :: "encoded_entry \<Rightarrow> (u32 \<times> u64 \<times> u64) af_act" where
  "af_append encoded =
     bindE (write_unflushed encoded) (\<lambda>result.
     bindE (on_writer bw_flush) (\<lambda>_.
     retE result))"

definition append_buffered :: "encoded_entry \<Rightarrow> (u32 \<times> u64 \<times> u64) af_act" where
  "append_buffered encoded = write_unflushed encoded"

definition flush_only :: "unit af_act" where
  "flush_only = on_writer bw_flush"

definition af_sync :: "unit af_act" where
  "af_sync =
     bindE (on_writer bw_flush) (\<lambda>_ (af, w).
       on_world (sync_data (bw_file (af_writer af))) (af, w))"

definition sync_handle :: "nat af_act" where
  "sync_handle =
     bindE (on_writer bw_flush) (\<lambda>_ (af, w).
       on_world (try_clone (bw_file (af_writer af))) (af, w))"

definition af_len :: "active_file \<Rightarrow> u64" where
  "af_len af = af_offset af"

definition af_is_empty :: "active_file \<Rightarrow> bool" where
  "af_is_empty af \<longleftrightarrow> af_offset af = 0"

definition pread_exact :: "nat \<Rightarrow> u64 \<Rightarrow> u32 \<Rightarrow> bytes io" where
  "pread_exact file pos n = read_exact_at file pos (unat n)"

definition af_read_at :: "active_file \<Rightarrow> u64 \<Rightarrow> u32 \<Rightarrow> bytes io" where
  "af_read_at af pos n = pread_exact (af_read_handle af) pos n"

section \<open>The set of data files\<close>

record data_file_set =
  dfs_readers :: "(u32 \<times> nat) list"

definition dfs_new :: data_file_set where
  "dfs_new = \<lparr>dfs_readers = []\<rparr>"

text \<open>The loop of \<open>discover\<close> over the directory's entries; reading an entry can fail.\<close>

fun discover_loop :: "string list \<Rightarrow> u32 list \<Rightarrow> u32 list io" where
  "discover_loop [] ids = retE ids"
| "discover_loop (name # names) ids =
     bindE (sys (retE name)) (\<lambda>name.
       discover_loop names
         (case parse_data_file_id name of Some fid \<Rightarrow> ids @ [fid] | None \<Rightarrow> ids))"

definition read_dir :: "string list io" where
  "read_dir = sys (\<lambda>w. (Inr (map fst (w_dir w)), w))"

definition discover :: "u32 list io" where
  "discover =
     bindE read_dir (\<lambda>names.
     bindE (discover_loop names []) (\<lambda>ids.
     retE (sort ids)))"

definition dfs_read_at :: "u32 \<Rightarrow> u64 \<Rightarrow> u32 \<Rightarrow> (data_file_set \<times> world, io_error, bytes) act" where
  "dfs_read_at file_id pos n = (\<lambda>(fs, w).
     bindE
       (case map_of (dfs_readers fs) file_id of
          Some f \<Rightarrow> retE f
        | None \<Rightarrow>
            bindE (on_world (open_read (data_path file_id))) (\<lambda>f (fs, w).
              (Inr f, (fs\<lparr>dfs_readers := (file_id, f) # dfs_readers fs\<rparr>, w))))
       (\<lambda>file. on_world (pread_exact file pos n))
       (fs, w))"

definition forget :: "u32 \<Rightarrow> data_file_set \<Rightarrow> data_file_set" where
  "forget file_id fs = fs\<lparr>dfs_readers := AList.delete file_id (dfs_readers fs)\<rparr>"

section \<open>Names and ids\<close>

definition num_of :: "string \<Rightarrow> nat" where
  "num_of s = foldl (\<lambda>a c. a * 10 + digit_value c) 0 s"

lemma num_of_snoc [simp]: "num_of (s @ [c]) = num_of s * 10 + digit_value c"
  by (simp add: num_of_def)

lemma num_of_Nil [simp]: "num_of [] = 0"
  by (simp add: num_of_def)

lemma digit_char_digit [simp]:
  assumes "d < 10"
  shows "is_ascii_digit (digit_char d)" and "digit_value (digit_char d) = d"
  using assms by (simp_all add: is_ascii_digit_def digit_char_def digit_value_def)

lemma digit_value_bound: "is_ascii_digit c \<Longrightarrow> digit_value c < 10"
  by (auto simp: is_ascii_digit_def digit_value_def)

lemma digit_char_value: "is_ascii_digit c \<Longrightarrow> digit_char (digit_value c) = c"
  by (simp add: is_ascii_digit_def digit_char_def digit_value_def)

lemma decimal_digits: "list_all is_ascii_digit (decimal n)"
  by (induction n rule: decimal.induct) (subst decimal.simps, simp)

lemma num_of_decimal [simp]: "num_of (decimal n) = n"
proof (induction n rule: decimal.induct)
  case (1 n)
  then show ?case by (subst decimal.simps) (simp add: num_of_def)
qed

lemma length_decimal: "0 < k \<Longrightarrow> n < 10 ^ k \<Longrightarrow> length (decimal n) \<le> k"
proof (induction n arbitrary: k rule: decimal.induct)
  case (1 n)
  show ?case
  proof (cases "n < 10")
    case True
    then show ?thesis using 1(2) by (subst decimal.simps) simp
  next
    case False
    have "k \<noteq> 1" using 1(3) False by auto
    with 1(2) obtain k' where k: "k = Suc k'" "0 < k'" by (cases k) auto
    then have "length (decimal (n div 10)) \<le> k'" using 1(1) [OF False, of k'] 1(3) by auto
    with False k show ?thesis by (subst decimal.simps) simp
  qed
qed

lemma num_of_replicate: "num_of (replicate k (digit_char 0) @ s) = num_of s"
proof -
  have "foldl (\<lambda>a c. a * 10 + digit_value c) 0 (replicate k (digit_char 0)) = 0"
    by (induction k) auto
  then show ?thesis by (simp add: num_of_def)
qed

lemma zero_padded_facts:
  assumes "n < 10 ^ 20"
  shows "length (zero_padded 20 n) = 20" and "list_all is_ascii_digit (zero_padded 20 n)"
    and "num_of (zero_padded 20 n) = n"
  using length_decimal [of 20 n] assms decimal_digits [of n]
  by (simp_all add: zero_padded_def num_of_replicate list_all_length nth_append)

text \<open>Digit strings of one length are determined by their value.\<close>

lemma num_of_inject:
  "length s = length t \<Longrightarrow> list_all is_ascii_digit s \<Longrightarrow> list_all is_ascii_digit t \<Longrightarrow>
     num_of s = num_of t \<Longrightarrow> s = t"
proof (induction s arbitrary: t rule: rev_induct)
  case Nil
  then show ?case by simp
next
  case (snoc c s)
  then obtain t' d where t: "t = t' @ [d]"
    by (metis length_0_conv rev_exhaust snoc_eq_iff_butlast)
  have eq: "num_of s * 10 + digit_value c = num_of t' * 10 + digit_value d"
    using snoc.prems(4) t by simp
  have lt: "digit_value c < 10" "digit_value d < 10"
    using snoc.prems t by (auto intro: digit_value_bound)
  from eq lt have "digit_value c = digit_value d" and num: "num_of s = num_of t'" by presburger+
  moreover have "is_ascii_digit c" "is_ascii_digit d" using snoc.prems t by auto
  ultimately have "c = d" by (metis digit_char_value)
  moreover have "s = t'"
    using snoc.prems t by (intro snoc.IH [OF _ _ _ num]) auto
  ultimately show ?case by (simp add: t)
qed

lemma parse_u32_loop_eq:
  "acc < 2 ^ 32 \<Longrightarrow>
   parse_u32_loop acc s =
     (let n = foldl (\<lambda>a c. a * 10 + digit_value c) acc s in if n < 2 ^ 32 then Some (of_nat n) else None)"
proof (induction s arbitrary: acc)
  case Nil
  then show ?case by simp
next
  case (Cons c s)
  have mono: "acc \<le> foldl (\<lambda>a c. a * 10 + digit_value c) acc s" for acc s
  proof (induction s arbitrary: acc)
    case (Cons c s)
    have "acc \<le> acc * 10 + digit_value c" by simp
    also note Cons.IH [of "acc * 10 + digit_value c"]
    finally show ?case by simp
  qed simp
  show ?case
    using Cons.IH [of "acc * 10 + digit_value c"] mono [of "acc * 10 + digit_value c" s]
    by (auto simp: Let_def)
qed

lemma unat_u32_padded: "unat (fid :: u32) < 10 ^ 20"
proof -
  have "unat fid < 2 ^ 32" using unsigned_less [of fid] by simp
  then show ?thesis by simp
qed

text \<open>
  \<open>discover\<close> recognises exactly the names that \<open>data_path\<close> produces: no file is missed and no
  other name is taken for one.
\<close>

lemma parse_data_file_id_iff: "parse_data_file_id name = Some fid \<longleftrightarrow> name = data_path fid"
proof
  assume "name = data_path fid"
  moreover have "unat fid < 2 ^ 32" using unsigned_less [of fid] by simp
  ultimately show "parse_data_file_id name = Some fid"
    using zero_padded_facts [OF unat_u32_padded [of fid]]
    by (simp add: parse_data_file_id_def strip_suffix_def data_path_def parse_u32_loop_eq
        num_of_def [symmetric])
next
  assume a: "parse_data_file_id name = Some fid"
  then obtain stem where stem: "strip_suffix ''.bitcask.data'' name = Some stem" "length stem = 20"
    "list_all is_ascii_digit stem" "parse_u32_loop 0 stem = Some fid"
    by (auto simp: parse_data_file_id_def split: option.splits if_splits)
  have name: "name = stem @ ''.bitcask.data''"
    using stem(1) by (auto simp: strip_suffix_def split: if_splits) (metis append_take_drop_id)
  have "num_of stem = unat fid"
    using stem(4) by (auto simp: parse_u32_loop_eq num_of_def [symmetric] Let_def unat_of_nat_u32
        split: if_splits)
  then have "stem = zero_padded 20 (unat fid)"
    using zero_padded_facts [OF unat_u32_padded [of fid]] stem by (intro num_of_inject) auto
  then show "name = data_path fid" by (simp add: name data_path_def)
qed

lemma parse_data_path [simp]: "parse_data_file_id (data_path fid) = Some fid"
  by (simp add: parse_data_file_id_iff)

lemma data_path_inject [simp]: "data_path a = data_path b \<longleftrightarrow> a = b"
  by (metis option.inject parse_data_file_id_iff)

lemma hint_path_inject [simp]: "hint_path a = hint_path b \<longleftrightarrow> a = b"
  using data_path_inject [of a b] by (simp add: data_path_def hint_path_def)

lemma data_path_not_hint_path [simp]: "data_path a \<noteq> hint_path b" "hint_path b \<noteq> data_path a"
  using zero_padded_facts(1) [OF unat_u32_padded [of a]] zero_padded_facts(1) [OF unat_u32_padded [of b]]
  by (auto simp: data_path_def hint_path_def dest: append_eq_append_conv [THEN iffD1, rotated])

section \<open>The active file without faults\<close>

text \<open>
  The offset the active file keeps is the length of what was written to it, buffered or not, and
  the read handle is on the same file.
\<close>

definition af_ok :: "active_file \<Rightarrow> world \<Rightarrow> bool" where
  "af_ok af w \<longleftrightarrow> bw_file (af_writer af) < length (w_inodes w) \<and>
     af_read_handle af = bw_file (af_writer af) \<and>
     af_offset af = of_nat (length (bw_contents (af_writer af) w))"

lemma on_world_apply [simp]: "on_world m (s, w) = (case m w of (r, w') \<Rightarrow> (r, (s, w')))"
  by (simp add: on_world_def zoom_def)

lemma on_writer_apply:
  "on_writer m (af, w) = (case m (af_writer af, w) of (r, (bw, w')) \<Rightarrow> (r, (af\<lparr>af_writer := bw\<rparr>, w')))"
  by (simp add: on_writer_def zoom_def split: prod.splits)

lemma af_append_no_fault [io_simps]:
  assumes "w_outs w = []"
  shows "af_append enc (af, w) =
    (Inr (af_file_id af,
          af_offset af + (of_nat (length (ee_bytes enc)) - of_nat (ee_value_len enc)),
          of_nat (length (ee_bytes enc))),
     (af\<lparr>af_writer := (af_writer af)\<lparr>bw_buf := []\<rparr>,
         af_offset := af_offset af + of_nat (length (ee_bytes enc))\<rparr>,
      append_data (bw_file (af_writer af)) (bw_buf (af_writer af) @ ee_bytes enc) w))"
proof -
  obtain spill buf where sb: "bw_buf (af_writer af) @ ee_bytes enc = spill @ buf"
    and bw: "bw_write_all (ee_bytes enc) (af_writer af, w) =
      (Inr (), ((af_writer af)\<lparr>bw_buf := buf\<rparr>, append_data (bw_file (af_writer af)) spill w))"
    using bw_write_all_no_fault [OF assms, of "af_writer af" "ee_bytes enc"] by blast
  show ?thesis
    by (simp add: af_append_def write_unflushed_def bindE_def on_writer_apply bw Let_def
        bw_flush_no_fault assms append_data_append sb)
qed

lemma write_unflushed_no_fault:
  assumes "w_outs w = []"
  shows "\<exists>spill buf. bw_buf (af_writer af) @ ee_bytes enc = spill @ buf \<and>
    write_unflushed enc (af, w) =
    (Inr (af_file_id af,
          af_offset af + (of_nat (length (ee_bytes enc)) - of_nat (ee_value_len enc)),
          of_nat (length (ee_bytes enc))),
     (af\<lparr>af_writer := (af_writer af)\<lparr>bw_buf := buf\<rparr>,
         af_offset := af_offset af + of_nat (length (ee_bytes enc))\<rparr>,
      append_data (bw_file (af_writer af)) spill w))"
proof -
  obtain spill buf where sb: "bw_buf (af_writer af) @ ee_bytes enc = spill @ buf"
    and bw: "bw_write_all (ee_bytes enc) (af_writer af, w) =
      (Inr (), ((af_writer af)\<lparr>bw_buf := buf\<rparr>, append_data (bw_file (af_writer af)) spill w))"
    using bw_write_all_no_fault [OF assms, of "af_writer af" "ee_bytes enc"] by blast
  show ?thesis
    by (intro exI conjI) (rule sb, simp add: write_unflushed_def bindE_def on_writer_apply Let_def bw)
qed

lemma flush_only_no_fault [io_simps]:
  "w_outs w = [] \<Longrightarrow> flush_only (af, w) =
     (Inr (), (af\<lparr>af_writer := (af_writer af)\<lparr>bw_buf := []\<rparr>\<rparr>,
       append_data (bw_file (af_writer af)) (bw_buf (af_writer af)) w))"
  by (simp add: flush_only_def on_writer_apply bw_flush_no_fault)

definition mark_durable :: "nat \<Rightarrow> world \<Rightarrow> world" where
  "mark_durable i w =
     w\<lparr>w_inodes := (w_inodes w)[i := (w_inodes w ! i)\<lparr>i_durable := length (data_of i w)\<rparr>]\<rparr>"

lemma sync_data_no_fault [io_simps]: "w_outs w = [] \<Longrightarrow> sync_data i w = (Inr (), mark_durable i w)"
  by (simp add: sync_data_def sys_no_fault mark_durable_def)

lemma mark_durable_simps [simp]:
  "w_dir (mark_durable i w) = w_dir w" "w_outs (mark_durable i w) = w_outs w"
  "w_locks (mark_durable i w) = w_locks w"
  "w_warnings (mark_durable i w) = w_warnings w"
  "length (w_inodes (mark_durable i w)) = length (w_inodes w)"
  "data_of j (mark_durable i w) = data_of j w" "lookup n (mark_durable i w) = lookup n w"
  by (auto simp: mark_durable_def data_of_def nth_list_update lookup_def)

lemma af_sync_no_fault [io_simps]:
  "w_outs w = [] \<Longrightarrow> af_sync (af, w) =
     (Inr (), (af\<lparr>af_writer := (af_writer af)\<lparr>bw_buf := []\<rparr>\<rparr>,
       mark_durable (bw_file (af_writer af))
         (append_data (bw_file (af_writer af)) (bw_buf (af_writer af)) w)))"
  by (simp add: af_sync_def bindE_def on_writer_apply bw_flush_no_fault sync_data_no_fault)

section \<open>Properties\<close>

text \<open>
  discover recognises exactly the names that data_path produces, and reads the id back: no
  data file is missed and no other file (a hint file, the lock file, a foreign file) is taken for one.
\<close>

theorem data_file_names: "parse_data_file_id name = Some fid \<longleftrightarrow> name = data_path fid"
  by (rule parse_data_file_id_iff)

text \<open>Numerals of one length compare like their values.\<close>

lemma digit_value_less: "is_ascii_digit c \<Longrightarrow> is_ascii_digit d \<Longrightarrow> c < d \<longleftrightarrow> digit_value c < digit_value d"
  by (auto simp: less_char_def is_ascii_digit_def digit_value_def)

lemma foldl_digits: "foldl (\<lambda>a c. a * 10 + digit_value c) n s = n * 10 ^ length s + num_of s"
proof (induction s arbitrary: n)
  case Nil
  then show ?case by simp
next
  case (Cons c s)
  show ?case
    using Cons.IH [of "n * 10 + digit_value c"] Cons.IH [of "digit_value c"]
    by (simp add: num_of_def algebra_simps)
qed

lemma num_of_Cons: "num_of (c # s) = digit_value c * 10 ^ length s + num_of s"
  using foldl_digits [of "digit_value c" s] by (simp add: num_of_def)

lemma num_of_bound: "list_all is_ascii_digit s \<Longrightarrow> num_of s < 10 ^ length s"
proof (induction s)
  case Nil
  then show ?case by simp
next
  case (Cons c s)
  then have "num_of s < 10 ^ length s" and "digit_value c \<le> 9" using digit_value_bound [of c] by auto
  then have "digit_value c * 10 ^ length s + num_of s < 9 * 10 ^ length s + 10 ^ length s"
    by (intro add_le_less_mono mult_le_mono1) auto
  then show ?case by (simp add: num_of_Cons)
qed

lemma lexordp_digits:
  assumes "length s = length t" and "list_all is_ascii_digit s" and "list_all is_ascii_digit t"
  shows "ord_class.lexordp s t \<longleftrightarrow> num_of s < num_of t"
  using assms
proof (induction s t rule: list_induct2)
  case Nil
  then show ?case by simp
next
  case (Cons c s d t)
  have bs: "num_of s < 10 ^ length s" and bt: "num_of t < 10 ^ length s"
    using Cons num_of_bound [of s] num_of_bound [of t] by auto
  have lt: "digit_value a * 10 ^ length s + m < digit_value b * 10 ^ length s + n"
    if "digit_value a < digit_value b" and "m < 10 ^ length s" for a b m n
  proof -
    have "digit_value a * 10 ^ length s + m < (digit_value a + 1) * 10 ^ length s" using that(2) by simp
    also have "\<dots> \<le> digit_value b * 10 ^ length s" using that(1) by (intro mult_le_mono1) simp
    finally show ?thesis by simp
  qed
  have "is_ascii_digit c" "is_ascii_digit d" using Cons.prems by auto
  then have eq: "c = d" if "digit_value c = digit_value d"
    using that by (metis digit_char_value)
  consider "digit_value c < digit_value d" | "c = d" | "digit_value d < digit_value c"
    using eq by linarith
  then show ?case
  proof cases
    case 1
    then show ?thesis
      using lt [OF 1 bs, of "num_of t"] Cons.prems Cons.hyps
      by (simp add: num_of_Cons digit_value_less)
  next
    case 2
    then show ?thesis using Cons by (simp add: num_of_Cons)
  next
    case 3
    then have "c \<noteq> d" and "\<not> c < d" using Cons.prems by (auto simp: digit_value_less)
    then show ?thesis using lt [OF 3 bt, of "num_of s"] Cons.hyps by (simp add: num_of_Cons)
  qed
qed

text \<open>
  The zero padding makes the order of data-file names the order of their ids, so that a
  directory listing sorted by name is sorted by age.
\<close>

theorem data_path_order: "ord_class.lexordp (data_path a) (data_path b) \<longleftrightarrow> a < b"
proof -
  have suffix: "ord_class.lexordp (s @ u) (t @ u) \<longleftrightarrow> ord_class.lexordp s t" if "length s = length t" for s t u :: string
    using that by (induction s t rule: list_induct2) (auto simp: lexordp_irreflexive')
  note A = zero_padded_facts [OF unat_u32_padded [of a]] and B = zero_padded_facts [OF unat_u32_padded [of b]]
  show ?thesis
    unfolding data_path_def using A B lexordp_digits [of "zero_padded 20 (unat a)" "zero_padded 20 (unat b)"]
    by (simp add: suffix word_less_nat_alt)
qed

end
