(* ===== verification/Recovery.thy ===== *)
theory Recovery
  imports Keydir DataFile
begin

text \<open>
  \<open>src/recovery.rs\<close>: rebuilding the index from the data and hint files of the directory.
\<close>

section \<open>Scanning a data file\<close>

definition apply_entry :: "u32 \<Rightarrow> u64 \<Rightarrow> entry \<Rightarrow> keydir \<Rightarrow> keydir" where
  "apply_entry file_id entry_start_pos e kd =
     (let value_pos = entry_start_pos + of_nat HEADER_SIZE + ucast (eh_key_size (en_header e))
      in if eh_tombstone (en_header e) then snd (keydir_remove (en_key e) kd)
         else keydir_insert (en_key e)
           \<lparr>kd_file_id = file_id, kd_value_size = eh_value_size (en_header e),
            kd_value_pos = value_pos, kd_timestamp = eh_timestamp (en_header e)\<rparr> kd)"

text \<open>The loop of \<open>scan_data_file\<close>: index, warnings and reader are its state.\<close>

function scan_loop :: "'h crc32fast \<Rightarrow> u32 \<Rightarrow> bool \<Rightarrow> u64 \<Rightarrow> keydir \<Rightarrow> warning list \<Rightarrow> reader \<Rightarrow>
    (io_error + unit) \<times> keydir \<times> warning list \<times> reader" where
  "scan_loop C file_id is_last pos kd ws r =
     (case read_entry C r of
        (Inl e, r') \<Rightarrow> (Inl e, kd, ws, r')
      | (Inr None, r') \<Rightarrow> (Inr (), kd, ws, r')
      | (Inr (Some EntryTruncated), r') \<Rightarrow>
          (Inr (), kd, if is_last then ws else ws @ [TruncatedClosedFile file_id pos], r')
      | (Inr (Some (EntryOk e total_len)), r') \<Rightarrow>
          scan_loop C file_id is_last (pos + total_len) (apply_entry file_id pos e kd) ws r'
      | (Inr (Some (EntryCrcMismatch total_len)), r') \<Rightarrow>
          scan_loop C file_id is_last (pos + total_len) kd (ws @ [CorruptEntry file_id pos]) r')"
  by pat_completeness auto
termination
  by (relation "measure (\<lambda>(C, file_id, is_last, pos, kd, ws, r). length (rd_rest r))")
    (auto intro: read_entry_progress [OF sym])

declare scan_loop.simps [simp del]

definition scan_data_file :: "'h crc32fast \<Rightarrow> u32 \<Rightarrow> bool \<Rightarrow> (keydir \<times> world, io_error, unit) act" where
  "scan_data_file C file_id is_last =
     bindE (on_world (open_read (data_path file_id))) (\<lambda>f (kd, w).
       case scan_loop C file_id is_last 0 kd (w_warnings w)
              \<lparr>rd_rest = data_of f w, rd_outs = w_outs w\<rparr> of
         (res, kd', ws, r) \<Rightarrow> (res, (kd', w\<lparr>w_outs := rd_outs r, w_warnings := ws\<rparr>)))"

section \<open>Hint files\<close>

definition saturating_add :: "u64 \<Rightarrow> u64 \<Rightarrow> u64" where
  "saturating_add a b = (if unat a + unat b < 2 ^ 64 then a + b else - 1)"

type_synonym hint_record = "entry_header \<times> u64 \<times> bytes"

text \<open>
  The validation loop of \<open>try_scan_hint_file\<close>: the records of a valid hint file, or the warning
  that makes the whole file untrusted.
\<close>

function hint_loop :: "u32 \<Rightarrow> u64 \<Rightarrow> hint_record list \<Rightarrow> reader \<Rightarrow>
    io_error + (warning + hint_record list)" where
  "hint_loop file_id data_file_len records r =
     (case read_hint r of
        (Inl e, r') \<Rightarrow> Inl e
      | (Inr None, r') \<Rightarrow> Inr (Inr records)
      | (Inr (Some HintTruncated), r') \<Rightarrow> Inr (Inl (HintRecordTruncated file_id))
      | (Inr (Some (HintOk hdr value_pos key)), r') \<Rightarrow>
          (if saturating_add value_pos (ucast (eh_value_size hdr)) > data_file_len
           then Inr (Inl (HintOutOfBounds file_id value_pos (eh_value_size hdr)))
           else hint_loop file_id data_file_len (records @ [(hdr, value_pos, key)]) r'))"
  by pat_completeness auto
termination
  by (relation "measure (\<lambda>(file_id, n, records, r). length (rd_rest r))")
    (auto intro: read_hint_progress [OF sym])

declare hint_loop.simps [simp del]

definition apply_hint_record :: "u32 \<Rightarrow> hint_record \<Rightarrow> keydir \<Rightarrow> keydir" where
  "apply_hint_record file_id = (\<lambda>(hdr, value_pos, key) kd.
     (if eh_tombstone hdr then snd (keydir_remove key kd)
      else keydir_insert key
        \<lparr>kd_file_id = file_id, kd_value_size = eh_value_size hdr, kd_value_pos = value_pos,
         kd_timestamp = eh_timestamp hdr\<rparr> kd))"

definition warn :: "warning \<Rightarrow> world \<Rightarrow> world" where
  "warn x w = w\<lparr>w_warnings := w_warnings w @ [x]\<rparr>"

definition try_scan_hint_file :: "'h crc32fast \<Rightarrow> u32 \<Rightarrow> (keydir \<times> world, io_error, bool) act" where
  "try_scan_hint_file C file_id =
     bindE (on_world (read_file (hint_path file_id))) (\<lambda>bs.
       case verify_hint_file C bs of
         None \<Rightarrow> (\<lambda>(kd, w). (Inr False, (kd, warn (HintCrcFailed file_id) w)))
       | Some content \<Rightarrow>
           bindE (on_world (path_len (data_path file_id))) (\<lambda>data_file_len (kd, w).
             case hint_loop file_id data_file_len [] (cursor content) of
               Inl e \<Rightarrow> (Inl e, (kd, w))
             | Inr (Inl x) \<Rightarrow> (Inr False, (kd, warn x w))
             | Inr (Inr records) \<Rightarrow> (Inr True, (fold (apply_hint_record file_id) records kd, w))))"

section \<open>Recovery\<close>

fun recover :: "'h crc32fast \<Rightarrow> u32 list \<Rightarrow> (keydir \<times> world, io_error, unit) act" where
  "recover C [] = retE ()"
| "recover C (file_id # file_ids) = (\<lambda>(kd, w).
     let is_last = (file_ids = []); (hint_exists, w') = path_exists (hint_path file_id) w
     in bindE (if hint_exists then try_scan_hint_file C file_id else retE False) (\<lambda>used_hint.
        bindE (if \<not> used_hint then scan_data_file C file_id is_last else retE ()) (\<lambda>_.
        recover C file_ids)) (kd, w'))"

end
