(* ===== verification/MergeWriter.thy ===== *)
theory MergeWriter
  imports Keydir DataFile
begin

text \<open>
  \<open>src/merge/output_writer.rs\<close> and \<open>src/merge/pending_queue.rs\<close>: the writer of compacted data
  files and their hint files, and the queue of index repoints that wait for a flush. The counter
  of file ids is the engine's; it is part of the state of the writer's operations.
\<close>

section \<open>The output writer\<close>

definition MERGE_FLUSH_BATCH_SIZE :: nat where
  "MERGE_FLUSH_BATCH_SIZE = 256"

record 'h merge_writer =
  mw_data :: active_file
  mw_hint :: buf_writer
  mw_hint_crc :: 'h
  mw_pending_since_flush :: nat

type_synonym ('h, 'a) mw_act = "('h merge_writer \<times> u32 \<times> world, io_error, 'a) act"

definition on_data :: "'a af_act \<Rightarrow> ('h, 'a) mw_act" where
  "on_data m = zoom (\<lambda>(mw, nid, w). (mw_data mw, w)) (\<lambda>(af, w) (mw, nid, _). (mw\<lparr>mw_data := af\<rparr>, nid, w)) m"

definition on_hint :: "(buf_writer \<times> world, io_error, 'a) act \<Rightarrow> ('h, 'a) mw_act" where
  "on_hint m = zoom (\<lambda>(mw, nid, w). (mw_hint mw, w)) (\<lambda>(bw, w) (mw, nid, _). (mw\<lparr>mw_hint := bw\<rparr>, nid, w)) m"

text \<open>\<open>open_output\<close>: claim an id from the shared counter, then create both files.\<close>

definition open_output :: "(u32 \<times> world, io_error, active_file \<times> buf_writer) act" where
  "open_output = (\<lambda>(next_file_id, w).
     let file_id = next_file_id
     in bindE (on_world (af_create file_id)) (\<lambda>data.
        bindE (on_world (create_file (hint_path file_id))) (\<lambda>hint.
        retE (data, bw_new hint))) (next_file_id + 1, w))"

definition mw_new :: "'h crc32fast \<Rightarrow> (u32 \<times> world, io_error, 'h merge_writer) act" where
  "mw_new C =
     bindE open_output (\<lambda>(data, hint).
     retE \<lparr>mw_data = data, mw_hint = hint, mw_hint_crc = hasher_new C, mw_pending_since_flush = 0\<rparr>)"

definition current_file_id :: "'h merge_writer \<Rightarrow> u32" where
  "current_file_id mw = af_file_id (mw_data mw)"

definition is_ready_to_flush :: "'h merge_writer \<Rightarrow> bool" where
  "is_ready_to_flush mw \<longleftrightarrow> mw_pending_since_flush mw \<ge> MERGE_FLUSH_BATCH_SIZE"

definition is_ready_to_rotate :: "u64 \<Rightarrow> 'h merge_writer \<Rightarrow> bool" where
  "is_ready_to_rotate max_file_size mw \<longleftrightarrow> af_len (mw_data mw) \<ge> max_file_size"

definition modify_mw :: "('h merge_writer \<Rightarrow> 'h merge_writer) \<Rightarrow> ('h, unit) mw_act" where
  "modify_mw f = (\<lambda>(mw, s). (Inr (), (f mw, s)))"

definition flush_batch :: "('h, unit) mw_act" where
  "flush_batch =
     bindE (on_data flush_only) (\<lambda>_.
     modify_mw (\<lambda>mw. mw\<lparr>mw_pending_since_flush := 0\<rparr>))"

text \<open>
  \<open>close_current_hint_file\<close>: \<open>mem::take\<close> leaves a new hasher behind.
\<close>

definition close_current_hint_file :: "'h crc32fast \<Rightarrow> ('h, unit) mw_act" where
  "close_current_hint_file C = (\<lambda>(mw, s).
     let crc = hasher_finalize C (mw_hint_crc mw)
     in bindE (on_hint (bw_write_all (le32 crc))) (\<lambda>_. on_hint bw_flush)
          (mw\<lparr>mw_hint_crc := hasher_new C\<rparr>, s))"

definition mw_rotate :: "'h crc32fast \<Rightarrow> ('h, unit) mw_act" where
  "mw_rotate C =
     bindE (on_data af_sync) (\<lambda>_.
     bindE (close_current_hint_file C) (\<lambda>_ (mw, s).
     bindE (zoom snd (\<lambda>s (mw, _). (mw, s)) open_output) (\<lambda>(data, hint).
     modify_mw (\<lambda>mw. mw\<lparr>mw_data := data, mw_hint := hint, mw_hint_crc := hasher_new C,
       mw_pending_since_flush := 0\<rparr>)) (mw, s)))"

definition rotate_or_flush :: "'h crc32fast \<Rightarrow> u64 \<Rightarrow> ('h, bool) mw_act" where
  "rotate_or_flush C max_file_size = (\<lambda>(mw, s).
     (if is_ready_to_rotate max_file_size mw then bindE (mw_rotate C) (\<lambda>_. retE True)
      else if is_ready_to_flush mw then bindE flush_batch (\<lambda>_. retE True)
      else retE False) (mw, s))"

text \<open>\<open>write_live_entry\<close>: the entry and its hint record, then a rotation or a flush if it is time.\<close>

definition write_record :: "'h crc32fast \<Rightarrow> entry \<Rightarrow> ('h, u32 \<times> u64) mw_act" where
  "write_record C e =
     (let encoded = encode_entry C (en_key e) (en_value e) False (eh_timestamp (en_header e))
      in bindE (on_data (append_buffered encoded)) (\<lambda>(file_id, value_pos, total_len).
         let hint = encode_hint (en_key e) (en_header e) value_pos
         in bindE (on_hint (bw_write_all hint)) (\<lambda>_.
            bindE (modify_mw (\<lambda>mw. mw\<lparr>mw_hint_crc := hasher_update C (mw_hint_crc mw) hint,
              mw_pending_since_flush := mw_pending_since_flush mw + 1\<rparr>)) (\<lambda>_.
            retE (file_id, value_pos)))))"

definition write_live_entry :: "'h crc32fast \<Rightarrow> u64 \<Rightarrow> entry \<Rightarrow> ('h, u32 \<times> u64 \<times> bool) mw_act" where
  "write_live_entry C max_file_size e =
     bindE (write_record C e) (\<lambda>(file_id, value_pos).
     bindE (rotate_or_flush C max_file_size) (\<lambda>flushed.
     retE (file_id, value_pos, flushed)))"

text \<open>\<open>finish\<close>, without the drop of the writer (see \<open>mw_drop\<close>).\<close>

definition mw_finish :: "'h crc32fast \<Rightarrow> ('h, unit) mw_act" where
  "mw_finish C =
     bindE (on_data af_sync) (\<lambda>_.
     bindE (close_current_hint_file C) (\<lambda>_.
     retE ()))"

text \<open>Dropping the writer drops its two \<open>BufWriter\<close>s, in the order of the fields.\<close>

definition mw_drop :: "'h merge_writer \<Rightarrow> world \<Rightarrow> world" where
  "mw_drop mw w = bw_drop (mw_hint mw) (bw_drop (af_writer (mw_data mw)) w)"

section \<open>The queue of repoints\<close>

type_synonym pending_queue = "(bytes \<times> kd_entry \<times> kd_entry) list"

definition pq_push :: "bytes \<times> kd_entry \<times> kd_entry \<Rightarrow> pending_queue \<Rightarrow> pending_queue" where
  "pq_push x q = q @ [x]"

definition pq_queue :: "entry \<Rightarrow> u32 \<Rightarrow> u32 \<Rightarrow> u64 \<Rightarrow> u64 \<Rightarrow> pending_queue \<Rightarrow> pending_queue" where
  "pq_queue e file_id new_file_id entry_value_pos new_value_pos =
     (let timestamp = eh_timestamp (en_header e); value_size = eh_value_size (en_header e)
      in pq_push
        (en_key e,
         \<lparr>kd_file_id = file_id, kd_value_size = value_size, kd_value_pos = entry_value_pos,
          kd_timestamp = timestamp\<rparr>,
         \<lparr>kd_file_id = new_file_id, kd_value_size = value_size, kd_value_pos = new_value_pos,
          kd_timestamp = timestamp\<rparr>))"

text \<open>\<open>drain(..)\<close>: all the items, and the empty queue.\<close>

definition pq_drain_all :: "pending_queue \<Rightarrow> pending_queue \<times> pending_queue" where
  "pq_drain_all q = (q, [])"

definition pq_len :: "pending_queue \<Rightarrow> nat" where
  "pq_len q = length q"

definition pq_is_empty :: "pending_queue \<Rightarrow> bool" where
  "pq_is_empty q \<longleftrightarrow> q = []"

end
