(* ===== verification/Api.thy ===== *)
theory Api
  imports OsModel
begin

text \<open>
  \<open>src/error.rs\<close>, the options of \<open>src/api.rs\<close> and the observability hook of \<open>src/metrics.rs\<close>.
  A \<open>Metrics\<close> object is a caller's callback: the model keeps the list of calls it has received,
  or \<open>None\<close> for \<open>NoopMetrics\<close>; the durations are not modelled.
\<close>

section \<open>Errors\<close>

datatype error =
    Io io_error
  | AlreadyLocked
  | EmptyKey
  | Corrupt string
  | ReadOnly
  | NotImplemented string

text \<open>The message of an \<open>io::Error\<close> is the standard library's: a parameter.\<close>

fun display :: "(io_error \<Rightarrow> string) \<Rightarrow> error \<Rightarrow> string" where
  "display show_io (Io e) = ''io error: '' @ show_io e"
| "display show_io AlreadyLocked = ''directory already locked for writing by another handle''"
| "display show_io EmptyKey = ''key must not be empty''"
| "display show_io (Corrupt msg) = ''data file corrupt: '' @ msg"
| "display show_io ReadOnly = ''datastore is not open for writing (read-only handle)''"
| "display show_io (NotImplemented what) = ''not implemented yet: '' @ what"

fun error_source :: "error \<Rightarrow> io_error option" where
  "error_source (Io e) = Some e"
| "error_source _ = None"

section \<open>Options\<close>

record options =
  o_is_read_write :: bool
  o_should_sync_on_put :: bool
  o_max_file_size :: u64
  o_metrics :: bool

definition default_options :: options where
  "default_options = \<lparr>o_is_read_write = True, o_should_sync_on_put = False,
     o_max_file_size = 64 * 1024 * 1024, o_metrics = False\<rparr>"

definition read_only :: "options \<Rightarrow> options" where
  "read_only opts = opts\<lparr>o_is_read_write := False\<rparr>"

section \<open>Metrics\<close>

datatype metric =
    RecordPut
  | RecordGet
  | RecordDelete
  | RecordMerge
  | RecordSync
  | RecordPendingQueueDepth nat
  | RecordMergeSummary nat nat

type_synonym metrics = "metric list option"

definition record_metric :: "metric \<Rightarrow> metrics \<Rightarrow> metrics" where
  "record_metric x ms = map_option (\<lambda>calls. calls @ [x]) ms"

end
