(* ===== verification/Merge.thy ===== *)
theory Merge
  imports MergeWriter Commit Api
begin

text \<open>
  \<open>src/merge/mod.rs\<close>: compaction. The fields of the engine that merge receives by reference are a
  record. The hook that runs before each repoint (production: nothing) is a function on that record:
  what other threads do to the index, the active file and the directory in that window.
\<close>

record shared =
  sh_keydir :: keydir
  sh_files :: data_file_set
  sh_active :: active_file
  sh_gc :: group_commit
  sh_next_file_id :: u32
  sh_metrics :: metrics
  sh_world :: world

type_synonym hook = "bytes \<Rightarrow> shared \<Rightarrow> shared"

definition no_hook :: hook where
  "no_hook key sh = sh"

section \<open>Reading an input file\<close>

function read_all_loop :: "'h crc32fast \<Rightarrow> u32 \<Rightarrow> u64 \<Rightarrow> (u64 \<times> entry) list \<Rightarrow> warning list \<Rightarrow> reader \<Rightarrow>
    (io_error + (u64 \<times> entry) list) \<times> warning list \<times> reader" where
  "read_all_loop C file_id pos out ws r =
     (case read_entry C r of
        (Inl e, r') \<Rightarrow> (Inl e, ws, r')
      | (Inr None, r') \<Rightarrow> (Inr out, ws, r')
      | (Inr (Some EntryTruncated), r') \<Rightarrow> (Inr out, ws @ [MergeTruncatedEntry file_id pos], r')
      | (Inr (Some (EntryOk e total_len)), r') \<Rightarrow>
          read_all_loop C file_id (pos + total_len) (out @ [(pos, e)]) ws r'
      | (Inr (Some (EntryCrcMismatch total_len)), r') \<Rightarrow>
          read_all_loop C file_id (pos + total_len) out (ws @ [MergeCorruptEntry file_id pos]) r')"
  by pat_completeness auto
termination
  by (relation "measure (\<lambda>(C, file_id, pos, out, ws, r). length (rd_rest r))")
    (auto intro: read_entry_progress [OF sym])

declare read_all_loop.simps [simp del]

definition read_all_entries :: "'h crc32fast \<Rightarrow> u32 \<Rightarrow> (u64 \<times> entry) list io" where
  "read_all_entries C file_id =
     bindE (open_read (data_path file_id)) (\<lambda>f w.
       case read_all_loop C file_id 0 [] (w_warnings w) \<lparr>rd_rest = data_of f w, rd_outs = w_outs w\<rparr> of
         (res, ws, r) \<Rightarrow> (res, w\<lparr>w_outs := rd_outs r, w_warnings := ws\<rparr>))"

section \<open>Repointing\<close>

definition apply_repoint :: "hook \<Rightarrow> bytes \<times> kd_entry \<times> kd_entry \<Rightarrow> shared \<Rightarrow> shared" where
  "apply_repoint before_repoint = (\<lambda>(key, old_ent, new_ent) sh.
     let sh = before_repoint key sh
     in sh\<lparr>sh_keydir := snd (cas_repoint key old_ent new_ent (sh_keydir sh))\<rparr>)"

definition apply_pending_repoints :: "hook \<Rightarrow> shared \<times> pending_queue \<Rightarrow> shared \<times> pending_queue" where
  "apply_pending_repoints before_repoint = (\<lambda>(sh, pending).
     let (items, pending') = pq_drain_all pending
     in (fold (apply_repoint before_repoint) items sh, pending'))"

section \<open>Copying live entries forward\<close>

text \<open>The state of the copying loops: what is shared, the writer, the queue and the count.\<close>

record 'h copy_state =
  cs_sh :: shared
  cs_writer :: "'h merge_writer"
  cs_pending :: pending_queue
  cs_copied :: nat

definition is_live :: "keydir \<Rightarrow> u32 \<Rightarrow> u64 \<Rightarrow> bytes \<Rightarrow> bool" where
  "is_live kd file_id value_pos key =
     (case keydir_get key kd of
        Some ent \<Rightarrow> kd_file_id ent = file_id \<and> kd_value_pos ent = value_pos
      | None \<Rightarrow> False)"

definition on_mw :: "('h, 'a) mw_act \<Rightarrow> ('h copy_state, io_error, 'a) act" where
  "on_mw m = zoom (\<lambda>cs. (cs_writer cs, sh_next_file_id (cs_sh cs), sh_world (cs_sh cs)))
     (\<lambda>(mw, nid, w) cs. cs\<lparr>cs_writer := mw, cs_sh := (cs_sh cs)\<lparr>sh_next_file_id := nid, sh_world := w\<rparr>\<rparr>) m"

definition cs_record :: "metric \<Rightarrow> 'h copy_state \<Rightarrow> 'h copy_state" where
  "cs_record x cs = cs\<lparr>cs_sh := (cs_sh cs)\<lparr>sh_metrics := record_metric x (sh_metrics (cs_sh cs))\<rparr>\<rparr>"

definition drain_repoints :: "hook \<Rightarrow> 'h copy_state \<Rightarrow> 'h copy_state" where
  "drain_repoints before_repoint cs =
     (let (sh, pending) = apply_pending_repoints before_repoint (cs_sh cs, cs_pending cs)
      in cs\<lparr>cs_sh := sh, cs_pending := pending\<rparr>)"

text \<open>
  The body of the loop over an input file, returning the new \<open>max_output_id\<close>. The live entry is
  queued, and the queue is applied when the writer reports a flush.
\<close>

definition copy_one :: "'h crc32fast \<Rightarrow> u64 \<Rightarrow> hook \<Rightarrow> u32 \<Rightarrow> u64 \<times> entry \<Rightarrow> u32 \<Rightarrow>
    ('h copy_state, io_error, u32) act" where
  "copy_one C max_file_size before_repoint file_id = (\<lambda>(offset, e) max_output_id cs.
     (if is_tombstone e then (Inr max_output_id, cs)
      else let value_pos = offset + of_nat HEADER_SIZE + ucast (eh_key_size (en_header e))
      in if \<not> is_live (sh_keydir (cs_sh cs)) file_id value_pos (en_key e) then (Inr max_output_id, cs)
      else bindE (on_mw (write_live_entry C max_file_size e))
        (\<lambda>(new_file_id, new_value_pos, flushed) cs.
           let max_output_id = max max_output_id (current_file_id (cs_writer cs));
               cs = cs\<lparr>cs_copied := cs_copied cs + 1,
                 cs_pending := pq_queue e file_id new_file_id value_pos new_value_pos (cs_pending cs)\<rparr>
           in (Inr max_output_id,
               if flushed
               then drain_repoints before_repoint
                 (cs_record (RecordPendingQueueDepth (pq_len (cs_pending cs))) cs)
               else cs)) cs))"

fun copy_entries :: "'h crc32fast \<Rightarrow> u64 \<Rightarrow> hook \<Rightarrow> u32 \<Rightarrow> (u64 \<times> entry) list \<Rightarrow> u32 \<Rightarrow>
    ('h copy_state, io_error, u32) act" where
  "copy_entries C max_file_size before_repoint file_id [] max_output_id = retE max_output_id"
| "copy_entries C max_file_size before_repoint file_id (x # xs) max_output_id =
     bindE (copy_one C max_file_size before_repoint file_id x max_output_id)
       (copy_entries C max_file_size before_repoint file_id xs)"

definition copy_forward_live_file_entries :: "'h crc32fast \<Rightarrow> u64 \<Rightarrow> hook \<Rightarrow> u32 \<Rightarrow> u32 \<Rightarrow>
    ('h copy_state, io_error, u32) act" where
  "copy_forward_live_file_entries C max_file_size before_repoint file_id highest_output_id =
     bindE (zoom (\<lambda>cs. sh_world (cs_sh cs)) (\<lambda>w cs. cs\<lparr>cs_sh := (cs_sh cs)\<lparr>sh_world := w\<rparr>\<rparr>)
       (read_all_entries C file_id)) (\<lambda>entries.
     copy_entries C max_file_size before_repoint file_id entries highest_output_id)"

fun copy_forward_all_live_entries :: "'h crc32fast \<Rightarrow> u64 \<Rightarrow> hook \<Rightarrow> u32 list \<Rightarrow> u32 \<Rightarrow>
    ('h copy_state, io_error, u32) act" where
  "copy_forward_all_live_entries C max_file_size before_repoint [] highest_output_id =
     retE highest_output_id"
| "copy_forward_all_live_entries C max_file_size before_repoint (file_id # input_ids) highest_output_id =
     bindE (copy_forward_live_file_entries C max_file_size before_repoint file_id highest_output_id)
       (copy_forward_all_live_entries C max_file_size before_repoint input_ids)"

section \<open>Replacing the active file\<close>

text \<open>
  Both a put that fills the active file and the end of a merge sync the active file, report that to
  group commit, and put a new file in its place, under the next id of the shared counter.
\<close>

type_synonym append_state = "(active_file \<times> group_commit \<times> u32) \<times> world"

definition on_af :: "'a af_act \<Rightarrow> (append_state, io_error, 'a) act" where
  "on_af m = zoom (\<lambda>((af, _), w). (af, w)) (\<lambda>(af, w) ((_, x), _). ((af, x), w)) m"

definition rotate_active :: "(append_state, io_error, unit) act" where
  "rotate_active =
     bindE (on_af af_sync) (\<lambda>_ ((af, gc, nid), w).
       bindE (on_world (af_create nid)) (\<lambda>af' ((_, gc, nid), w).
         (Inr (), ((af', gc, nid), w)))
       ((af, mark_all_durable gc, nid + 1), w))"

section \<open>The phases of a merge\<close>

definition finish_and_apply_pending_repoints :: "'h crc32fast \<Rightarrow> hook \<Rightarrow> ('h copy_state, io_error, unit) act" where
  "finish_and_apply_pending_repoints C before_repoint =
     bindE (on_mw (mw_finish C)) (\<lambda>_ cs.
       (Inr (), drain_repoints before_repoint
         (if pq_is_empty (cs_pending cs) then cs
          else cs_record (RecordPendingQueueDepth (pq_len (cs_pending cs))) cs)))"

definition collect_input_ids :: "u32 \<Rightarrow> u32 list io" where
  "collect_input_ids active_id_at_start =
     bindE discover (\<lambda>ids. retE (filter (\<lambda>fid. fid < active_id_at_start) ids))"

fun remove_old_input_files :: "u32 list \<Rightarrow> data_file_set \<times> world \<Rightarrow> data_file_set \<times> world" where
  "remove_old_input_files [] (fs, w) = (fs, w)"
| "remove_old_input_files (file_id # input_ids) (fs, w) =
     (let (_, w1) = remove_file (data_path file_id) w;
          (_, w2) = remove_file (hint_path file_id) w1
      in remove_old_input_files input_ids (forget file_id fs, w2))"

definition on_sh_world :: "'a io \<Rightarrow> (shared, io_error, 'a) act" where
  "on_sh_world m = zoom sh_world (\<lambda>w sh. sh\<lparr>sh_world := w\<rparr>) m"

definition restore_active_file :: "u32 \<Rightarrow> (shared, io_error, unit) act" where
  "restore_active_file highest_output_id = (\<lambda>sh.
     (if af_file_id (sh_active sh) \<le> highest_output_id
      then zoom (\<lambda>sh. ((sh_active sh, sh_gc sh, sh_next_file_id sh), sh_world sh))
        (\<lambda>((af, gc, nid), w) sh. sh\<lparr>sh_active := af, sh_gc := gc, sh_next_file_id := nid, sh_world := w\<rparr>)
        rotate_active
      else retE ()) sh)"

text \<open>The copy and flush phases; the writer is dropped however they end.\<close>

definition compact :: "'h crc32fast \<Rightarrow> u64 \<Rightarrow> hook \<Rightarrow> u32 list \<Rightarrow> (shared, io_error, u32 \<times> nat) act" where
  "compact C max_file_size before_repoint input_ids = (\<lambda>sh.
     case mw_new C (sh_next_file_id sh, sh_world sh) of
       (Inl e, (nid, w)) \<Rightarrow> (Inl e, sh\<lparr>sh_next_file_id := nid, sh_world := w\<rparr>)
     | (Inr writer, (nid, w)) \<Rightarrow>
         (let cs = \<lparr>cs_sh = sh\<lparr>sh_next_file_id := nid, sh_world := w\<rparr>, cs_writer = writer,
                cs_pending = [], cs_copied = 0\<rparr>;
              (res, cs') =
                bindE (copy_forward_all_live_entries C max_file_size before_repoint input_ids
                  (current_file_id writer)) (\<lambda>highest.
                bindE (finish_and_apply_pending_repoints C before_repoint) (\<lambda>_.
                retE highest)) cs
          in (map_sum (\<lambda>e. e) (\<lambda>highest. (highest, cs_copied cs')) res,
              (cs_sh cs')\<lparr>sh_world := mw_drop (cs_writer cs') (sh_world (cs_sh cs'))\<rparr>)))"

definition merge_with_repoint_hook :: "'h crc32fast \<Rightarrow> u64 \<Rightarrow> hook \<Rightarrow> (shared, error, unit) act" where
  "merge_with_repoint_hook C max_file_size before_repoint =
     map_err Io (bindE (\<lambda>sh. on_sh_world (collect_input_ids (af_file_id (sh_active sh))) sh) (\<lambda>input_ids.
       if input_ids = [] then retE ()
       else bindE (compact C max_file_size before_repoint input_ids) (\<lambda>(highest_output_id, copied) sh.
         let (fs, w) = remove_old_input_files input_ids (sh_files sh, sh_world sh)
         in bindE (restore_active_file highest_output_id) (\<lambda>_ sh.
              (Inr (), sh\<lparr>sh_metrics :=
                record_metric (RecordMergeSummary (length input_ids) copied) (sh_metrics sh)\<rparr>))
            (sh\<lparr>sh_files := fs, sh_world := w\<rparr>))))"

definition merge :: "'h crc32fast \<Rightarrow> u64 \<Rightarrow> (shared, error, unit) act" where
  "merge C max_file_size = merge_with_repoint_hook C max_file_size no_hook"

end
