(* ===== verification/Engine.thy ===== *)
theory Engine
  imports Recovery Merge
begin

text \<open>
  \<open>src/engine.rs\<close> and \<open>src/lock.rs\<close>: the engine that ties the index, the data files, group commit,
  recovery and merge together behind the \<open>Bitcask\<close> trait. One handle is modelled at the
  granularity of whole calls; a call that blocks forever is \<open>None\<close>.
\<close>

section \<open>The directory lock\<close>

text \<open>
  \<open>try_lock_exclusive\<close> is from the external crate \<open>fs2\<close>: a parameter that takes the inode to lock
  and the inodes that are locked. What the code relies on is \<open>flock_ok\<close>.
\<close>

type_synonym flock = "nat \<Rightarrow> nat list \<Rightarrow> nat list option"

definition flock_ok :: "flock \<Rightarrow> bool" where
  "flock_ok flk \<longleftrightarrow> (\<forall>i L. flk i L = (if i \<in> set L then None else Some (i # L)))"

definition LOCK_FILE :: string where
  "LOCK_FILE = ''.bitcask.lock''"

definition dirlock_acquire :: "flock \<Rightarrow> (world, error, nat) act" where
  "dirlock_acquire flk =
     bindE (map_err Io (create_file LOCK_FILE)) (\<lambda>file w.
       case flk file (w_locks w) of
         None \<Rightarrow> (Inl AlreadyLocked, w)
       | Some locks \<Rightarrow> (Inr file, w\<lparr>w_locks := locks\<rparr>))"

text \<open>Closing the descriptor releases the lock.\<close>

definition dirlock_drop :: "nat option \<Rightarrow> world \<Rightarrow> world" where
  "dirlock_drop lock w =
     (case lock of None \<Rightarrow> w | Some i \<Rightarrow> w\<lparr>w_locks := remove1 i (w_locks w)\<rparr>)"

section \<open>The engine\<close>

record engine =
  eg_keydir :: keydir
  eg_files :: data_file_set
  eg_active :: "active_file option"
  eg_gc :: group_commit
  eg_next_file_id :: u32
  eg_metrics :: metrics
  eg_opts :: options
  eg_write_lock :: "nat option"

type_synonym 'a eg_act = "(engine \<times> world, error, 'a) act"

definition require_write :: "engine \<Rightarrow> error + unit" where
  "require_write eg = (if o_is_read_write (eg_opts eg) then Inr () else Inl ReadOnly)"

definition eg_record :: "metric \<Rightarrow> engine \<Rightarrow> engine" where
  "eg_record x eg = eg\<lparr>eg_metrics := record_metric x (eg_metrics eg)\<rparr>"

section \<open>Appending\<close>

text \<open>The part of \<open>append\<close> under the lock of the active file.\<close>

definition append_locked :: "u64 \<Rightarrow> encoded_entry \<Rightarrow> (append_state, io_error, u32 \<times> u64 \<times> u64) act" where
  "append_locked max_file_size encoded =
     bindE (on_af (af_append encoded)) (\<lambda>(file_id, value_pos, total_len) ((af, gc, nid), w).
       let (target_gen, gc) = record_pending gc
       in bindE (if af_len af \<ge> max_file_size then rotate_active else retE ()) (\<lambda>_.
          retE (file_id, value_pos, target_gen)) ((af, gc, nid), w))"

text \<open>The fsync that group commit runs: flush and clone under the lock, then \<open>sync_data\<close>.\<close>

definition fsync_active :: "unit af_act" where
  "fsync_active = bindE sync_handle (\<lambda>fd. on_world (sync_data fd))"

definition engine_append :: "encoded_entry \<Rightarrow> engine \<times> world \<Rightarrow>
    ((error + u32 \<times> u64) \<times> engine \<times> world) option" where
  "engine_append encoded = (\<lambda>(eg, w).
     case eg_active eg of
       None \<Rightarrow> Some (Inl ReadOnly, (eg, w))
     | Some af \<Rightarrow>
         (case append_locked (o_max_file_size (eg_opts eg)) encoded
                 ((af, eg_gc eg, eg_next_file_id eg), w) of
            (res, ((af, gc, nid), w)) \<Rightarrow>
              (let eg = eg\<lparr>eg_active := Some af, eg_gc := gc, eg_next_file_id := nid\<rparr>
               in case res of
                    Inl e \<Rightarrow> Some (Inl (Io e), (eg, w))
                  | Inr (file_id, value_pos, target_gen) \<Rightarrow>
                      (if o_should_sync_on_put (eg_opts eg)
                       then (case gc_commit target_gen fsync_active (gc, (af, w)) of
                               None \<Rightarrow> None
                             | Some (res, (gc, (af, w))) \<Rightarrow>
                                 (let eg = eg\<lparr>eg_active := Some af, eg_gc := gc\<rparr>
                                  in case res of
                                       Inl e \<Rightarrow> Some (Inl (Io e), (eg, w))
                                     | Inr _ \<Rightarrow> Some (Inr (file_id, value_pos), (eg, w))))
                       else Some (Inr (file_id, value_pos), (eg, w))))))"

definition read_value :: "kd_entry \<Rightarrow> bytes eg_act" where
  "read_value ent = map_err Io (zoom (\<lambda>(eg, w). (eg_files eg, w)) (\<lambda>(fs, w) (eg, _). (eg\<lparr>eg_files := fs\<rparr>, w))
     (dfs_read_at (kd_file_id ent) (kd_value_pos ent) (kd_value_size ent)))"

section \<open>The Bitcask trait\<close>

definition next_id_after :: "u32 list \<Rightarrow> u32" where
  "next_id_after file_ids = (if file_ids = [] then 0 else last file_ids + 1)"

text \<open>The part of \<open>open\<close> after the lock: discovery, recovery, a fresh active file.\<close>

definition open_files :: "'h crc32fast \<Rightarrow> options \<Rightarrow> (world, io_error, keydir \<times> u32 \<times> active_file option) act" where
  "open_files C opts =
     bindE discover (\<lambda>file_ids w.
       case recover C file_ids (keydir_new, w) of
         (Inl e, (_, w)) \<Rightarrow> (Inl e, w)
       | (Inr _, (kd, w)) \<Rightarrow>
           (let next_id = next_id_after file_ids
            in bindE (if o_is_read_write opts
                      then bindE (af_create next_id) (\<lambda>af. retE (Some af)) else retE None)
                 (\<lambda>active. retE (kd, next_id, active)) w))"

definition engine_open :: "'h crc32fast \<Rightarrow> flock \<Rightarrow> options \<Rightarrow> (world, error, engine) act" where
  "engine_open C flk opts =
     bindE (map_err Io create_dir_all) (\<lambda>_.
     bindE (if o_is_read_write opts
            then bindE (dirlock_acquire flk) (\<lambda>file. retE (Some file)) else retE None) (\<lambda>write_lock w.
       case open_files C opts w of
         (Inl e, w) \<Rightarrow> (Inl (Io e), dirlock_drop write_lock w)
       | (Inr (kd, next_id, active), w) \<Rightarrow>
           (Inr \<lparr>eg_keydir = kd, eg_files = dfs_new, eg_active = active, eg_gc = gc_new,
                 eg_next_file_id = next_id + 1,
                 eg_metrics = (if o_metrics opts then Some [] else None),
                 eg_opts = opts, eg_write_lock = write_lock\<rparr>, w)))"

definition engine_get :: "bytes \<Rightarrow> bytes option eg_act" where
  "engine_get key = (\<lambda>(eg, w).
     bindE (case keydir_get key (eg_keydir eg) of
              Some ent \<Rightarrow> bindE (read_value ent) (\<lambda>v. retE (Some v))
            | None \<Rightarrow> retE None)
       (\<lambda>val (eg, w). (Inr val, (eg_record RecordGet eg, w))) (eg, w))"

definition engine_put :: "'h crc32fast \<Rightarrow> bytes \<Rightarrow> bytes \<Rightarrow> u32 \<Rightarrow> engine \<times> world \<Rightarrow>
    ((error + unit) \<times> engine \<times> world) option" where
  "engine_put C key val timestamp = (\<lambda>(eg, w).
     if key = [] then Some (Inl EmptyKey, (eg, w))
     else case require_write eg of
       Inl e \<Rightarrow> Some (Inl e, (eg, w))
     | Inr _ \<Rightarrow>
         (case engine_append (encode_entry C key val False timestamp) (eg, w) of
            None \<Rightarrow> None
          | Some (Inl e, s) \<Rightarrow> Some (Inl e, s)
          | Some (Inr (file_id, value_pos), (eg, w)) \<Rightarrow>
              Some (Inr (), (eg_record RecordPut
                (eg\<lparr>eg_keydir := keydir_insert key
                  \<lparr>kd_file_id = file_id, kd_value_size = of_nat (length val),
                   kd_value_pos = value_pos, kd_timestamp = timestamp\<rparr> (eg_keydir eg)\<rparr>), w))))"

definition engine_delete :: "'h crc32fast \<Rightarrow> bytes \<Rightarrow> u32 \<Rightarrow> engine \<times> world \<Rightarrow>
    ((error + unit) \<times> engine \<times> world) option" where
  "engine_delete C key timestamp = (\<lambda>(eg, w).
     if key = [] then Some (Inl EmptyKey, (eg, w))
     else case require_write eg of
       Inl e \<Rightarrow> Some (Inl e, (eg, w))
     | Inr _ \<Rightarrow>
         (if keydir_get key (eg_keydir eg) = None
          then Some (Inr (), (eg_record RecordDelete eg, w))
          else case engine_append (encode_entry C key [] True timestamp) (eg, w) of
            None \<Rightarrow> None
          | Some (Inl e, s) \<Rightarrow> Some (Inl e, s)
          | Some (Inr _, (eg, w)) \<Rightarrow>
              Some (Inr (), (eg_record RecordDelete
                (eg\<lparr>eg_keydir := snd (keydir_remove key (eg_keydir eg))\<rparr>), w))))"

type_synonym iter_order = "(bytes \<times> kd_entry) list \<Rightarrow> (bytes \<times> kd_entry) list"

definition list_keys :: "iter_order \<Rightarrow> bytes list eg_act" where
  "list_keys ord = (\<lambda>(eg, w). (Inr (map fst (snapshot ord (eg_keydir eg))), (eg, w)))"

fun fold_loop :: "(bytes \<Rightarrow> bytes \<Rightarrow> 'a \<Rightarrow> 'a) \<Rightarrow> (bytes \<times> kd_entry) list \<Rightarrow> 'a \<Rightarrow> 'a eg_act" where
  "fold_loop f [] acc = retE acc"
| "fold_loop f ((key, ent) # items) acc =
     bindE (read_value ent) (\<lambda>v. fold_loop f items (f key v acc))"

definition engine_fold :: "iter_order \<Rightarrow> (bytes \<Rightarrow> bytes \<Rightarrow> 'a \<Rightarrow> 'a) \<Rightarrow> 'a \<Rightarrow> 'a eg_act" where
  "engine_fold ord f init = (\<lambda>(eg, w). fold_loop f (snapshot ord (eg_keydir eg)) init (eg, w))"

text \<open>Merge borrows the fields of the engine.\<close>

definition eg_share :: "engine \<Rightarrow> active_file \<Rightarrow> world \<Rightarrow> shared" where
  "eg_share eg af w =
     \<lparr>sh_keydir = eg_keydir eg, sh_files = eg_files eg, sh_active = af, sh_gc = eg_gc eg,
      sh_next_file_id = eg_next_file_id eg, sh_metrics = eg_metrics eg, sh_world = w\<rparr>"

definition eg_unshare :: "engine \<Rightarrow> shared \<Rightarrow> engine \<times> world" where
  "eg_unshare eg sh =
     (eg\<lparr>eg_keydir := sh_keydir sh, eg_files := sh_files sh, eg_active := Some (sh_active sh),
         eg_gc := sh_gc sh, eg_next_file_id := sh_next_file_id sh, eg_metrics := sh_metrics sh\<rparr>,
      sh_world sh)"

text \<open>The entry point the crate's tests use to act in the window before a repoint.\<close>

definition engine_merge_with_hook :: "'h crc32fast \<Rightarrow> hook \<Rightarrow> unit eg_act" where
  "engine_merge_with_hook C hook = (\<lambda>(eg, w).
     case require_write eg of
       Inl e \<Rightarrow> (Inl e, (eg, w))
     | Inr _ \<Rightarrow>
         (case eg_active eg of
            None \<Rightarrow> (Inl ReadOnly, (eg, w))
          | Some af \<Rightarrow>
              (case merge_with_repoint_hook C (o_max_file_size (eg_opts eg)) hook (eg_share eg af w) of
                 (res, sh) \<Rightarrow> (res, eg_unshare eg sh))))"

definition engine_merge :: "'h crc32fast \<Rightarrow> unit eg_act" where
  "engine_merge C = (\<lambda>(eg, w).
     case require_write eg of
       Inl e \<Rightarrow> (Inl e, (eg, w))
     | Inr _ \<Rightarrow>
         (case eg_active eg of
            None \<Rightarrow> (Inl ReadOnly, (eg, w))
          | Some af \<Rightarrow>
              (case merge C (o_max_file_size (eg_opts eg)) (eg_share eg af w) of
                 (res, sh) \<Rightarrow>
                   (case eg_unshare eg sh of
                      (eg, w) \<Rightarrow> (res, (if isl res then eg else eg_record RecordMerge eg, w))))))"

definition engine_sync :: "unit eg_act" where
  "engine_sync = (\<lambda>(eg, w).
     case eg_active eg of
       None \<Rightarrow> (Inr (), (eg, w))
     | Some af \<Rightarrow>
         (case af_sync (af, w) of
            (Inl e, (af, w)) \<Rightarrow> (Inl (Io e), (eg\<lparr>eg_active := Some af\<rparr>, w))
          | (Inr _, (af, w)) \<Rightarrow> (Inr (), (eg_record RecordSync (eg\<lparr>eg_active := Some af\<rparr>), w))))"

text \<open>Dropping an engine drops the writer of its active file and releases the lock.\<close>

definition engine_drop :: "engine \<times> world \<Rightarrow> world" where
  "engine_drop = (\<lambda>(eg, w).
     dirlock_drop (eg_write_lock eg)
       (case eg_active eg of None \<Rightarrow> w | Some af \<Rightarrow> bw_drop (af_writer af) w))"

definition engine_close :: "engine \<times> world \<Rightarrow> (error + unit) \<times> world" where
  "engine_close = (\<lambda>(eg, w).
     case eg_active eg of
       None \<Rightarrow> (Inr (), engine_drop (eg, w))
     | Some af \<Rightarrow>
         (case af_sync (af, w) of
            (res, (af, w)) \<Rightarrow>
              (map_sum Io (\<lambda>u. u) res, engine_drop (eg\<lparr>eg_active := Some af\<rparr>, w))))"

end
