(* ===== verification/Faults.thy ===== *)
theory Faults
  imports Engine "HOL-Library.Sublist"
begin

text \<open>
  The engine on a machine whose system calls fail or transfer less than asked for, in any order: what no
  operation does, whatever the outcomes. Nothing here assumes that \<open>w_outs\<close> is empty.
\<close>

section \<open>Relations that hold across every outcome\<close>

definition always :: "('s \<Rightarrow> 's \<Rightarrow> bool) \<Rightarrow> ('s, 'e, 'a) act \<Rightarrow> bool" where
  "always R m \<longleftrightarrow> (\<forall>s. R s (snd (m s)))"

named_theorems kept \<open>operations that keep the data files\<close>

lemma alwaysI: "(\<And>s. R s (snd (m s))) \<Longrightarrow> always R m"
  by (simp add: always_def)

lemma alwaysD: "always R m \<Longrightarrow> m s = (r, t) \<Longrightarrow> R s t"
  unfolding always_def by (metis snd_conv)

lemma always_zoom:
  assumes "always R' m" and "\<And>s t. R' (g s) t \<Longrightarrow> R s (p t s)"
  shows "always R (zoom g p m)"
  using assms by (auto simp: always_def zoom_def split: prod.splits) (metis snd_conv)

lemma always_map_err [kept]: "always R m \<Longrightarrow> always R (map_err f m)"
  by (auto simp: always_def map_err_def split: prod.splits sum.splits) (metis snd_conv)+

lemma always_if [kept]: "(b \<Longrightarrow> always R m) \<Longrightarrow> (\<not> b \<Longrightarrow> always R m') \<Longrightarrow> always R (if b then m else m')"
  by simp

lemma always_prod [kept]: "(\<And>a b. x = (a, b) \<Longrightarrow> always R (m a b)) \<Longrightarrow> always R (case x of (a, b) \<Rightarrow> m a b)"
  by (cases x) simp

lemma always_option [kept]:
  "(x = None \<Longrightarrow> always R m) \<Longrightarrow> (\<And>a. x = Some a \<Longrightarrow> always R (f a)) \<Longrightarrow> always R (case x of None \<Rightarrow> m | Some a \<Rightarrow> f a)"
  by (cases x) simp_all

locale fault_relation =
  fixes R :: "'s \<Rightarrow> 's \<Rightarrow> bool"
  assumes refl: "R s s" and trans: "R s t \<Longrightarrow> R t u \<Longrightarrow> R s u"
begin

lemma retE: "always R (retE x)"
  by (simp add: always_def refl)

lemma retE': "always R (Pair r)"
  by (simp add: always_def refl)

lemma unless: "R s (snd x) \<Longrightarrow> R s (snd (if a then (r, s) else if b then (r, s) else x))"
  by (simp add: refl)

lemma bindE: "always R m \<Longrightarrow> (\<And>x. always R (f x)) \<Longrightarrow> always R (bindE m f)"
  unfolding always_def by (auto simp: bindE_def split: prod.splits sum.splits) (metis snd_conv trans)+

end

section \<open>Data files are kept\<close>

text \<open>
  Every data file that is there stays, and what it held is a prefix of what it holds (appending is allowed); nobody's lock is taken or
  released.
\<close>

definition keeps :: "world \<Rightarrow> world \<Rightarrow> bool" where
  "keeps w w' \<longleftrightarrow> w_locks w' = w_locks w \<and> (world_ok w \<longrightarrow> world_ok w' \<and>
     (\<forall>fid bs. file_bytes (data_path fid) w = Some bs \<longrightarrow>
        (\<exists>bs'. file_bytes (data_path fid) w' = Some bs' \<and> prefix bs bs')))"

interpretation wk: fault_relation keeps
proof
  show "keeps s s" for s by (auto simp: keeps_def)
  show "keeps s u" if st: "keeps s t" and tu: "keeps t u" for s t u
  proof -
    have "w_locks u = w_locks s" using st tu by (simp add: keeps_def)
    moreover have "world_ok u \<and> (\<exists>bs'. file_bytes (data_path fid) u = Some bs' \<and> prefix bs bs')"
      if "world_ok s" "file_bytes (data_path fid) s = Some bs" for fid bs
      using st tu that unfolding keeps_def by (meson prefix_order.trans)
    moreover have "world_ok u" if "world_ok s" using st tu that by (simp add: keeps_def)
    ultimately show ?thesis by (simp add: keeps_def)
  qed
qed

lemma keeps_same:
  assumes "w_dir w' = w_dir w" and "w_locks w' = w_locks w" and "length (w_inodes w') = length (w_inodes w)" and "\<And>i. data_of i w' = data_of i w"
  shows "keeps w w'"
proof -
  have "lookup n w' = lookup n w" for n using assms(1) by (simp add: lookup_def)
  then show ?thesis using assms world_ok_cong [of w' w] by (auto simp: keeps_def file_bytes_def)
qed

lemma keeps_append: "keeps w (append_data i bs w)"
  by (auto simp: keeps_def file_bytes_append_data file_bytes_lookup)

lemma keeps_new_file: "lookup name w = None \<Longrightarrow> keeps w (snd (new_file name w))"
proof -
  assume n: "lookup name w = None"
  obtain i w' where f: "new_file name w = (Inr i, w')" by (simp add: new_file_def)
  have "world_ok w' \<and> (\<forall>fid bs. file_bytes (data_path fid) w = Some bs \<longrightarrow> file_bytes (data_path fid) w' = Some bs)"
    if "world_ok w"
    using new_file_facts [OF that n f] n by (auto simp: file_bytes_def)
  moreover have "w_locks w' = w_locks w" using f by (auto simp: new_file_def)
  ultimately show ?thesis by (auto simp: keeps_def f)
qed


section \<open>System calls\<close>

lemma keeps_outs: "keeps w (w\<lparr>w_outs := os\<rparr>)"
  by (rule keeps_same) (simp_all add: data_of_def)

lemma always_sys: "always keeps m \<Longrightarrow> always keeps (sys m)"
  unfolding always_def sys_def Let_def
  by (auto split: option.splits intro: keeps_outs wk.trans [OF keeps_outs])

lemma data_of_update_durable [simp]:
  "data_of j (w\<lparr>w_inodes := (w_inodes w)[i := (w_inodes w ! i)\<lparr>i_durable := n\<rparr>]\<rparr>) = data_of j w"
  by (cases "j = i") (simp_all add: data_of_def nth_list_update)

lemma truncate_keeps:
  assumes "lookup name w = Some i" and "\<And>fid. name \<noteq> data_path fid"
  shows "keeps w (w\<lparr>w_inodes := (w_inodes w)[i := \<lparr>i_data = [], i_durable = 0\<rparr>]\<rparr>)" (is "keeps w ?w")
proof -
  have l: "lookup n ?w = lookup n w" for n by (simp add: lookup_def)
  have d: "data_of j ?w = data_of j w" if "j \<noteq> i" for j using that by (simp add: data_of_def)
  have "file_bytes (data_path fid) ?w = file_bytes (data_path fid) w" if "world_ok w" for fid
  proof (cases "lookup (data_path fid) w")
    case (Some j)
    then have "j \<noteq> i" using lookup_inj [OF that assms(1), of "data_path fid"] assms(2) [of fid] by auto
    then show ?thesis using Some d by (simp add: file_bytes_def l)
  qed (simp add: file_bytes_def l)
  moreover have "world_ok ?w = world_ok w" by (rule world_ok_cong) simp_all
  ultimately show ?thesis by (auto simp: keeps_def)
qed

lemma write_loop_keeps: "write_loop i bs w = (r, rest, w') \<Longrightarrow> keeps w w'"
  using write_loop_prefix [of i bs w r rest w'] wk.trans [OF keeps_append keeps_outs] by blast

lemma pread_loop_keeps: "keeps w (snd (pread_loop i pos n acc w))"
proof (induction i pos n acc w rule: pread_loop.induct)
  case (1 i pos n acc w)
  have o: "keeps w (w\<lparr>w_outs := tl (w_outs w)\<rparr>)" by (rule keeps_outs)
  show ?case
    using 1 o wk.trans [OF o] by (subst pread_loop.simps) (auto simp: Let_def wk.refl split: option.splits)
qed

lemma hint_not_data: "hint_path fid \<noteq> data_path fid'"
proof
  assume "hint_path fid = data_path fid'"
  then have "rev (hint_path fid) = rev (data_path fid')" by simp
  then show False by (simp add: hint_path_def data_path_def)
qed

lemma lock_not_data: "LOCK_FILE \<noteq> data_path fid"
proof
  assume "LOCK_FILE = data_path fid"
  then have "rev LOCK_FILE = rev (data_path fid)" by simp
  then show False by (simp add: LOCK_FILE_def data_path_def)
qed

lemma system_calls [kept]:
  "always keeps (open_append name)" "always keeps (open_read name)" "always keeps (file_len i)"
  "always keeps (path_len name)" "always keeps (try_clone i)" "always keeps create_dir_all"
  "always keeps (sync_data i)" "always keeps read_dir" "always keeps (read_file name)"
  "always keeps (read_exact_at i pos n)" "always keeps (write_all i bs)"
  "always keeps (create_file (hint_path fid))" "always keeps (create_file LOCK_FILE)"
proof -
  have same: "always keeps (sys (\<lambda>w. (f w, w)))" for f :: "world \<Rightarrow> io_error + 'x"
    by (rule always_sys) (simp add: always_def wk.refl)
  show opn: "always keeps (open_read name)" for name unfolding open_read_def
    by (rule always_sys) (auto simp: always_def wk.refl split: option.splits)
  show "always keeps (open_append name)" unfolding open_append_def
    by (rule always_sys) (auto simp: always_def wk.refl keeps_new_file split: option.splits)
  show "always keeps (file_len i)" "always keeps (try_clone i)" "always keeps create_dir_all" "always keeps read_dir"
    using same by (simp_all add: file_len_def try_clone_def create_dir_all_def read_dir_def retE_def [abs_def])
  show "always keeps (path_len name)" unfolding path_len_def
    by (rule always_sys) (auto simp: always_def wk.refl split: option.splits)
  show "always keeps (sync_data i)" unfolding sync_data_def
    by (rule always_sys) (auto simp: always_def intro: keeps_same)
  show "always keeps (read_file name)" unfolding read_file_def by (intro wk.bindE opn same)
  show "always keeps (read_exact_at i pos n)" by (simp add: always_def read_exact_at_def pread_loop_keeps)
  show "always keeps (write_all i bs)"
    by (auto simp: always_def write_all_def split: prod.splits intro: write_loop_keeps)
  have trunc: "always keeps (create_file name)" if "\<And>fid. name \<noteq> data_path fid" for name
    unfolding create_file_def
    by (rule always_sys) (auto simp: always_def keeps_new_file truncate_keeps [OF _ that] split: option.splits)
  show "always keeps (create_file (hint_path fid))" by (rule trunc) (rule hint_not_data)
  show "always keeps (create_file LOCK_FILE)" by (rule trunc) (rule lock_not_data)
qed

lemma path_exists_keeps: "keeps w (snd (path_exists name w))"
proof -
  have a: "always keeps (sys (\<lambda>w. (Inr (lookup name w \<noteq> None) :: io_error + bool, w)))"
    by (rule always_sys) (simp add: always_def wk.refl)
  obtain r w' where "sys (\<lambda>w. (Inr (lookup name w \<noteq> None) :: io_error + bool, w)) w = (r, w')" by fastforce
  then show ?thesis using alwaysD [OF a] by (cases r) (simp_all add: path_exists_def)
qed

section \<open>Files and buffered writers\<close>

text \<open>Operations on a state that ends in the world.\<close>

definition keeps_w :: "'s \<times> world \<Rightarrow> 's \<times> world \<Rightarrow> bool" where
  "keeps_w s s' \<longleftrightarrow> keeps (snd s) (snd s')"

interpretation pk: fault_relation keeps_w
  by unfold_locales (auto simp: keeps_w_def wk.refl intro: wk.trans)

lemmas [kept] = wk.retE pk.retE wk.retE' pk.retE' wk.bindE pk.bindE

lemma on_world_kept [kept]: "always keeps m \<Longrightarrow> always keeps_w (on_world m)"
  unfolding on_world_def by (erule always_zoom) (auto simp: keeps_w_def)

lemma on_writer_kept [kept]: "always keeps_w m \<Longrightarrow> always keeps_w (on_writer m)"
  unfolding on_writer_def by (erule always_zoom) (auto simp: keeps_w_def)

lemma bw_flush_kept [kept]: "always keeps_w bw_flush"
  by (auto simp: always_def keeps_w_def bw_flush_def split: prod.splits intro: write_loop_keeps)

lemma bw_write_all_kept [kept]: "always keeps_w (bw_write_all bs)"
proof (rule alwaysI)
  fix s :: "buf_writer \<times> world"
  obtain bw w where s: "s = (bw, w)" by fastforce
  have "always keeps_w (\<lambda>(bw, w). if length bs \<ge> BUF_CAPACITY
           then (case write_all (bw_file bw) bs w of (r, w') \<Rightarrow> (r, (bw, w')))
           else (Inr (), (bw\<lparr>bw_buf := bw_buf bw @ bs\<rparr>, w)))"
    using system_calls(11) by (auto simp: always_def keeps_w_def wk.refl split: prod.splits) (metis snd_conv)
  then have "always keeps_w (bindE (if length bs > BUF_CAPACITY - length (bw_buf bw) then bw_flush else retE ())
      (\<lambda>_ (bw, w). if length bs \<ge> BUF_CAPACITY
           then (case write_all (bw_file bw) bs w of (r, w') \<Rightarrow> (r, (bw, w')))
           else (Inr (), (bw\<lparr>bw_buf := bw_buf bw @ bs\<rparr>, w))))"
    by (intro kept)
  then show "keeps_w s (snd (bw_write_all bs s))"
    unfolding s bw_write_all_def by (auto simp: always_def pk.refl keeps_w_def wk.refl)
qed

lemma bw_drop_keeps: "keeps w (bw_drop bw w)"
  using bw_flush_kept by (auto simp: always_def keeps_w_def bw_drop_def)

lemma write_unflushed_kept [kept]: "always keeps_w (write_unflushed encoded)"
  unfolding write_unflushed_def by (intro kept) (auto simp: always_def keeps_w_def wk.refl Let_def)

lemma active_file_kept [kept]:
  "always keeps (af_create fid)" "always keeps_w (af_append encoded)" "always keeps_w (append_buffered encoded)"
  "always keeps_w flush_only"
  by (simp_all add: af_create_def af_append_def append_buffered_def flush_only_def kept)

lemma flush_then [kept]:
  fixes m :: "active_file \<Rightarrow> 'a io"
  assumes "\<And>x. always keeps (m x)"
  shows "always keeps_w (bindE (on_writer bw_flush) (\<lambda>_ (af, w). on_world (m af) (af, w)))"
proof (intro pk.bindE on_writer_kept bw_flush_kept alwaysI)
  fix s :: "active_file \<times> world"
  have "always keeps_w (on_world (m (fst s)) :: (active_file \<times> world, io_error, 'a) act)" by (intro kept assms)
  then show "keeps_w s (snd (case s of (af, w) \<Rightarrow> on_world (m af) (af, w)))"
    by (cases s) (simp add: always_def)
qed

lemma af_sync_kept [kept]: "always keeps_w af_sync" "always keeps_w sync_handle"
  unfolding af_sync_def sync_handle_def by (intro flush_then kept)+

lemma dfs_read_at_kept [kept]: "always keeps_w (dfs_read_at fid pos n)"
proof (rule alwaysI)
  fix s :: "data_file_set \<times> world"
  obtain fs w where s: "s = (fs, w)" by fastforce
  let ?open = "case map_of (dfs_readers fs) fid of
      Some f \<Rightarrow> retE f
    | None \<Rightarrow> bindE (on_world (open_read (data_path fid))) (\<lambda>f (fs, w).
        (Inr f, (fs\<lparr>dfs_readers := (fid, f) # dfs_readers fs\<rparr>, w)))"
  have "always keeps_w ?open"
    by (intro kept) (auto simp: always_def keeps_w_def wk.refl)
  then have "always keeps_w (bindE ?open (\<lambda>file. on_world (pread_exact file pos n)))"
    by (rule pk.bindE) (auto simp: pread_exact_def intro: kept)
  then show "keeps_w s (snd (dfs_read_at fid pos n s))"
    unfolding always_def dfs_read_at_def s prod.case by (rule spec)
qed

lemma discover_kept [kept]: "always keeps discover"
proof -
  have "always keeps (discover_loop names ids)" for names ids
    by (induction names arbitrary: ids) (simp_all only: discover_loop.simps, (intro kept always_sys | assumption)+)
  then show ?thesis unfolding discover_def by (intro kept)
qed

section \<open>Recovery and open\<close>

lemma keeps_reader [simp]: "keeps w (w\<lparr>w_outs := os, w_warnings := ws\<rparr>)"
  by (rule keeps_same) (simp_all add: data_of_def)

lemma keeps_warn [simp]: "keeps w (warn x w)"
  by (rule keeps_same) (simp_all add: data_of_def warn_def)

lemma scan_data_file_kept [kept]: "always keeps_w (scan_data_file C fid is_last)"
  unfolding scan_data_file_def by (intro kept) (auto simp: always_def keeps_w_def wk.refl split: prod.splits)

lemma try_scan_hint_file_kept [kept]: "always keeps_w (try_scan_hint_file C fid)"
  unfolding try_scan_hint_file_def
  by (intro kept) (auto simp: always_def keeps_w_def wk.refl split: prod.splits sum.splits)

lemma recover_kept [kept]: "always keeps_w (recover C fids)"
proof (induction fids)
  case (Cons fid fids)
  show ?case
  proof (rule alwaysI)
    fix s :: "keydir \<times> world"
    obtain kd w where s: "s = (kd, w)" by fastforce
    obtain b w' where p: "path_exists (hint_path fid) w = (b, w')" by fastforce
    have "always keeps_w (bindE (if b then try_scan_hint_file C fid else retE False) (\<lambda>used_hint.
        bindE (if \<not> used_hint then scan_data_file C fid (fids = []) else retE ()) (\<lambda>_. recover C fids)))"
      by (intro kept Cons.IH)
    then have "keeps_w (kd, w') (snd (recover C (fid # fids) s))"
      by (simp add: s p Let_def always_def)
    then show "keeps_w s (snd (recover C (fid # fids) s))"
      using path_exists_keeps [of w "hint_path fid"] p by (auto simp: s keeps_w_def intro: wk.trans)
  qed
qed (simp add: pk.retE')


section \<open>Appending\<close>

lemma run_kept: "always keeps_w m \<Longrightarrow> m (x, w) = (r, y, w') \<Longrightarrow> keeps w w'"
  by (drule alwaysD) (auto simp: keeps_w_def)

lemma on_af_kept [kept]: "always keeps_w m \<Longrightarrow> always keeps_w (on_af m)"
  unfolding on_af_def by (erule always_zoom) (auto simp: keeps_w_def)

lemma rotate_active_kept [kept]: "always keeps_w rotate_active"
proof -
  have new: "always keeps_w (bindE (on_world (af_create nid)) (\<lambda>af' ((_, gc, nid), w). (Inr (), ((af', gc, nid), w))))"
    for nid :: u32
    by (intro kept) (auto simp: always_def keeps_w_def wk.refl)
  have "always keeps_w (\<lambda>((af, gc, nid), w). bindE (on_world (af_create nid)) (\<lambda>af' ((_, gc, nid), w).
      (Inr (), ((af', gc, nid), w))) ((af, mark_all_durable gc, nid + 1), w))"
  proof (rule alwaysI)
    fix s :: append_state
    obtain af gc nid w where s: "s = ((af, gc, nid), w)" by (cases s) auto
    have "keeps_w ((af, mark_all_durable gc, nid + 1), w) (snd (bindE (on_world (af_create nid)) (\<lambda>af' ((_, gc, nid), w).
      (Inr (), ((af', gc, nid), w))) ((af, mark_all_durable gc, nid + 1), w)))"
      using new [of nid] unfolding always_def by (rule spec)
    then show "keeps_w s (snd ((\<lambda>((af, gc, nid), w). bindE (on_world (af_create nid)) (\<lambda>af' ((_, gc, nid), w).
      (Inr (), ((af', gc, nid), w))) ((af, mark_all_durable gc, nid + 1), w)) s))"
      unfolding s prod.case keeps_w_def snd_conv .
  qed
  then show ?thesis unfolding rotate_active_def by (intro pk.bindE on_af_kept af_sync_kept)
qed

lemma append_locked_kept [kept]: "always keeps_w (append_locked max_file_size encoded)"
proof -
  have "always keeps_w (\<lambda>((af, gc, nid), w). let (target_gen, gc) = record_pending gc
      in bindE (if af_len af \<ge> max_file_size then rotate_active else retE ()) (\<lambda>_.
         retE (file_id, value_pos, target_gen)) ((af, gc, nid), w))" for file_id :: u32 and value_pos :: u64
  proof (rule alwaysI)
    fix s :: append_state
    obtain af gc nid w where s: "s = ((af, gc, nid), w)" by (cases s) auto
    obtain t gc' where r: "record_pending gc = (t, gc')" by fastforce
    have "always keeps_w (bindE (if max_file_size \<le> af_len af then rotate_active else retE ()) (\<lambda>_. retE (file_id, value_pos, t)))"
      by (intro kept)
    then have "keeps_w ((af, gc', nid), w) (snd (bindE (if max_file_size \<le> af_len af then rotate_active else retE ())
        (\<lambda>_. retE (file_id, value_pos, t)) ((af, gc', nid), w)))"
      unfolding always_def by (rule spec)
    then show "keeps_w s (snd ((\<lambda>((af, gc, nid), w). let (target_gen, gc) = record_pending gc
      in bindE (if af_len af \<ge> max_file_size then rotate_active else retE ()) (\<lambda>_.
         retE (file_id, value_pos, target_gen)) ((af, gc, nid), w)) s))"
      unfolding s prod.case r Let_def keeps_w_def snd_conv .
  qed
  then show ?thesis unfolding append_locked_def by (intro pk.bindE on_af_kept active_file_kept always_prod)
qed

lemma gc_commit_kept:
  assumes "gc_commit t do_fsync st = Some y" and "always keeps_w do_fsync"
  shows "keeps_w (snd st) (snd (snd y))"
  using assms(2)
proof (induction t do_fsync st y rule: gc_commit.raw_induct)
  case (1 commit t do_fsync st y)
  show ?case
  proof (cases "t \<le> gc_max_durable_generation (fst st)")
    case True
    then have "y = (Inr (), st)" using 1(2) by simp
    then show ?thesis by (simp add: pk.refl)
  next
    case False
    obtain gc s where st: "st = (gc, s)" by (rule prod.exhaust)
    have ns: "\<not> gc_is_syncing gc" using 1(2) False by (auto simp: st split: if_splits)
    obtain res s' where f: "do_fsync s = (res, s')" by (rule prod.exhaust)
    have k: "keeps_w s s'" by (rule alwaysD [OF 1(3) f])
    obtain gc' where l: "lead do_fsync st = (res, gc', s')"
      by (simp add: st lead_def f begin_sync_def Let_def)
    show ?thesis
    proof (cases res)
      case (Inl e)
      then show ?thesis using 1(2) False ns l k by (auto simp: st)
    next
      case (Inr u)
      then have "commit t do_fsync (gc', s') = Some y" using 1(2) False ns l by (simp add: st)
      from 1(1) [OF this 1(3)] show ?thesis using k by (auto simp: st intro: pk.trans)
    qed
  qed
qed (rule assms(1))

lemma fsync_active_kept [kept]: "always keeps_w fsync_active"
  unfolding fsync_active_def by (intro kept)

lemma engine_append_kept:
  assumes "engine_append encoded (eg, w) = Some (r, eg', w')"
  shows "keeps w w'" and "eg_keydir eg' = eg_keydir eg" and "eg_files eg' = eg_files eg"
    and "eg_metrics eg' = eg_metrics eg" and "eg_opts eg' = eg_opts eg" and "eg_write_lock eg' = eg_write_lock eg"
proof -
  have "keeps w w' \<and> eg_keydir eg' = eg_keydir eg \<and> eg_files eg' = eg_files eg \<and> eg_metrics eg' = eg_metrics eg \<and>
    eg_opts eg' = eg_opts eg \<and> eg_write_lock eg' = eg_write_lock eg"
  proof (cases "eg_active eg")
    case None
    then show ?thesis using assms by (simp add: engine_append_def wk.refl)
  next
    case (Some af)
    obtain res af1 gc1 nid1 w1 where l: "append_locked (o_max_file_size (eg_opts eg)) encoded
        ((af, eg_gc eg, eg_next_file_id eg), w) = (res, ((af1, gc1, nid1), w1))"
      by (metis prod.exhaust)
    have k1: "keeps w w1" by (rule run_kept [OF append_locked_kept l])
    show ?thesis
    proof (cases res)
      case (Inl e)
      then show ?thesis using assms Some l k1 by (auto simp: engine_append_def Let_def)
    next
      case (Inr x)
      obtain fid vp t where x: "x = (fid, vp, t)" by (cases x)
      show ?thesis
      proof (cases "o_should_sync_on_put (eg_opts eg)")
        case False
        then show ?thesis using assms Some l k1 Inr x by (auto simp: engine_append_def Let_def)
      next
        case True
        obtain res2 gc2 af2 w2 where c: "gc_commit t fsync_active (gc1, (af1, w1)) = Some (res2, (gc2, (af2, w2)))"
          using assms Some l Inr x True by (auto simp: engine_append_def Let_def split: option.splits)
        have "keeps w1 w2" using gc_commit_kept [OF c fsync_active_kept] by (simp add: keeps_w_def)
        with k1 have "keeps w w2" by (rule wk.trans)
        then show ?thesis using assms Some l Inr x True c
          by (cases res2) (auto simp: engine_append_def Let_def)
      qed
    qed
  qed
  then show "keeps w w'" "eg_keydir eg' = eg_keydir eg" "eg_files eg' = eg_files eg"
    "eg_metrics eg' = eg_metrics eg" "eg_opts eg' = eg_opts eg" "eg_write_lock eg' = eg_write_lock eg" by simp_all
qed


section \<open>The operations of a handle\<close>

definition keeps_index :: "engine \<Rightarrow> engine \<Rightarrow> bool" where
  "keeps_index eg eg' \<longleftrightarrow> eg_keydir eg' = eg_keydir eg \<and> eg_opts eg' = eg_opts eg \<and> eg_write_lock eg' = eg_write_lock eg"

lemma engine_put_cases:
  assumes "engine_put C key val now (eg, w) = Some (r, eg', w')"
  obtains (refused) e where "r = Inl e" and "eg' = eg" and "w' = w"
  | (failed) e where "r = Inl e" and "engine_append (encode_entry C key val False now) (eg, w) = Some (Inl e, eg', w')"
  | (written) x eg1 ent where "r = Inr ()" and "engine_append (encode_entry C key val False now) (eg, w) = Some (Inr x, eg1, w')"
    and "eg' = eg_record RecordPut (eg1\<lparr>eg_keydir := keydir_insert key ent (eg_keydir eg1)\<rparr>)"
proof (cases "key = [] \<or> isl (require_write eg)")
  case True
  then show thesis using assms refused
    by (auto simp: engine_put_def require_write_def split: if_splits)
next
  case False
  let ?app = "engine_append (encode_entry C key val False now) (eg, w)"
  obtain u where rw: "key \<noteq> []" "require_write eg = Inr u" using False by (cases "require_write eg") auto
  show thesis
  proof (cases ?app)
    case None
    then show thesis using assms rw False by (simp add: engine_put_def)
  next
    case (Some y)
    obtain r1 eg1 w1 where y: "y = (r1, eg1, w1)" by (metis prod.exhaust)
    show thesis
    proof (cases r1)
      case (Inl e)
      then show thesis using assms rw False Some y failed [of e] by (auto simp: engine_put_def)
    next
      case (Inr x)
      then show thesis using assms rw False Some y written [of x eg1] by (cases x) (auto simp: engine_put_def)
    qed
  qed
qed

lemma engine_put_kept:
  assumes "engine_put C key val now (eg, w) = Some (r, eg', w')"
  shows "keeps w w' \<and> (isl r \<longrightarrow> keeps_index eg eg') \<and> (keydir_ok (eg_keydir eg) \<longrightarrow> keydir_ok (eg_keydir eg'))"
  using assms
proof (cases rule: engine_put_cases)
  case (failed e)
  then show ?thesis using engine_append_kept [OF failed(2)] by (simp add: keeps_index_def)
next
  case (written x eg1 ent)
  then show ?thesis using engine_append_kept [OF written(2)] by (simp add: eg_record_def)
qed (simp add: keeps_index_def wk.refl)

lemma engine_delete_cases:
  assumes "engine_delete C key now (eg, w) = Some (r, eg', w')"
  obtains (refused) e where "r = Inl e" and "eg' = eg" and "w' = w"
  | (absent) "r = Inr ()" and "eg' = eg_record RecordDelete eg" and "w' = w"
  | (failed) e where "r = Inl e" and "engine_append (encode_entry C key [] True now) (eg, w) = Some (Inl e, eg', w')"
  | (written) x eg1 where "r = Inr ()" and "engine_append (encode_entry C key [] True now) (eg, w) = Some (Inr x, eg1, w')"
    and "eg' = eg_record RecordDelete (eg1\<lparr>eg_keydir := snd (keydir_remove key (eg_keydir eg1))\<rparr>)"
proof (cases "key = [] \<or> isl (require_write eg) \<or> keydir_get key (eg_keydir eg) = None")
  case True
  then show thesis using assms refused absent
    by (auto simp: engine_delete_def require_write_def split: if_splits)
next
  case False
  let ?app = "engine_append (encode_entry C key [] True now) (eg, w)"
  obtain u ent where rw: "key \<noteq> []" "require_write eg = Inr u" "keydir_get key (eg_keydir eg) = Some ent"
    using False by (cases "require_write eg") auto
  show thesis
  proof (cases ?app)
    case None
    then show thesis using assms rw False by (simp add: engine_delete_def)
  next
    case (Some y)
    obtain r1 eg1 w1 where y: "y = (r1, eg1, w1)" by (metis prod.exhaust)
    show thesis
    proof (cases r1)
      case (Inl e)
      then show thesis using assms rw False Some y failed [of e] by (auto simp: engine_delete_def)
    next
      case (Inr x)
      then show thesis using assms rw False Some y written [of x eg1] by (cases x) (auto simp: engine_delete_def)
    qed
  qed
qed

lemma engine_delete_kept:
  assumes "engine_delete C key now (eg, w) = Some (r, eg', w')"
  shows "keeps w w' \<and> (isl r \<longrightarrow> keeps_index eg eg') \<and> (keydir_ok (eg_keydir eg) \<longrightarrow> keydir_ok (eg_keydir eg'))"
  using assms
proof (cases rule: engine_delete_cases)
  case (failed e)
  then show ?thesis using engine_append_kept [OF failed(2)] by (simp add: keeps_index_def)
next
  case (written x eg1)
  then show ?thesis using engine_append_kept [OF written(2)] by (simp add: eg_record_def)
qed (simp_all add: keeps_index_def wk.refl eg_record_def)

text \<open>Reading operations leave the index as it is.\<close>

definition reads_only :: "engine \<times> world \<Rightarrow> engine \<times> world \<Rightarrow> bool" where
  "reads_only s s' \<longleftrightarrow> keeps (snd s) (snd s') \<and> keeps_index (fst s) (fst s')"

interpretation ro: fault_relation reads_only
  by unfold_locales (auto simp: reads_only_def keeps_index_def wk.refl intro: wk.trans)

lemma read_value_kept: "always reads_only (read_value ent)"
  unfolding read_value_def
  by (intro always_map_err, rule always_zoom [OF dfs_read_at_kept])
    (auto simp: reads_only_def keeps_index_def keeps_w_def)

lemma engine_get_kept: "always reads_only (engine_get key)"
proof (rule alwaysI)
  fix s :: "engine \<times> world"
  obtain eg w where s: "s = (eg, w)" by fastforce
  have "always reads_only (case keydir_get key (eg_keydir eg) of
      Some ent \<Rightarrow> bindE (read_value ent) (\<lambda>v. retE (Some v)) | None \<Rightarrow> retE None)"
    by (intro always_option ro.bindE read_value_kept ro.retE)
  then have "always reads_only (bindE (case keydir_get key (eg_keydir eg) of
      Some ent \<Rightarrow> bindE (read_value ent) (\<lambda>v. retE (Some v)) | None \<Rightarrow> retE None)
      (\<lambda>val (eg, w). (Inr val, (eg_record RecordGet eg, w))))"
    by (rule ro.bindE) (auto simp: always_def reads_only_def keeps_index_def eg_record_def wk.refl)
  then show "reads_only s (snd (engine_get key s))"
    unfolding always_def engine_get_def s prod.case by (rule spec)
qed

lemma engine_fold_kept: "always reads_only (engine_fold ord f init)"
proof -
  have "always reads_only (fold_loop f items acc)" for items acc
    by (induction f items acc rule: fold_loop.induct)
      (simp_all only: fold_loop.simps, (intro ro.retE ro.bindE read_value_kept | assumption)+)
  then show ?thesis unfolding always_def engine_fold_def by (simp add: split_paired_all)
qed

lemma engine_sync_kept: "always reads_only engine_sync"
proof (rule alwaysI)
  fix s :: "engine \<times> world"
  obtain eg w where s: "s = (eg, w)" by fastforce
  show "reads_only s (snd (engine_sync s))"
  proof (cases "eg_active eg")
    case None
    then show ?thesis by (simp add: s engine_sync_def ro.refl)
  next
    case (Some af)
    obtain r af' w' where a: "af_sync (af, w) = (r, af', w')" by (metis prod.exhaust)
    have "keeps w w'" by (rule run_kept [OF af_sync_kept(1) a])
    then show ?thesis using Some a
      by (cases r) (simp_all add: s engine_sync_def reads_only_def keeps_index_def eg_record_def)
  qed
qed


section \<open>Opening and closing\<close>

text \<open>The files are kept, and the locks are what they were before.\<close>

definition keeps_files :: "world \<Rightarrow> world \<Rightarrow> bool" where
  "keeps_files w w' \<longleftrightarrow> keeps w (w'\<lparr>w_locks := w_locks w\<rparr>)"

lemma files_locks [simp]:
  "world_ok (w\<lparr>w_locks := ls\<rparr>) = world_ok w" "file_bytes n (w\<lparr>w_locks := ls\<rparr>) = file_bytes n w"
  by (simp_all add: world_ok_def file_bytes_def lookup_def data_of_def cong: if_cong)

lemma keeps_filesI: "keeps w w' \<Longrightarrow> keeps_files w (w'\<lparr>w_locks := ls\<rparr>)"
  by (simp add: keeps_files_def keeps_def)

lemma keeps_files_same: "keeps w w' \<Longrightarrow> keeps_files w w'"
  by (simp add: keeps_files_def keeps_def)

interpretation fk: fault_relation keeps_files
proof
  show "keeps_files s s" for s by (simp add: keeps_files_same wk.refl)
  show "keeps_files s u" if "keeps_files s t" "keeps_files t u" for s t u
    using that wk.trans [of s "t\<lparr>w_locks := w_locks s\<rparr>" "u\<lparr>w_locks := w_locks s\<rparr>"] by (simp add: keeps_files_def keeps_def)
qed

lemma open_files_kept: "always keeps (open_files C opts)"
  unfolding open_files_def
proof (intro wk.bindE discover_kept alwaysI)
  fix fids :: "u32 list" and w :: world
  obtain r kd w1 where rec: "recover C fids (keydir_new, w) = (r, kd, w1)" by (metis prod.exhaust)
  have k: "keeps w w1" by (rule run_kept [OF recover_kept rec])
  let ?next = "next_id_after fids"
  have "always keeps (bindE (if o_is_read_write opts then bindE (af_create ?next) (\<lambda>af. retE (Some af)) else retE None)
      (\<lambda>active. retE (kd, ?next, active)))"
    by (intro wk.bindE always_if active_file_kept wk.retE)
  then have "keeps w1 (snd (bindE (if o_is_read_write opts then bindE (af_create ?next) (\<lambda>af. retE (Some af)) else retE None)
      (\<lambda>active. retE (kd, ?next, active)) w1))"
    unfolding always_def by (rule spec)
  with k have "keeps w (snd (bindE (if o_is_read_write opts then bindE (af_create ?next) (\<lambda>af. retE (Some af)) else retE None)
      (\<lambda>active. retE (kd, ?next, active)) w1))"
    by (rule wk.trans)
  then show "keeps w (snd (case recover C fids (keydir_new, w) of
         (Inl e, (_, w)) \<Rightarrow> (Inl e, w)
       | (Inr _, (kd, w)) \<Rightarrow>
           (let next_id = next_id_after fids
            in bindE (if o_is_read_write opts
                      then bindE (af_create next_id) (\<lambda>af. retE (Some af)) else retE None)
                 (\<lambda>active. retE (kd, next_id, active)) w)))"
    using k by (cases r) (simp_all add: rec Let_def)
qed

lemma dirlock_acquire_kept:
  assumes "dirlock_acquire flk w = (r, w')" and "flock_ok flk"
  shows "keeps_files w w'" and "isl r \<Longrightarrow> w_locks w' = w_locks w" and "r = Inr i \<Longrightarrow> w_locks w' = i # w_locks w"
proof -
  obtain r1 w1 where c: "create_file LOCK_FILE w = (r1, w1)" by fastforce
  have k: "keeps w w1" by (rule alwaysD [OF system_calls(13) c])
  then have l: "w_locks w1 = w_locks w" by (simp add: keeps_def)
  have "keeps_files w w' \<and> (isl r \<longrightarrow> w_locks w' = w_locks w) \<and> (r = Inr i \<longrightarrow> w_locks w' = i # w_locks w)"
  proof (cases r1)
    case (Inl e)
    then show ?thesis using assms(1) c k l by (auto simp: dirlock_acquire_def bindE_def map_err_def keeps_files_same)
  next
    case (Inr f)
    then show ?thesis using assms c k l keeps_filesI [OF k]
      by (auto simp: dirlock_acquire_def bindE_def map_err_def keeps_files_same flock_ok_def split: if_splits)
  qed
  then show "keeps_files w w'" "isl r \<Longrightarrow> w_locks w' = w_locks w" "r = Inr i \<Longrightarrow> w_locks w' = i # w_locks w" by simp_all
qed

lemma engine_open_kept:
  assumes "engine_open C flk opts w = (r, w')" and "flock_ok flk"
  shows "keeps_files w w' \<and> (isl r \<longrightarrow> w_locks w' = w_locks w)"
proof -
  obtain r0 w0 where c: "create_dir_all w = (r0, w0)" by fastforce
  have k0: "keeps w w0" by (rule alwaysD [OF system_calls(6) c])
  show ?thesis
  proof (cases r0)
    case (Inl e)
    then show ?thesis using assms(1) c k0 by (auto simp: engine_open_def bindE_def map_err_def keeps_files_same keeps_def)
  next
    case (Inr u)
    let ?lock = "if o_is_read_write opts then bindE (dirlock_acquire flk) (\<lambda>file. retE (Some file)) else retE None"
    obtain lk w1 where l: "?lock w0 = (lk, w1)" by fastforce
    have k1: "keeps_files w0 w1" and ll: "isl lk \<Longrightarrow> w_locks w1 = w_locks w0" and
      lr: "lk = Inr x \<Longrightarrow> w_locks (dirlock_drop x w1) = w_locks w0" for x
      using l dirlock_acquire_kept [OF _ assms(2), of w0]
      by (auto simp: bindE_def dirlock_drop_def fk.refl split: if_splits prod.splits sum.splits)
    have k: "keeps_files w w1" "w_locks w0 = w_locks w"
      using fk.trans [OF keeps_files_same [OF k0] k1] k0 by (simp_all add: keeps_def)
    show ?thesis
    proof (cases lk)
      case (Inl e)
      then show ?thesis using assms(1) c Inr l k ll by (auto simp: engine_open_def bindE_def map_err_def)
    next
      case lock: (Inr x)
      obtain r2 w2 where o: "open_files C opts w1 = (r2, w2)" by fastforce
      have k2: "keeps w1 w2" by (rule alwaysD [OF open_files_kept o])
      have k3: "keeps_files w w2" by (rule fk.trans [OF k(1) keeps_files_same [OF k2]])
      have drop: "keeps_files w (dirlock_drop x w2)" "w_locks (dirlock_drop x w2) = w_locks w"
        using k3 k2 lr [OF lock] k(2) by (auto simp: dirlock_drop_def keeps_files_def keeps_def split: option.splits)
      show ?thesis
        using assms(1) c Inr l lock o k3 drop by (cases r2) (auto simp: engine_open_def bindE_def map_err_def)
    qed
  qed
qed

section \<open>Opening writes nothing\<close>

text \<open>
  Stronger than \<open>keeps\<close>: a data file that is there has the same bytes afterwards, and one that is new is empty.
\<close>

definition no_writes :: "world \<Rightarrow> world \<Rightarrow> bool" where
  "no_writes w w' \<longleftrightarrow> (world_ok w \<longrightarrow> world_ok w' \<and>
     (\<forall>fid. file_bytes (data_path fid) w' = file_bytes (data_path fid) w \<or>
        file_bytes (data_path fid) w = None \<and> file_bytes (data_path fid) w' = Some []))"

definition no_writes_w :: "'s \<times> world \<Rightarrow> 's \<times> world \<Rightarrow> bool" where
  "no_writes_w s s' \<longleftrightarrow> no_writes (snd s) (snd s')"

interpretation nw: fault_relation no_writes
proof
  show "no_writes s s" for s by (simp add: no_writes_def)
  show "no_writes s u" if "no_writes s t" "no_writes t u" for s t u
    using that unfolding no_writes_def by (metis option.distinct(1))
qed

interpretation np: fault_relation no_writes_w
  by unfold_locales (auto simp: no_writes_w_def nw.refl intro: nw.trans)

named_theorems unwritten \<open>operations that write to no data file\<close>

lemmas [unwritten] = nw.retE np.retE nw.retE' np.retE' nw.bindE np.bindE always_map_err always_if always_option

lemma no_writes_same:
  assumes "w_dir w' = w_dir w" and "length (w_inodes w') = length (w_inodes w)" and "\<And>i. data_of i w' = data_of i w"
  shows "no_writes w w'"
proof -
  have "lookup n w' = lookup n w" for n using assms(1) by (simp add: lookup_def)
  then show ?thesis using assms world_ok_cong [of w' w] by (auto simp: no_writes_def file_bytes_def)
qed

lemma no_writes_fields [simp]:
  "no_writes w (w\<lparr>w_outs := os\<rparr>)" "no_writes w (w\<lparr>w_locks := ls\<rparr>)" "no_writes w (w\<lparr>w_outs := os, w_warnings := ws\<rparr>)"
  "no_writes w (warn x w)" "no_writes w (dirlock_drop lk w)"
  by (rule no_writes_same; simp add: data_of_def warn_def dirlock_drop_def split: option.splits)+

lemma no_writes_new_file:
  assumes "lookup name w = None"
  shows "no_writes w (snd (new_file name w))"
proof -
  obtain i w' where f: "new_file name w = (Inr i, w')" by (simp add: new_file_def)
  have "world_ok w' \<and> (\<forall>n. file_bytes n w' = (if n = name then Some [] else file_bytes n w))" if "world_ok w"
    using new_file_facts [OF that assms f] by simp
  moreover have "file_bytes name w = None" using assms by (simp add: file_bytes_def)
  ultimately show ?thesis by (auto simp: no_writes_def f)
qed

lemma no_writes_truncate:
  assumes "lookup name w = Some i" and "\<And>fid. name \<noteq> data_path fid"
  shows "no_writes w (w\<lparr>w_inodes := (w_inodes w)[i := \<lparr>i_data = [], i_durable = 0\<rparr>]\<rparr>)" (is "no_writes w ?w")
proof -
  have l: "lookup n ?w = lookup n w" for n by (simp add: lookup_def)
  have "file_bytes (data_path fid) ?w = file_bytes (data_path fid) w" if "world_ok w" for fid
  proof (cases "lookup (data_path fid) w")
    case (Some j)
    then have "j \<noteq> i" using lookup_inj [OF that assms(1), of "data_path fid"] assms(2) [of fid] by auto
    then show ?thesis using Some by (simp add: file_bytes_def l data_of_def)
  qed (simp add: file_bytes_def l)
  moreover have "world_ok ?w = world_ok w" by (rule world_ok_cong) simp_all
  ultimately show ?thesis by (simp add: no_writes_def)
qed

lemma no_writes_sys [unwritten]: "always no_writes m \<Longrightarrow> always no_writes (sys m)"
  unfolding always_def sys_def Let_def
  by (auto split: option.splits intro: nw.trans [OF no_writes_fields(1)])

lemma read_calls_unwritten [unwritten]:
  "always no_writes (open_append name)" "always no_writes (open_read name)" "always no_writes (file_len i)"
  "always no_writes (path_len name)" "always no_writes (try_clone i)" "always no_writes create_dir_all"
  "always no_writes read_dir" "always no_writes (read_file name)" "always no_writes (create_file LOCK_FILE)"
proof -
  have same: "always no_writes (sys (\<lambda>w. (f w, w)))" for f :: "world \<Rightarrow> io_error + 'x"
    by (rule no_writes_sys) (simp add: always_def nw.refl)
  show opn: "always no_writes (open_read name)" for name unfolding open_read_def
    by (rule no_writes_sys) (auto simp: always_def nw.refl split: option.splits)
  show "always no_writes (open_append name)" unfolding open_append_def
    by (rule no_writes_sys) (auto simp: always_def nw.refl no_writes_new_file split: option.splits)
  show "always no_writes (file_len i)" "always no_writes (try_clone i)" "always no_writes create_dir_all"
    "always no_writes read_dir"
    using same by (simp_all add: file_len_def try_clone_def create_dir_all_def read_dir_def retE_def [abs_def])
  show "always no_writes (path_len name)" unfolding path_len_def
    by (rule no_writes_sys) (auto simp: always_def nw.refl split: option.splits)
  show "always no_writes (read_file name)" unfolding read_file_def by (intro nw.bindE opn same)
  show "always no_writes (create_file LOCK_FILE)" unfolding create_file_def
    by (rule no_writes_sys)
      (auto simp: always_def no_writes_new_file no_writes_truncate [OF _ lock_not_data] split: option.splits)
qed

lemma path_exists_unwritten: "no_writes w (snd (path_exists name w))"
proof -
  have a: "always no_writes (sys (\<lambda>w. (Inr (lookup name w \<noteq> None) :: io_error + bool, w)))"
    by (rule no_writes_sys) (simp add: always_def nw.refl)
  obtain r w' where "sys (\<lambda>w. (Inr (lookup name w \<noteq> None) :: io_error + bool, w)) w = (r, w')" by fastforce
  then show ?thesis using alwaysD [OF a] by (cases r) (simp_all add: path_exists_def)
qed

lemma on_world_unwritten [unwritten]: "always no_writes m \<Longrightarrow> always no_writes_w (on_world m)"
  unfolding on_world_def by (erule always_zoom) (auto simp: no_writes_w_def)

lemma recovery_unwritten [unwritten]:
  "always no_writes (af_create fid)" "always no_writes discover" "always no_writes_w (scan_data_file C fid is_last)"
  "always no_writes_w (try_scan_hint_file C fid)"
proof -
  have "always no_writes (discover_loop names ids)" for names ids
    by (induction names arbitrary: ids) (simp_all only: discover_loop.simps, (intro unwritten | assumption)+)
  then show "always no_writes discover" unfolding discover_def by (intro unwritten)
  show "always no_writes (af_create fid)" unfolding af_create_def by (intro unwritten)
  show "always no_writes_w (scan_data_file C fid is_last)" unfolding scan_data_file_def
    by (intro unwritten) (auto simp: always_def no_writes_w_def nw.refl split: prod.splits)
  show "always no_writes_w (try_scan_hint_file C fid)" unfolding try_scan_hint_file_def
    by (intro unwritten) (auto simp: always_def no_writes_w_def nw.refl split: prod.splits sum.splits)
qed

lemma recover_unwritten [unwritten]: "always no_writes_w (recover C fids)"
proof (induction fids)
  case (Cons fid fids)
  show ?case
  proof (rule alwaysI)
    fix s :: "keydir \<times> world"
    obtain kd w where s: "s = (kd, w)" by fastforce
    obtain b w' where p: "path_exists (hint_path fid) w = (b, w')" by fastforce
    have "always no_writes_w (bindE (if b then try_scan_hint_file C fid else retE False) (\<lambda>used_hint.
        bindE (if \<not> used_hint then scan_data_file C fid (fids = []) else retE ()) (\<lambda>_. recover C fids)))"
      by (intro unwritten Cons.IH)
    then have "no_writes_w (kd, w') (snd (recover C (fid # fids) s))"
      by (simp add: s p Let_def always_def)
    then show "no_writes_w s (snd (recover C (fid # fids) s))"
      using path_exists_unwritten [of w "hint_path fid"] p by (auto simp: s no_writes_w_def intro: nw.trans)
  qed
qed (simp add: np.retE')

lemma open_files_unwritten [unwritten]: "always no_writes (open_files C opts)"
  unfolding open_files_def
proof (intro nw.bindE recovery_unwritten alwaysI)
  fix fids :: "u32 list" and w :: world
  obtain r kd w1 where rec: "recover C fids (keydir_new, w) = (r, kd, w1)" by (metis prod.exhaust)
  have k: "no_writes w w1" using alwaysD [OF recover_unwritten rec] by (simp add: no_writes_w_def)
  define rest where "rest = (let next_id = next_id_after fids
     in bindE (if o_is_read_write opts then bindE (af_create next_id) (\<lambda>af. retE (Some af)) else retE None)
       (\<lambda>active. retE (kd, next_id, active)))"
  have "always no_writes rest" unfolding rest_def Let_def by (intro unwritten)
  then have "no_writes w (snd (rest w1))" using k unfolding always_def by (blast intro: nw.trans)
  then show "no_writes w (snd (case recover C fids (keydir_new, w) of
         (Inl e, (_, w)) \<Rightarrow> (Inl e, w)
       | (Inr _, (kd, w)) \<Rightarrow>
           (let next_id = next_id_after fids
            in bindE (if o_is_read_write opts
                      then bindE (af_create next_id) (\<lambda>af. retE (Some af)) else retE None)
                 (\<lambda>active. retE (kd, next_id, active)) w)))"
    using k by (cases r) (simp_all add: rec rest_def Let_def)
qed

lemma engine_open_unwritten: "always no_writes (engine_open C flk opts)"
  unfolding engine_open_def
proof (intro unwritten)
  show "always no_writes (dirlock_acquire flk)" unfolding dirlock_acquire_def
    by (intro unwritten) (auto simp: always_def nw.refl split: option.splits)
  show "always no_writes (\<lambda>w. case open_files C opts w of
         (Inl e, w) \<Rightarrow> (Inl (Io e), dirlock_drop lk w)
       | (Inr (kd, next_id, active), w) \<Rightarrow>
           (Inr \<lparr>eg_keydir = kd, eg_files = dfs_new, eg_active = active, eg_gc = gc_new,
                 eg_next_file_id = next_id + 1, eg_metrics = (if o_metrics opts then Some [] else None),
                 eg_opts = opts, eg_write_lock = lk\<rparr>, w))" for lk
    using open_files_unwritten [of C opts]
    by (auto simp: always_def split: prod.splits sum.splits intro: nw.trans) (metis snd_conv nw.trans no_writes_fields(5))+
qed

lemma dirlock_drop_kept: "keeps w w' \<Longrightarrow> keeps_files w (dirlock_drop lk w')"
  by (auto simp: dirlock_drop_def keeps_files_same keeps_filesI split: option.splits)

lemma engine_drop_kept: "keeps_files w (engine_drop (eg, w))"
  by (auto simp: engine_drop_def wk.refl bw_drop_keeps intro!: dirlock_drop_kept split: option.splits)

lemma engine_close_kept: "keeps_files w (snd (engine_close (eg, w)))"
proof (cases "eg_active eg")
  case None
  then show ?thesis by (simp add: engine_close_def engine_drop_kept)
next
  case (Some af)
  obtain r af' w' where a: "af_sync (af, w) = (r, af', w')" by (metis prod.exhaust)
  have "keeps_files w w'" by (rule keeps_files_same [OF run_kept [OF af_sync_kept(1) a]])
  then show ?thesis using Some a fk.trans [OF _ engine_drop_kept] by (simp add: engine_close_def)
qed


section \<open>Merging\<close>

text \<open>The states of the output writer, of what merge shares with the engine, and of the copying loop.\<close>

definition keeps_m :: "'h merge_writer \<times> u32 \<times> world \<Rightarrow> 'h merge_writer \<times> u32 \<times> world \<Rightarrow> bool" where
  "keeps_m s s' \<longleftrightarrow> keeps (snd (snd s)) (snd (snd s'))"

definition keeps_s :: "shared \<Rightarrow> shared \<Rightarrow> bool" where
  "keeps_s sh sh' \<longleftrightarrow> keeps (sh_world sh) (sh_world sh') \<and> (keydir_ok (sh_keydir sh) \<longrightarrow> keydir_ok (sh_keydir sh'))"

definition keeps_c :: "'h copy_state \<Rightarrow> 'h copy_state \<Rightarrow> bool" where
  "keeps_c cs cs' \<longleftrightarrow> keeps_s (cs_sh cs) (cs_sh cs')"

interpretation mk: fault_relation keeps_m
  by unfold_locales (auto simp: keeps_m_def wk.refl intro: wk.trans)

interpretation sk: fault_relation keeps_s
  by unfold_locales (auto simp: keeps_s_def wk.refl intro: wk.trans)

interpretation ck: fault_relation keeps_c
  by unfold_locales (auto simp: keeps_c_def sk.refl intro: sk.trans)

lemmas [kept] = mk.retE mk.retE' mk.bindE sk.retE sk.retE' sk.bindE ck.retE ck.retE' ck.bindE

text \<open>
  What the other threads do in the window before a repoint keeps the files, too: an assumption on the environment,
  discharged for no threads at all here and for threads that put and delete in \<open>MergeFaults\<close>.
\<close>

definition hook_ok :: "hook \<Rightarrow> bool" where
  "hook_ok hook \<longleftrightarrow> (\<forall>key sh. keeps_s sh (hook key sh))"

lemma no_hook_ok: "hook_ok no_hook"
  by (simp add: hook_ok_def no_hook_def sk.refl)

lemma on_data_kept [kept]: "always keeps_w m \<Longrightarrow> always keeps_m (on_data m)"
  unfolding on_data_def by (erule always_zoom) (auto simp: keeps_w_def keeps_m_def)

lemma on_hint_kept [kept]: "always keeps_w m \<Longrightarrow> always keeps_m (on_hint m)"
  unfolding on_hint_def by (erule always_zoom) (auto simp: keeps_w_def keeps_m_def)

lemma modify_mw_kept [kept]: "always keeps_m (modify_mw f)"
  by (auto simp: always_def modify_mw_def keeps_m_def wk.refl)

text \<open>An operation that first changes a part of its state other than the world.\<close>

lemma keeps_w_from: "always keeps_w m \<Longrightarrow> keeps_w (x, w) (snd (m (y, w)))"
  by (auto simp: always_def keeps_w_def)

lemma keeps_m_from: "always keeps_m m \<Longrightarrow> keeps_m (x, u, w) (snd (m (y, v, w)))"
  by (auto simp: always_def keeps_m_def)

lemma open_output_kept [kept]: "always keeps_w open_output"
proof (rule alwaysI)
  fix s :: "u32 \<times> world"
  obtain nid w where s: "s = (nid, w)" by fastforce
  show "keeps_w s (snd (open_output s))"
    unfolding s open_output_def prod.case Let_def by (intro keeps_w_from kept)
qed

lemma mw_new_kept: "always keeps_w (mw_new C)"
  unfolding mw_new_def by (intro kept)

lemma close_hint_kept [kept]: "always keeps_m (close_current_hint_file C)"
proof (rule alwaysI)
  fix s :: "'a merge_writer \<times> u32 \<times> world"
  obtain mw nid w where s: "s = (mw, nid, w)" by (cases s)
  show "keeps_m s (snd (close_current_hint_file C s))"
    unfolding s close_current_hint_file_def prod.case Let_def by (intro keeps_m_from kept)
qed

lemma mw_rotate_kept [kept]: "always keeps_m (mw_rotate C)"
proof -
  have z: "always keeps_m (zoom snd (\<lambda>s (mw, _). (mw, s)) open_output)"
    by (rule always_zoom [OF open_output_kept]) (auto simp: keeps_w_def keeps_m_def)
  show ?thesis
    unfolding mw_rotate_def
  proof (intro mk.bindE kept alwaysI)
    fix s :: "'a merge_writer \<times> u32 \<times> world"
    obtain mw nid w where s: "s = (mw, nid, w)" by (cases s)
    show "keeps_m s (snd (case s of (mw, s) \<Rightarrow> bindE (zoom snd (\<lambda>s (mw, _). (mw, s)) open_output) (\<lambda>(data, hint).
      modify_mw (\<lambda>mw. mw\<lparr>mw_data := data, mw_hint := hint, mw_hint_crc := hasher_new C,
       mw_pending_since_flush := 0\<rparr>)) (mw, s)))"
      unfolding s prod.case by (intro keeps_m_from kept z)
  qed
qed

lemma rotate_or_flush_kept [kept]: "always keeps_m (rotate_or_flush C max_file_size)"
proof (rule alwaysI)
  fix s :: "'a merge_writer \<times> u32 \<times> world"
  obtain mw nid w where s: "s = (mw, nid, w)" by (cases s)
  show "keeps_m s (snd (rotate_or_flush C max_file_size s))"
    unfolding s rotate_or_flush_def prod.case flush_batch_def by (intro keeps_m_from kept)
qed

lemma write_live_entry_kept [kept]: "always keeps_m (write_live_entry C max_file_size e)"
  unfolding write_live_entry_def write_record_def Let_def by (intro kept)

lemma mw_finish_kept [kept]: "always keeps_m (mw_finish C)"
  unfolding mw_finish_def by (intro kept)


lemma apply_repoint_kept: "hook_ok hook \<Longrightarrow> keeps_s sh (apply_repoint hook x sh)"
proof (cases x)
  case (fields key old new)
  assume "hook_ok hook"
  then have "keeps_s sh (hook key sh)" by (simp add: hook_ok_def)
  moreover have "keeps_s sh' (sh'\<lparr>sh_keydir := snd (cas_repoint key old new (sh_keydir sh'))\<rparr>)" for sh'
    by (simp add: keeps_s_def wk.refl)
  ultimately show ?thesis using fields by (simp add: apply_repoint_def Let_def sk.trans)
qed

lemma drain_repoints_kept: "hook_ok hook \<Longrightarrow> keeps_c cs (drain_repoints hook cs)"
proof -
  assume h: "hook_ok hook"
  have "keeps_s sh (fold (apply_repoint hook) items sh)" for items sh
    by (induction items arbitrary: sh) (auto simp: sk.refl intro: sk.trans apply_repoint_kept [OF h])
  then show ?thesis
    by (simp add: keeps_c_def drain_repoints_def apply_pending_repoints_def pq_drain_all_def Let_def)
qed

lemma on_mw_kept [kept]: "always keeps_m m \<Longrightarrow> always keeps_c (on_mw m)"
  unfolding on_mw_def by (erule always_zoom) (auto simp: keeps_m_def keeps_c_def keeps_s_def)

lemma keeps_c_record: "keeps_c cs (cs_record x cs)"
  by (simp add: keeps_c_def keeps_s_def cs_record_def wk.refl)

lemma copy_one_kept [kept]:
  assumes "hook_ok hook"
  shows "always keeps_c (copy_one C max_file_size hook fid x highest)"
proof (rule alwaysI)
  fix cs :: "'a copy_state"
  obtain offset e where x: "x = (offset, e)" by fastforce
  let ?vp = "offset + of_nat HEADER_SIZE + ucast (eh_key_size (en_header e))"
  let ?next = "\<lambda>(new_file_id, new_value_pos, flushed) (cs :: 'a copy_state).
      let max_output_id = max highest (current_file_id (cs_writer cs));
          cs = cs\<lparr>cs_copied := cs_copied cs + 1,
            cs_pending := pq_queue e fid new_file_id ?vp new_value_pos (cs_pending cs)\<rparr>
      in (Inr max_output_id :: io_error + u32,
          if flushed then drain_repoints hook (cs_record (RecordPendingQueueDepth (pq_len (cs_pending cs))) cs) else cs)"
  have upd: "keeps_c cs (cs\<lparr>cs_copied := n, cs_pending := q\<rparr>)" for cs :: "'a copy_state" and n q
    by (simp add: keeps_c_def sk.refl)
  have step: "keeps_c cs (if f then drain_repoints hook (cs_record z cs') else cs')" if "keeps_c cs cs'" for cs cs' :: "'a copy_state" and f z
    using that ck.trans [OF that ck.trans [OF keeps_c_record drain_repoints_kept [OF assms]]] by simp
  have "always keeps_c (?next y)" for y
  proof (cases y)
    case (fields a b f)
    show ?thesis unfolding fields always_def Let_def prod.case snd_conv by (intro allI step upd)
  qed
  then have "always keeps_c (bindE (on_mw (write_live_entry C max_file_size e)) ?next)"
    by (intro ck.bindE on_mw_kept write_live_entry_kept)
  then have "keeps_c cs (snd (bindE (on_mw (write_live_entry C max_file_size e)) ?next cs))"
    unfolding always_def by (rule spec)
  then show "keeps_c cs (snd (copy_one C max_file_size hook fid x highest cs))"
    unfolding x copy_one_def prod.case Let_def by (rule ck.unless)
qed

lemma copy_forward_kept [kept]:
  assumes "hook_ok hook"
  shows "always keeps_c (copy_forward_all_live_entries C max_file_size hook fids highest)"
proof -
  have entries: "always keeps_c (copy_entries C max_file_size hook fid xs highest)" for fid xs highest
    by (induction xs arbitrary: highest) (simp_all only: copy_entries.simps, (intro kept assms | assumption)+)
  have "always keeps (read_all_entries C fid)" for fid
    unfolding read_all_entries_def by (intro kept) (auto simp: always_def split: prod.splits)
  then have "always keeps_c (zoom (\<lambda>cs. sh_world (cs_sh cs)) (\<lambda>w cs. cs\<lparr>cs_sh := (cs_sh cs)\<lparr>sh_world := w\<rparr>\<rparr>)
      (read_all_entries C fid))" for fid
    by (rule always_zoom) (simp add: keeps_c_def keeps_s_def)
  then have one: "always keeps_c (copy_forward_live_file_entries C max_file_size hook fid highest)" for fid highest
    unfolding copy_forward_live_file_entries_def by (intro ck.bindE entries)
  show ?thesis
    by (induction fids arbitrary: highest) (simp_all only: copy_forward_all_live_entries.simps, (intro kept one | assumption)+)
qed

lemma finish_kept [kept]: "hook_ok hook \<Longrightarrow> always keeps_c (finish_and_apply_pending_repoints C hook)"
  unfolding finish_and_apply_pending_repoints_def
  by (intro kept alwaysI) (auto intro: drain_repoints_kept ck.trans [OF keeps_c_record drain_repoints_kept])


lemma on_sh_world_kept: "always keeps m \<Longrightarrow> always keeps_s (on_sh_world m)"
  unfolding on_sh_world_def by (erule always_zoom) (simp add: keeps_s_def)

lemma restore_active_file_kept: "always keeps_s (restore_active_file highest)"
proof (rule alwaysI)
  fix sh :: shared
  have "always keeps_s (zoom (\<lambda>sh. ((sh_active sh, sh_gc sh, sh_next_file_id sh), sh_world sh))
      (\<lambda>((af, gc, nid), w) sh. sh\<lparr>sh_active := af, sh_gc := gc, sh_next_file_id := nid, sh_world := w\<rparr>) rotate_active)"
    by (rule always_zoom [OF rotate_active_kept]) (auto simp: keeps_w_def keeps_s_def)
  then show "keeps_s sh (snd (restore_active_file highest sh))"
    by (simp add: restore_active_file_def always_def sk.refl)
qed

lemma mw_drop_keeps: "keeps w (mw_drop mw w)"
  unfolding mw_drop_def by (rule wk.trans [OF bw_drop_keeps bw_drop_keeps])

lemma compact_kept: "hook_ok hook \<Longrightarrow> always keeps_s (compact C max_file_size hook fids)"
proof (rule alwaysI)
  fix sh :: shared
  assume h: "hook_ok hook"
  obtain r nid w where n: "mw_new C (sh_next_file_id sh, sh_world sh) = (r, nid, w)" by (metis prod.exhaust)
  have k: "keeps (sh_world sh) w" by (rule run_kept [OF mw_new_kept n])
  show "keeps_s sh (snd (compact C max_file_size hook fids sh))"
  proof (cases r)
    case (Inl e)
    then show ?thesis using n k by (simp add: compact_def keeps_s_def)
  next
    case (Inr writer)
    let ?copy = "bindE (copy_forward_all_live_entries C max_file_size hook fids (current_file_id writer)) (\<lambda>highest.
                bindE (finish_and_apply_pending_repoints C hook) (\<lambda>_. retE highest))"
    let ?cs = "\<lparr>cs_sh = sh\<lparr>sh_next_file_id := nid, sh_world := w\<rparr>, cs_writer = writer, cs_pending = [], cs_copied = 0\<rparr>"
    obtain res cs' where c: "?copy ?cs = (res, cs')" by fastforce
    have "always keeps_c ?copy" by (intro kept h)
    from alwaysD [OF this c] have "keeps_s (sh\<lparr>sh_next_file_id := nid, sh_world := w\<rparr>) (cs_sh cs')"
      by (simp add: keeps_c_def)
    then have "keeps_s sh ((cs_sh cs')\<lparr>sh_world := mw_drop (cs_writer cs') (sh_world (cs_sh cs'))\<rparr>)"
      using k mw_drop_keeps wk.trans by (simp add: keeps_s_def) blast
    then show ?thesis using n Inr c by (simp add: compact_def Let_def)
  qed
qed

lemma remove_old_index: "\<exists>fs w. remove_old_input_files fids s = (fs, w)"
  by (cases "remove_old_input_files fids s") simp

lemma merge_hook_index:
  assumes "hook_ok hook" and "keydir_ok (sh_keydir sh)"
  shows "keydir_ok (sh_keydir (snd (merge_with_repoint_hook C max_file_size hook sh)))"
proof -
  obtain r1 sh1 where d: "on_sh_world (collect_input_ids (af_file_id (sh_active sh))) sh = (r1, sh1)" by fastforce
  have "always keeps (collect_input_ids fid)" for fid unfolding collect_input_ids_def by (intro kept)
  then have k1: "keydir_ok (sh_keydir sh1)"
    using alwaysD [OF on_sh_world_kept d] assms(2) by (simp add: keeps_s_def)
  show ?thesis
  proof (cases r1)
    case (Inl e)
    then show ?thesis using d k1 by (simp add: merge_with_repoint_hook_def map_err_def bindE_def)
  next
    case (Inr ids)
    obtain r2 sh2 where c: "compact C max_file_size hook ids sh1 = (r2, sh2)" by fastforce
    have k2: "keydir_ok (sh_keydir sh2)" using alwaysD [OF compact_kept [OF assms(1)] c] k1 by (simp add: keeps_s_def)
    show ?thesis
    proof (cases r2)
      case (Inl e)
      then show ?thesis using d Inr c k1 k2 by (simp add: merge_with_repoint_hook_def map_err_def bindE_def)
    next
      case r2: (Inr y)
      obtain highest copied where y: "y = (highest, copied)" by fastforce
      obtain fs w where rm: "remove_old_input_files ids (sh_files sh2, sh_world sh2) = (fs, w)" by fastforce
      obtain r3 sh3 where r3: "restore_active_file highest (sh2\<lparr>sh_files := fs, sh_world := w\<rparr>) = (r3, sh3)" by fastforce
      have "keydir_ok (sh_keydir sh3)" using alwaysD [OF restore_active_file_kept r3] k2 by (simp add: keeps_s_def)
      then show ?thesis using d Inr c k1 r2 y rm r3
        by (cases r3) (auto simp: merge_with_repoint_hook_def map_err_def bindE_def)
    qed
  qed
qed


lemma engine_merge_index:
  "keydir_ok (eg_keydir eg) \<Longrightarrow> keydir_ok (eg_keydir (fst (snd (engine_merge C (eg, w)))))"
proof (cases "isl (require_write eg) \<or> eg_active eg = None")
  case True
  then show "keydir_ok (eg_keydir eg) \<Longrightarrow> ?thesis"
    by (auto simp: engine_merge_def split: sum.splits option.splits)
next
  case False
  then obtain u af where a: "require_write eg = Inr u" "eg_active eg = Some af" by (cases "require_write eg") auto
  obtain r sh where m: "merge C (o_max_file_size (eg_opts eg)) (eg_share eg af w) = (r, sh)" by fastforce
  assume "keydir_ok (eg_keydir eg)"
  then have "keydir_ok (sh_keydir sh)"
    using merge_hook_index [OF no_hook_ok, of "eg_share eg af w" C "o_max_file_size (eg_opts eg)"] m
    by (simp add: merge_def eg_share_def)
  then show ?thesis using a m by (simp add: engine_merge_def eg_unshare_def eg_record_def)
qed

section \<open>A full disk\<close>

text \<open>
  A handle on one empty data file, on a disk that takes five more bytes and then reports \<open>ENOSPC\<close>, and a
  directory that cannot be read.
\<close>

definition full_disk :: world where
  "full_disk = \<lparr>w_dir = [(data_path 0, 0)], w_inodes = [\<lparr>i_data = [], i_durable = 0\<rparr>], w_locks = [],
     w_outs = [Short 5, Fail (OsError 28)], w_warnings = []\<rparr>"

definition small_handle :: engine where
  "small_handle = \<lparr>eg_keydir = keydir_new, eg_files = dfs_new,
     eg_active = Some \<lparr>af_file_id = 0, af_writer = bw_new 0, af_read_handle = 0, af_offset = 0\<rparr>, eg_gc = gc_new,
     eg_next_file_id = 1, eg_metrics = None, eg_opts = default_options, eg_write_lock = None\<rparr>"

definition two_files :: "outcome list \<Rightarrow> shared" where
  "two_files outs = \<lparr>sh_keydir = keydir_new, sh_files = dfs_new,
     sh_active = \<lparr>af_file_id = 1, af_writer = bw_new 1, af_read_handle = 1, af_offset = 0\<rparr>, sh_gc = gc_new,
     sh_next_file_id = 2, sh_metrics = None,
     sh_world = \<lparr>w_dir = [(data_path 1, 1), (data_path 0, 0)],
       w_inodes = [\<lparr>i_data = [], i_durable = 0\<rparr>, \<lparr>i_data = [], i_durable = 0\<rparr>], w_locks = [],
       w_outs = outs, w_warnings = []\<rparr>\<rparr>"

definition plain_flock :: flock where
  "plain_flock i L = (if i \<in> set L then None else Some (i # L))"

text \<open>A directory with one data file that cannot be listed.\<close>

definition unreadable :: world where
  "unreadable = \<lparr>w_dir = [(data_path 0, 0)], w_inodes = [\<lparr>i_data = [1, 2, 3], i_durable = 0\<rparr>], w_locks = [],
     w_outs = [Fine, Fine, Fail (OsError 5)], w_warnings = []\<rparr>"

lemma full_disk_put:
  "\<exists>eg' w'. engine_put byte_sum [1] [2] 3 (small_handle, full_disk) = Some (Inl (Io (OsError 28)), eg', w')"
proof -
  have "map_option fst (engine_put byte_sum [1] [2] 3 (small_handle, full_disk)) = Some (Inl (Io (OsError 28)))"
    by code_simp
  then obtain y where "engine_put byte_sum [1] [2] 3 (small_handle, full_disk) = Some y" "fst y = Inl (Io (OsError 28))"
    unfolding map_option_eq_Some by blast
  then show ?thesis by (metis prod.collapse)
qed

lemma unreadable_open: "fst (engine_open byte_sum plain_flock default_options unreadable) = Inl (Io (OsError 5))"
  using lock_not_data [of 0]
  by (simp add: unreadable_def engine_open_def bindE_def map_err_def create_dir_all_def sys_def retE_def
      dirlock_acquire_def create_file_def lookup_def new_file_def plain_flock_def open_files_def discover_def read_dir_def
      default_options_def)

lemma two_files_compact: "fst (compact byte_sum 100 no_hook [0] (two_files [Fail (OsError 28)])) = Inl (OsError 28)"
  by code_simp

lemma two_files_collect:
  "on_sh_world (collect_input_ids (af_file_id (sh_active (two_files [Fine, Fine, Fine, Fail (OsError 28)]))))
     (two_files [Fine, Fine, Fine, Fail (OsError 28)]) = (Inr [0], two_files [Fail (OsError 28)])"
  by (simp add: two_files_def on_sh_world_def zoom_def collect_input_ids_def discover_def read_dir_def sys_def bindE_def)

section \<open>Properties\<close>

text \<open>
  C21: Whatever system calls fail or stop short, in any order, no operation but a merge removes a data file or
  changes a byte that was in one: data files are only extended.
\<close>

theorem faults_keep_data:
  shows "(engine_put C key val now (eg, w) = Some (r, eg', w') \<longrightarrow> keeps w w') \<and>
    (engine_delete C key now (eg, w) = Some (r, eg', w') \<longrightarrow> keeps w w') \<and>
    keeps w (snd (snd (engine_get key (eg, w)))) \<and> keeps w (snd (snd (engine_fold ord f init (eg, w)))) \<and>
    keeps w (snd (snd (engine_sync (eg, w)))) \<and> keeps_files w (snd (engine_close (eg, w))) \<and>
    keeps_files w (engine_drop (eg, w)) \<and> (flock_ok flk \<longrightarrow> keeps_files w (snd (engine_open C flk opts w)))"
proof (intro conjI impI)
  show "keeps w (snd (snd (engine_get key (eg, w))))" "keeps w (snd (snd (engine_fold ord f init (eg, w))))"
    "keeps w (snd (snd (engine_sync (eg, w))))"
    using engine_get_kept engine_fold_kept engine_sync_kept unfolding always_def reads_only_def by (metis snd_conv)+
  show "keeps_files w (snd (engine_open C flk opts w))" if "flock_ok flk"
    using engine_open_kept [OF _ that, of C opts w] by (metis prod.collapse)
  show "keeps w w'" if "engine_put C key val now (eg, w) = Some (r, eg', w')" using engine_put_kept [OF that] by blast
  show "keeps w w'" if "engine_delete C key now (eg, w) = Some (r, eg', w')" using engine_delete_kept [OF that] by blast
  show "keeps_files w (snd (engine_close (eg, w)))" by (rule engine_close_kept)
  show "keeps_files w (engine_drop (eg, w))" by (rule engine_drop_kept)
qed

lemma faults_keep_data_witness:
  "\<exists>eg' w'. engine_put byte_sum [1] [2] 3 (small_handle, full_disk) = Some (Inl (Io (OsError 28)), eg', w') \<and>
    keeps full_disk w'"
proof -
  obtain eg' w' where p: "engine_put byte_sum [1] [2] 3 (small_handle, full_disk) = Some (Inl (Io (OsError 28)), eg', w')"
    using full_disk_put by blast
  have "keeps full_disk w'" by (rule faults_keep_data [THEN conjunct1, rule_format, OF p])
  with p show ?thesis by blast
qed

text \<open>
  C22: A put or a delete that reports an error has not changed the index: every later get of the handle sees what
  it would have seen without it.
\<close>

theorem failed_write_not_indexed:
  assumes "engine_put C key val now (eg, w) = Some (Inl e, eg', w') \<or> engine_delete C key now (eg, w) = Some (Inl e, eg', w')"
  shows "eg_keydir eg' = eg_keydir eg \<and> eg_opts eg' = eg_opts eg \<and> eg_write_lock eg' = eg_write_lock eg"
  using assms engine_put_kept engine_delete_kept unfolding keeps_index_def by (metis sum.disc(1))

lemma failed_write_not_indexed_witness:
  "\<exists>e eg' w'. engine_put byte_sum [1] [2] 3 (small_handle, full_disk) = Some (Inl e, eg', w') \<and>
     eg_keydir eg' = eg_keydir small_handle"
  using full_disk_put failed_write_not_indexed [of byte_sum "[1]" "[2]" 3 small_handle full_disk] by blast

text \<open>
  C24: An open that fails, at whatever point, leaves no lock behind, so that the next open is not refused, and has
  written to no data file: those that were there have the bytes they had, and one that it has created is empty.
\<close>

theorem failed_open_releases_lock:
  assumes "engine_open C flk opts w = (Inl e, w')" and "flock_ok flk"
  shows "w_locks w' = w_locks w \<and>
    (world_ok w \<longrightarrow> world_ok w' \<and>
      (\<forall>fid bs. file_bytes (data_path fid) w = Some bs \<longrightarrow> file_bytes (data_path fid) w' = Some bs) \<and>
      (\<forall>fid. file_bytes (data_path fid) w = None \<longrightarrow> file_bytes (data_path fid) w' \<in> {None, Some []}))"
proof -
  have "no_writes w w'" by (rule alwaysD [OF engine_open_unwritten assms(1)])
  moreover have "w_locks w' = w_locks w" using engine_open_kept [OF assms] by simp
  ultimately show ?thesis unfolding no_writes_def by auto (metis option.distinct(1))+
qed

lemma failed_open_releases_lock_witness:
  "case engine_open byte_sum plain_flock default_options unreadable of
     (Inl e, w') \<Rightarrow> w_locks w' = [] \<and> file_bytes (data_path 0) w' = Some [1, 2, 3] | (Inr _, _) \<Rightarrow> False"
proof -
  have "world_ok unreadable" "file_bytes (data_path 0) unreadable = Some [1, 2, 3]" "w_locks unreadable = []"
    by (simp_all add: unreadable_def world_ok_def file_bytes_def lookup_def data_of_def)
  then show ?thesis
    using unreadable_open failed_open_releases_lock [of byte_sum plain_flock default_options unreadable]
    by (auto simp: flock_ok_def plain_flock_def split: prod.splits sum.splits)
qed

text \<open>
  C23: A merge removes files only after everything live has been copied: when the copy fails, whatever the reason
  and whatever other threads do meanwhile, the merge stops with that error and every data file is still there.
\<close>

theorem failed_copy_removes_nothing:
  assumes "hook_ok hook" and "on_sh_world (collect_input_ids (af_file_id (sh_active sh))) sh = (Inr ids, sh1)"
    and "ids \<noteq> []" and "compact C max_file_size hook ids sh1 = (Inl e, sh2)"
  shows "merge_with_repoint_hook C max_file_size hook sh = (Inl (Io e), sh2) \<and> keeps (sh_world sh) (sh_world sh2)"
proof -
  have "always keeps (collect_input_ids fid)" for fid unfolding collect_input_ids_def by (intro kept)
  then have "keeps_s sh sh1" using alwaysD [OF on_sh_world_kept assms(2)] by blast
  then have "keeps_s sh sh2" by (rule sk.trans) (rule alwaysD [OF compact_kept [OF assms(1)] assms(4)])
  then show ?thesis using assms(2-4) by (simp add: merge_with_repoint_hook_def map_err_def bindE_def keeps_s_def)
qed

lemma failed_copy_removes_nothing_witness:
  "\<exists>sh2. merge_with_repoint_hook byte_sum 100 no_hook (two_files [Fine, Fine, Fine, Fail (OsError 28)]) = (Inl (Io (OsError 28)), sh2) \<and>
     keeps (sh_world (two_files [Fine, Fine, Fine, Fail (OsError 28)])) (sh_world sh2)"
proof -
  obtain r sh2 where c: "compact byte_sum 100 no_hook [0] (two_files [Fail (OsError 28)]) = (r, sh2)" "r = Inl (OsError 28)"
    using two_files_compact by (metis fst_conv prod.exhaust)
  then show ?thesis
    using failed_copy_removes_nothing [OF no_hook_ok two_files_collect] by blast
qed

text \<open>
  The index of a handle always has one entry for a key: a failing system call in put, delete, get, sync
  or merge cannot leave it malformed.
\<close>

theorem index_stays_well_formed:
  assumes "keydir_ok (eg_keydir eg)"
  shows "(engine_put C key val now (eg, w) = Some (r, eg', w') \<longrightarrow> keydir_ok (eg_keydir eg')) \<and>
    (engine_delete C key now (eg, w) = Some (r, eg', w') \<longrightarrow> keydir_ok (eg_keydir eg')) \<and>
    keydir_ok (eg_keydir (fst (snd (engine_get key (eg, w))))) \<and> keydir_ok (eg_keydir (fst (snd (engine_sync (eg, w))))) \<and>
    keydir_ok (eg_keydir (fst (snd (engine_merge C (eg, w)))))"
proof (intro conjI impI)
  show "keydir_ok (eg_keydir (fst (snd (engine_get key (eg, w)))))" "keydir_ok (eg_keydir (fst (snd (engine_sync (eg, w)))))"
    using engine_get_kept engine_sync_kept assms unfolding always_def reads_only_def keeps_index_def by (metis fst_conv)+
  show "keydir_ok (eg_keydir (fst (snd (engine_merge C (eg, w)))))" by (rule engine_merge_index [OF assms])
  show "keydir_ok (eg_keydir eg')" if "engine_put C key val now (eg, w) = Some (r, eg', w')"
    using engine_put_kept [OF that] assms by blast
  show "keydir_ok (eg_keydir eg')" if "engine_delete C key now (eg, w) = Some (r, eg', w')"
    using engine_delete_kept [OF that] assms by blast
qed

lemma index_stays_well_formed_witness:
  "keydir_ok (eg_keydir (fst (snd (engine_merge byte_sum (small_handle, full_disk)))))"
proof -
  have k: "keydir_ok (eg_keydir small_handle)" by (simp add: small_handle_def)
  show ?thesis by (rule index_stays_well_formed [OF k, of byte_sum "[]" "[]" 0 full_disk, THEN conjunct2, THEN conjunct2,
    THEN conjunct2, THEN conjunct2])
qed

end
