(* ===== verification/Log.thy ===== *)
theory Log
  imports Recovery
begin

text \<open>
  The abstract view of the data files: a file is a list of records, the directory a list of files
  in ascending order of their ids, and the contents of the datastore is what remains when all
  records are replayed in that order. The lemmas connect this view with the bytes on disk and
  with what recovery computes from them.
\<close>

section \<open>Records\<close>

text \<open>Key, value, tombstone flag and timestamp.\<close>

type_synonym log_rec = "bytes \<times> bytes \<times> bool \<times> u32"

fun rec_bytes :: "'h crc32fast \<Rightarrow> log_rec \<Rightarrow> bytes" where
  "rec_bytes C (k, v, t, ts) = ee_bytes (encode_entry C k v t ts)"

fun rec_ok :: "log_rec \<Rightarrow> bool" where
  "rec_ok (k, v, t, ts) \<longleftrightarrow> sizes_ok k v"

fun rec_len :: "log_rec \<Rightarrow> nat" where
  "rec_len (k, v, t, ts) = HEADER_SIZE + length k + length v"

fun rec_entry :: "log_rec \<Rightarrow> entry" where
  "rec_entry (k, v, t, ts) = entry_of k v t ts"

definition log_bytes :: "'h crc32fast \<Rightarrow> log_rec list \<Rightarrow> bytes" where
  "log_bytes C rs = concat (map (rec_bytes C) rs)"

definition log_len :: "log_rec list \<Rightarrow> nat" where
  "log_len rs = sum_list (map rec_len rs)"

lemma log_bytes_simps [simp]:
  "log_bytes C [] = []" "log_bytes C (r # rs) = rec_bytes C r @ log_bytes C rs"
  "log_bytes C (rs @ rs') = log_bytes C rs @ log_bytes C rs'"
  by (simp_all add: log_bytes_def)

lemma log_len_simps [simp]:
  "log_len [] = 0" "log_len (r # rs) = rec_len r + log_len rs" "log_len (rs @ rs') = log_len rs + log_len rs'"
  by (simp_all add: log_len_def)

lemma length_rec_bytes [simp]: "length (rec_bytes C r) = rec_len r"
  by (cases r) (simp add: length_encode_entry)

lemma length_log_bytes [simp]: "length (log_bytes C rs) = log_len rs"
  by (induction rs) auto

lemma rec_len_pos: "HEADER_SIZE \<le> rec_len r"
  by (cases r) simp

lemma parse_rec: "rec_ok r \<Longrightarrow> parse_entry C (rec_bytes C r @ rest) = (Some (EntryOk (rec_entry r) (of_nat (rec_len r))), rest)"
  by (cases r) (simp add: parse_encode_entry)

section \<open>Replaying records\<close>

text \<open>
  The index a replay computes, with the value each index entry stands for. Positions are counted
  from \<open>pos\<close>.
\<close>

type_synonym index = "bytes \<Rightarrow> (kd_entry \<times> bytes) option"

definition located_entry :: "u32 \<Rightarrow> nat \<Rightarrow> log_rec \<Rightarrow> kd_entry" where
  "located_entry fid pos = (\<lambda>(k, v, t, ts).
     \<lparr>kd_file_id = fid, kd_value_size = of_nat (length v),
      kd_value_pos = of_nat (pos + HEADER_SIZE + length k), kd_timestamp = ts\<rparr>)"

definition index_step :: "u32 \<Rightarrow> nat \<Rightarrow> log_rec \<Rightarrow> index \<Rightarrow> index" where
  "index_step fid pos r m =
     (case r of (k, v, t, ts) \<Rightarrow> m(k := if t then None else Some (located_entry fid pos r, v)))"

fun index_recs :: "u32 \<Rightarrow> nat \<Rightarrow> log_rec list \<Rightarrow> index \<Rightarrow> index" where
  "index_recs fid pos [] m = m"
| "index_recs fid pos (r # rs) m =
     index_recs fid (pos + rec_len r) rs (index_step fid pos r m)"

lemma index_step_key [simp]: "k \<noteq> fst r \<Longrightarrow> index_step fid pos r m k = m k"
  by (cases r) (simp add: index_step_def)

type_synonym files = "(u32 \<times> log_rec list) list"

definition index_files :: "files \<Rightarrow> index \<Rightarrow> index" where
  "index_files L m = fold (\<lambda>(fid, rs) m. index_recs fid 0 rs m) L m"

lemma index_files_simps [simp]:
  "index_files [] m = m"
  "index_files ((fid, rs) # L) m = index_files L (index_recs fid 0 rs m)"
  "index_files (L @ L') m = index_files L' (index_files L m)"
  by (simp_all add: index_files_def)

lemma index_recs_append:
  "index_recs fid pos (rs @ rs') m = index_recs fid (pos + log_len rs) rs' (index_recs fid pos rs m)"
  by (induction rs arbitrary: pos m) (auto simp: add.assoc)

text \<open>An index agrees with a key directory.\<close>

definition indexes :: "keydir \<Rightarrow> index \<Rightarrow> bool" where
  "indexes kd m \<longleftrightarrow> (\<forall>k. keydir_get k kd = map_option fst (m k))"

lemma indexes_empty [simp]: "indexes keydir_new Map.empty"
  by (simp add: indexes_def)

text \<open>A replay touches only the keys of its records, and forgets what those keys had before.\<close>

lemma index_recs_other: "k \<notin> fst ` set rs \<Longrightarrow> index_recs fid pos rs m k = m k"
  by (induction rs arbitrary: pos m) auto

lemma index_recs_forget: "k \<in> fst ` set rs \<Longrightarrow> index_recs fid pos rs m k = index_recs fid pos rs m' k"
proof (induction rs arbitrary: pos m m')
  case Nil
  then show ?case by simp
next
  case (Cons r rs)
  obtain k' v t ts where r: "r = (k', v, t, ts)" by (cases r)
  show ?case
  proof (cases "k \<in> fst ` set rs")
    case True
    then show ?thesis by (simp add: Cons.IH)
  next
    case False
    then show ?thesis using Cons.prems by (simp add: r index_recs_other index_step_def)
  qed
qed

text \<open>Where an index entry comes from.\<close>

definition located :: "files \<Rightarrow> bytes \<Rightarrow> kd_entry \<Rightarrow> bytes \<Rightarrow> bool" where
  "located L k ent v \<longleftrightarrow>
     (\<exists>fid pre post ts. (fid, pre @ (k, v, False, ts) # post) \<in> set L \<and>
        ent = located_entry fid (log_len pre) (k, v, False, ts))"

lemma index_recs_located:
  assumes "index_recs fid pos rs m k = Some (ent, v)"
  shows "m k = Some (ent, v) \<and> k \<notin> fst ` set rs \<or>
    (\<exists>pre post ts. rs = pre @ (k, v, False, ts) # post \<and>
       ent = located_entry fid (pos + log_len pre) (k, v, False, ts) \<and> k \<notin> fst ` set post)"
  using assms
proof (induction rs arbitrary: pos m)
  case Nil
  then show ?case by simp
next
  case (Cons r rs)
  obtain k' v' t' ts' where r: "r = (k', v', t', ts')" by (cases r)
  define m' where "m' = index_step fid pos r m"
  from Cons.prems have "index_recs fid (pos + rec_len r) rs m' k = Some (ent, v)"
    by (simp add: m'_def)
  from Cons.IH [OF this] show ?case
  proof
    assume a: "m' k = Some (ent, v) \<and> k \<notin> fst ` set rs"
    show ?thesis
    proof (cases "k = k'")
      case True
      with a have "\<not> t'" "ent = located_entry fid pos r" "v' = v" "k \<notin> fst ` set rs"
        by (auto simp: m'_def index_step_def r split: if_splits)
      then have "r # rs = [] @ (k, v, False, ts') # rs \<and>
          ent = located_entry fid (pos + log_len []) (k, v, False, ts') \<and> k \<notin> fst ` set rs"
        by (simp add: r True)
      then show ?thesis by blast
    next
      case False
      with a have "m k = Some (ent, v) \<and> k \<notin> fst ` set (r # rs)" by (simp add: m'_def r)
      then show ?thesis by blast
    qed
  next
    assume "\<exists>pre post ts. rs = pre @ (k, v, False, ts) # post \<and>
       ent = located_entry fid (pos + rec_len r + log_len pre) (k, v, False, ts) \<and> k \<notin> fst ` set post"
    then obtain pre post ts where "rs = pre @ (k, v, False, ts) # post" "k \<notin> fst ` set post"
      "ent = located_entry fid (pos + rec_len r + log_len pre) (k, v, False, ts)" by blast
    then have "r # rs = (r # pre) @ (k, v, False, ts) # post \<and>
        ent = located_entry fid (pos + log_len (r # pre)) (k, v, False, ts) \<and> k \<notin> fst ` set post"
      by (simp add: add.assoc)
    then show ?thesis by blast
  qed
qed

lemma index_files_located:
  assumes "index_files L m k = Some (ent, v)"
  shows "m k = Some (ent, v) \<or> located L k ent v"
  using assms
proof (induction L arbitrary: m)
  case Nil
  then show ?case by simp
next
  case (Cons x L)
  obtain fid rs where x: "x = (fid, rs)" by fastforce
  from Cons.IH [of "index_recs fid 0 rs m"] Cons.prems
  have "index_recs fid 0 rs m k = Some (ent, v) \<or> located L k ent v" by (simp add: x)
  then show ?case
  proof
    assume "index_recs fid 0 rs m k = Some (ent, v)"
    from index_recs_located [OF this] show ?thesis
    proof
      assume "\<exists>pre post ts. rs = pre @ (k, v, False, ts) # post \<and>
         ent = located_entry fid (0 + log_len pre) (k, v, False, ts) \<and> k \<notin> fst ` set post"
      then obtain pre post ts where "rs = pre @ (k, v, False, ts) # post"
        "ent = located_entry fid (log_len pre) (k, v, False, ts)" by auto
      then have "(fid, pre @ (k, v, False, ts) # post) \<in> set (x # L) \<and>
          ent = located_entry fid (log_len pre) (k, v, False, ts)" by (simp add: x)
      then show ?thesis unfolding located_def by blast
    qed simp
  next
    assume "located L k ent v"
    then obtain fid' pre post ts where "(fid', pre @ (k, v, False, ts) # post) \<in> set (x # L)"
      and "ent = located_entry fid' (log_len pre) (k, v, False, ts)"
      unfolding located_def by auto
    then show ?thesis unfolding located_def by blast
  qed
qed

section \<open>Scanning the bytes of a log\<close>

fun apply_recs :: "u32 \<Rightarrow> nat \<Rightarrow> log_rec list \<Rightarrow> keydir \<Rightarrow> keydir" where
  "apply_recs fid pos [] kd = kd"
| "apply_recs fid pos (r # rs) kd =
     apply_recs fid (pos + rec_len r) rs (apply_entry fid (of_nat pos) (rec_entry r) kd)"

lemma ucast_of_nat_u32: "n < 2 ^ 32 \<Longrightarrow> (ucast (of_nat n :: u32) :: u64) = of_nat n"
  by (simp add: unsigned_of_nat take_bit_nat_eq_self)

lemma keydir_ok_apply_entry [simp]: "keydir_ok kd \<Longrightarrow> keydir_ok (apply_entry fid pos e kd)"
  by (simp add: apply_entry_def Let_def)

lemma apply_entry_rec:
  assumes "rec_ok (k, v, t, ts)" and "indexes kd m"
  shows "indexes (apply_entry fid (of_nat pos) (rec_entry (k, v, t, ts)) kd)
    (index_step fid pos (k, v, t, ts) m)"
proof -
  have "length k < 2 ^ 32" using assms(1) by (simp add: sizes_ok_def)
  then have "(ucast (of_nat (length k) :: u32) :: u64) = of_nat (length k)" by (rule ucast_of_nat_u32)
  then show ?thesis using assms(2)
    by (simp add: indexes_def apply_entry_def entry_of_def Let_def located_entry_def index_step_def)
qed

lemma indexes_apply_recs:
  "list_all rec_ok rs \<Longrightarrow> indexes kd m \<Longrightarrow> indexes (apply_recs fid pos rs kd) (index_recs fid pos rs m)"
proof (induction rs arbitrary: pos kd m)
  case Nil
  then show ?case by simp
next
  case (Cons r rs)
  obtain k v t ts where r: "r = (k, v, t, ts)" by (cases r)
  have "indexes (apply_entry fid (of_nat pos) (rec_entry r) kd) (index_step fid pos r m)"
    unfolding r by (rule apply_entry_rec) (use Cons.prems r in auto)
  from Cons.IH [OF _ this] show ?case using Cons.prems by simp
qed

lemma keydir_ok_apply_recs: "keydir_ok kd \<Longrightarrow> keydir_ok (apply_recs fid pos rs kd)"
  by (induction rs arbitrary: pos kd) auto

text \<open>
  The scan of a file that holds complete records and then a torn one (or nothing): the complete
  records are applied in order, the torn one is dropped, with a warning unless the file is the last.
\<close>

definition torn :: "'h crc32fast \<Rightarrow> bytes \<Rightarrow> bool" where
  "torn C tail \<longleftrightarrow> fst (parse_entry C tail) = None \<or> fst (parse_entry C tail) = Some EntryTruncated"

lemma torn_Nil [simp]: "torn C []"
  by (simp add: torn_def)

definition torn_warning :: "u32 \<Rightarrow> bool \<Rightarrow> nat \<Rightarrow> bytes \<Rightarrow> warning list" where
  "torn_warning fid is_last pos tail =
     (if is_last \<or> tail = [] then [] else [TruncatedClosedFile fid (of_nat pos)])"

lemma scan_loop_log:
  assumes "list_all rec_ok rs" and "fault_free (rd_outs r)" and "rd_rest r = log_bytes C rs @ tail"
    and "torn C tail"
  shows "\<exists>n rest. scan_loop C fid is_last (of_nat pos) kd ws r =
    (Inr (), apply_recs fid pos rs kd, ws @ torn_warning fid is_last (pos + log_len rs) tail,
     \<lparr>rd_rest = rest, rd_outs = drop n (rd_outs r)\<rparr>)"
  using assms
proof (induction rs arbitrary: pos kd r)
  case Nil
  obtain n where n: "read_entry C r = (Inr (fst (parse_entry C tail)),
     \<lparr>rd_rest = snd (parse_entry C tail), rd_outs = drop n (rd_outs r)\<rparr>)"
    by (rule read_entry_fault_free [OF Nil.prems(2)]) (use Nil.prems(3) in auto)
  have "fst (parse_entry C tail) = None \<longleftrightarrow> tail = []" by simp
  then show ?case using Nil.prems(4) n
    by (subst scan_loop.simps) (auto simp: torn_def torn_warning_def intro: exI [of _ n])
next
  case (Cons x rs)
  have px: "parse_entry C (rd_rest r) =
      (Some (EntryOk (rec_entry x) (of_nat (rec_len x))), log_bytes C rs @ tail)"
    using Cons.prems(1,3) parse_rec [of x C] by simp
  obtain n where n: "read_entry C r = (Inr (Some (EntryOk (rec_entry x) (of_nat (rec_len x)))),
     \<lparr>rd_rest = log_bytes C rs @ tail, rd_outs = drop n (rd_outs r)\<rparr>)"
    and ff: "fault_free (drop n (rd_outs r))"
    by (rule read_entry_fault_free [OF Cons.prems(2), of C]) (simp add: px)
  have "\<exists>n' rest. scan_loop C fid is_last (of_nat (pos + rec_len x))
      (apply_entry fid (of_nat pos) (rec_entry x) kd) ws
      \<lparr>rd_rest = log_bytes C rs @ tail, rd_outs = drop n (rd_outs r)\<rparr> =
    (Inr (), apply_recs fid (pos + rec_len x) rs (apply_entry fid (of_nat pos) (rec_entry x) kd),
     ws @ torn_warning fid is_last (pos + rec_len x + log_len rs) tail,
     \<lparr>rd_rest = rest, rd_outs = drop n' (drop n (rd_outs r))\<rparr>)"
    using Cons.IH [of "\<lparr>rd_rest = log_bytes C rs @ tail, rd_outs = drop n (rd_outs r)\<rparr>" "pos + rec_len x"]
      Cons.prems ff by simp
  then show ?case
    by (subst scan_loop.simps) (auto simp: n add.assoc)
qed

end
