(* ===== verification/Disk.thy ===== *)
theory Disk
  imports Log
begin

text \<open>
  The directory that represents a list of files of records, and what discovery and recovery make
  of it. A data file may end in a torn record; a hint file is either rejected by its checksum or
  describes its data file exactly.
\<close>

section \<open>Hint files of a log\<close>

fun hint_recs :: "nat \<Rightarrow> log_rec list \<Rightarrow> hint_record list" where
  "hint_recs pos [] = []"
| "hint_recs pos ((k, v, t, ts) # rs) =
     (en_header (entry_of k v t ts), of_nat (pos + HEADER_SIZE + length k), k) #
     hint_recs (pos + rec_len (k, v, t, ts)) rs"

definition hint_bytes :: "nat \<Rightarrow> log_rec list \<Rightarrow> bytes" where
  "hint_bytes pos rs = concat (map (\<lambda>(hdr, vp, k). encode_hint k hdr vp) (hint_recs pos rs))"

definition hint_valid :: "'h crc32fast \<Rightarrow> log_rec list \<Rightarrow> bytes \<Rightarrow> bool" where
  "hint_valid C rs hb \<longleftrightarrow> hb = hint_bytes 0 rs @ le32 (crc_hash C (hint_bytes 0 rs))"

lemma hint_recs_append: "hint_recs pos (rs @ rs') = hint_recs pos rs @ hint_recs (pos + log_len rs) rs'"
  by (induction pos rs rule: hint_recs.induct) (auto simp: add.assoc)

lemma hint_bytes_Nil [simp]: "hint_bytes pos [] = []"
  by (simp add: hint_bytes_def)

lemma hint_bytes_append: "hint_bytes pos (rs @ rs') = hint_bytes pos rs @ hint_bytes (pos + log_len rs) rs'"
  by (simp add: hint_bytes_def hint_recs_append)

lemma hint_bytes_Cons:
  "hint_bytes pos ((k, v, t, ts) # rs) =
     encode_hint k (en_header (entry_of k v t ts)) (of_nat (pos + HEADER_SIZE + length k)) @
     hint_bytes (pos + rec_len (k, v, t, ts)) rs"
  by (simp add: hint_bytes_def)

lemma entry_of_simps [simp]:
  "en_key (entry_of k v t ts) = k" "en_value (entry_of k v t ts) = v"
  "eh_key_size (en_header (entry_of k v t ts)) = of_nat (length k)"
  "eh_value_size (en_header (entry_of k v t ts)) = of_nat (length v)"
  "eh_timestamp (en_header (entry_of k v t ts)) = ts"
  "eh_tombstone (en_header (entry_of k v t ts)) = t"
  "is_tombstone (entry_of k v t ts) = t"
  by (simp_all add: entry_of_def is_tombstone_def)

text \<open>Applying the hint records of a log does to the index what scanning the log does.\<close>

lemma apply_hint_recs:
  "list_all rec_ok rs \<Longrightarrow> fold (apply_hint_record fid) (hint_recs pos rs) kd = apply_recs fid pos rs kd"
proof (induction pos rs arbitrary: kd rule: hint_recs.induct)
  case (1 pos)
  then show ?case by simp
next
  case (2 pos k v t ts rs)
  have "length k < 2 ^ 32" using 2(2) by (simp add: sizes_ok_def)
  then have "(ucast (of_nat (length k) :: u32) :: u64) = of_nat (length k)" by (rule ucast_of_nat_u32)
  then have "apply_hint_record fid (en_header (entry_of k v t ts), of_nat (pos + HEADER_SIZE + length k), k) kd
      = apply_entry fid (of_nat pos) (entry_of k v t ts) kd"
    by (simp add: apply_hint_record_def apply_entry_def Let_def)
  with 2 show ?case by simp
qed

lemma saturating_add_of_nat:
  assumes "a + b < 2 ^ 64"
  shows "saturating_add (of_nat a) (of_nat b) = of_nat (a + b)"
proof -
  have "unat (of_nat a :: u64) + unat (of_nat b :: u64) < 2 ^ 64"
    using assms by (simp add: unat_of_nat_u64)
  then show ?thesis by (simp add: saturating_add_def)
qed

lemma of_nat_u64_le: "a \<le> b \<Longrightarrow> b < 2 ^ 64 \<Longrightarrow> (of_nat a :: u64) \<le> of_nat b"
  by (simp add: word_le_nat_alt unat_of_nat_u64)

lemma hint_loop_log:
  assumes "list_all rec_ok rs" and "pos + log_len rs \<le> n" and "n < 2 ^ 64"
    and "rd_outs r = []" and "rd_rest r = hint_bytes pos rs"
  shows "hint_loop fid (of_nat n) acc r = Inr (Inr (acc @ hint_recs pos rs))"
  using assms
proof (induction pos rs arbitrary: acc r rule: hint_recs.induct)
  case (1 pos)
  then show ?case by (subst hint_loop.simps) (simp add: read_hint_cursor)
next
  case (2 pos k v t ts rs)
  let ?vp = "pos + HEADER_SIZE + length k"
  have k: "length k < 2 ^ 31" and v: "length v < 2 ^ 32" using 2(2) by (simp_all add: sizes_ok_def)
  have "rd_rest r = encode_hint k (en_header (entry_of k v t ts)) (of_nat ?vp) @
      hint_bytes (pos + rec_len (k, v, t, ts)) rs"
    using 2(6) by (simp only: hint_bytes_Cons)
  then have rh: "read_hint r =
      (Inr (Some (HintOk (en_header (entry_of k v t ts)) (of_nat ?vp) k)),
       \<lparr>rd_rest = hint_bytes (pos + rec_len (k, v, t, ts)) rs, rd_outs = []\<rparr>)"
    using parse_encode_hint [OF k, of "en_header (entry_of k v t ts)" "of_nat ?vp"
        "hint_bytes (pos + rec_len (k, v, t, ts)) rs"] 2(5)
    by (simp add: read_hint_cursor del: of_nat_add rec_len.simps)
  have le: "?vp + length v \<le> n" using 2(3) by simp
  have "saturating_add (of_nat ?vp) (ucast (of_nat (length v) :: u32)) = of_nat (?vp + length v)"
    using saturating_add_of_nat [of ?vp "length v"] le 2(4) ucast_of_nat_u32 [OF v] by simp
  also have "\<dots> \<le> (of_nat n :: u64)" using le 2(4) by (rule of_nat_u64_le)
  finally have inb: "\<not> saturating_add (of_nat ?vp) (ucast (of_nat (length v) :: u32)) > (of_nat n :: u64)"
    by simp
  show ?case
    using 2(1) [of "\<lparr>rd_rest = hint_bytes (pos + rec_len (k, v, t, ts)) rs, rd_outs = []\<rparr>"
        "acc @ [(en_header (entry_of k v t ts), of_nat ?vp, k)]"] 2 inb
    by (subst hint_loop.simps) (simp add: rh del: of_nat_add)
qed

section \<open>A directory of logs\<close>

definition disk :: "'h crc32fast \<Rightarrow> world \<Rightarrow> files \<Rightarrow> (u32 \<Rightarrow> bytes) \<Rightarrow> bool" where
  "disk C w L T \<longleftrightarrow>
     sorted_wrt (<) (map fst L) \<and>
     (\<forall>fid. file_bytes (data_path fid) w = map_option (\<lambda>rs. log_bytes C rs @ T fid) (map_of L fid)) \<and>
     (\<forall>(fid, rs) \<in> set L. list_all rec_ok rs \<and> log_len rs + length (T fid) < 2 ^ 64 \<and> torn C (T fid) \<and>
        (\<forall>hb. file_bytes (hint_path fid) w = Some hb \<longrightarrow> verify_hint_file C hb = None \<or> hint_valid C rs hb))"

lemma diskD:
  assumes "disk C w L T"
  shows "sorted_wrt (<) (map fst L)" and "distinct (map fst L)"
    and "file_bytes (data_path fid) w = map_option (\<lambda>rs. log_bytes C rs @ T fid) (map_of L fid)"
  using assms by (auto simp: disk_def strict_sorted_iff)

lemma disk_fileD:
  assumes "disk C w L T" and "(fid, rs) \<in> set L"
  shows "list_all rec_ok rs" and "log_len rs + length (T fid) < 2 ^ 64" and "torn C (T fid)"
    and "file_bytes (data_path fid) w = Some (log_bytes C rs @ T fid)"
    and "file_bytes (hint_path fid) w = Some hb \<Longrightarrow> verify_hint_file C hb = None \<or> hint_valid C rs hb"
proof -
  show "list_all rec_ok rs" "log_len rs + length (T fid) < 2 ^ 64" "torn C (T fid)"
    "file_bytes (hint_path fid) w = Some hb \<Longrightarrow> verify_hint_file C hb = None \<or> hint_valid C rs hb"
    using assms unfolding disk_def by auto
  have "map_of L fid = Some rs" using diskD(2) [OF assms(1)] assms(2) by simp
  then show "file_bytes (data_path fid) w = Some (log_bytes C rs @ T fid)"
    by (simp add: diskD(3) [OF assms(1)])
qed

section \<open>Discovery\<close>

lemma discover_loop_no_fault:
  "w_outs w = [] \<Longrightarrow> discover_loop names ids w = (Inr (ids @ List.map_filter parse_data_file_id names), w)"
proof (induction names arbitrary: ids)
  case Nil
  then show ?case by (simp add: List.map_filter_def)
next
  case (Cons name names)
  then show ?case
    by (simp add: bindE_def sys_no_fault List.map_filter_def split: option.splits)
qed

lemma in_map_filter_names:
  "fid \<in> set (List.map_filter parse_data_file_id names) \<longleftrightarrow> data_path fid \<in> set names"
proof (induction names)
  case Nil
  then show ?case by (simp add: List.map_filter_def)
next
  case (Cons name names)
  then show ?case
    by (cases "parse_data_file_id name") (auto simp: List.map_filter_def parse_data_file_id_iff)
qed

lemma distinct_map_filter_names:
  "distinct names \<Longrightarrow> distinct (List.map_filter parse_data_file_id names)"
proof (induction names)
  case Nil
  then show ?case by (simp add: List.map_filter_def)
next
  case (Cons name names)
  then have d: "distinct (List.map_filter parse_data_file_id names)" by simp
  show ?case
  proof (cases "parse_data_file_id name")
    case None
    then show ?thesis using d by (simp add: List.map_filter_def)
  next
    case (Some fid)
    then have "fid \<notin> set (List.map_filter parse_data_file_id names)"
      using Cons.prems by (simp add: in_map_filter_names parse_data_file_id_iff)
    moreover have "List.map_filter parse_data_file_id (name # names) =
        fid # List.map_filter parse_data_file_id names"
      using Some by (simp add: List.map_filter_def)
    ultimately show ?thesis using d by simp
  qed
qed

lemma discover_disk:
  assumes "disk C w L T" and "world_ok w" and "w_outs w = []"
  shows "discover w = (Inr (map fst L), w)"
proof -
  let ?ids = "List.map_filter parse_data_file_id (map fst (w_dir w))"
  have "fid \<in> set ?ids \<longleftrightarrow> fid \<in> set (map fst L)" for fid
  proof -
    have "fid \<in> set ?ids \<longleftrightarrow> lookup (data_path fid) w \<noteq> None"
      by (simp add: in_map_filter_names lookup_def map_of_eq_None_iff)
    also have "\<dots> \<longleftrightarrow> map_of L fid \<noteq> None"
      using diskD(3) [OF assms(1), of fid] by (simp add: file_bytes_None [symmetric])
    finally show ?thesis by (simp add: map_of_eq_None_iff)
  qed
  then have "set (sort ?ids) = set (map fst L)" by auto
  moreover have "distinct ?ids"
    using assms(2) by (intro distinct_map_filter_names) (simp add: world_ok_def)
  ultimately have "sort ?ids = map fst L"
    using diskD(1) [OF assms(1)] by (intro sorted_distinct_set_unique) (auto simp: strict_sorted_iff)
  then show ?thesis
    using assms(3) by (simp add: discover_def read_dir_def bindE_def sys_no_fault discover_loop_no_fault)
qed

section \<open>Recovery\<close>

text \<open>Recovery depends on the files only, so warnings may be recorded on the way.\<close>

definition warned :: "warning list \<Rightarrow> world \<Rightarrow> world" where
  "warned ws w = w\<lparr>w_warnings := w_warnings w @ ws\<rparr>"

lemma warned_simps [simp]:
  "warned [] w = w" "warned ws' (warned ws w) = warned (ws @ ws') w" "warn x w = warned [x] w"
  "w_dir (warned ws w) = w_dir w" "w_inodes (warned ws w) = w_inodes w"
  "w_outs (warned ws w) = w_outs w" "w_locks (warned ws w) = w_locks w"
  by (simp_all add: warned_def warn_def)

lemma files_warned [simp]:
  "lookup n (warned ws w) = lookup n w" "data_of i (warned ws w) = data_of i w"
  "world_ok (warned ws w) = world_ok w"
  by (simp_all add: lookup_def data_of_def world_ok_def)

lemma file_bytes_warned [simp]: "file_bytes n (warned ws w) = file_bytes n w"
  by (simp add: file_bytes_def)

lemma disk_cong: "(\<And>n. file_bytes n w' = file_bytes n w) \<Longrightarrow> disk C w' L T = disk C w L T"
  by (simp add: disk_def)

lemma disk_warned [simp]: "disk C (warned ws w) L T = disk C w L T"
  by (rule disk_cong) simp

lemma open_read_no_fault [io_simps]:
  "w_outs w = [] \<Longrightarrow> open_read n w = (case lookup n w of Some i \<Rightarrow> (Inr i, w) | None \<Rightarrow> (Inl NotFound, w))"
  by (simp add: open_read_def sys_no_fault)

lemma read_file_no_fault [io_simps]:
  "w_outs w = [] \<Longrightarrow> file_bytes n w = Some bs \<Longrightarrow> read_file n w = (Inr bs, w)"
  by (auto simp: read_file_def io_simps bindE_def file_bytes_def)

lemma path_exists_no_fault [io_simps]: "w_outs w = [] \<Longrightarrow> path_exists n w = (lookup n w \<noteq> None, w)"
  by (simp add: path_exists_def sys_no_fault)

lemma path_len_no_fault [io_simps]:
  "w_outs w = [] \<Longrightarrow> file_bytes n w = Some bs \<Longrightarrow> path_len n w = (Inr (of_nat (length bs)), w)"
  by (auto simp: path_len_def sys_no_fault file_bytes_def)

lemma scan_data_file_disk:
  assumes "disk C w L T" and "w_outs w = []" and "(fid, rs) \<in> set L"
  shows "scan_data_file C fid is_last (kd, w) =
    (Inr (), (apply_recs fid 0 rs kd, warned (torn_warning fid is_last (log_len rs) (T fid)) w))"
proof -
  note f = disk_fileD [OF assms(1,3)]
  obtain i where i: "lookup (data_path fid) w = Some i" and d: "data_of i w = log_bytes C rs @ T fid"
    using f(4) by (auto simp: file_bytes_def)
  obtain n rest where "scan_loop C fid is_last (of_nat 0) kd (w_warnings w)
      \<lparr>rd_rest = log_bytes C rs @ T fid, rd_outs = []\<rparr> =
    (Inr (), apply_recs fid 0 rs kd, w_warnings w @ torn_warning fid is_last (0 + log_len rs) (T fid),
     \<lparr>rd_rest = rest, rd_outs = drop n []\<rparr>)"
    using scan_loop_log [OF f(1), of "\<lparr>rd_rest = log_bytes C rs @ T fid, rd_outs = []\<rparr>" C "T fid" fid
        is_last 0 kd "w_warnings w"] f(3) by auto
  then show ?thesis
    using assms(2) by (simp add: scan_data_file_def bindE_def io_simps i d warned_def)
qed

lemma try_scan_hint_file_disk:
  assumes "disk C w L T" and "w_outs w = []" and "(fid, rs) \<in> set L"
    and "file_bytes (hint_path fid) w = Some hb"
  shows "try_scan_hint_file C fid (kd, w) =
    (if verify_hint_file C hb = None then (Inr False, (kd, warned [HintCrcFailed fid] w))
     else (Inr True, (apply_recs fid 0 rs kd, w)))"
proof (cases "verify_hint_file C hb")
  case None
  then show ?thesis using assms(2,4) by (simp add: try_scan_hint_file_def bindE_def io_simps)
next
  case (Some content)
  note f = disk_fileD [OF assms(1,3)]
  have "hint_valid C rs hb" using f(5) [OF assms(4)] Some by simp
  then have "verify_hint_file C hb = Some (hint_bytes 0 rs)"
    by (simp add: hint_valid_def verify_hint_file_trailer)
  moreover have "hint_loop fid (of_nat (log_len rs + length (T fid))) []
      (cursor (hint_bytes 0 rs)) = Inr (Inr ([] @ hint_recs 0 rs))"
    by (rule hint_loop_log [OF f(1) _ f(2)]) (simp_all add: cursor_def)
  ultimately show ?thesis
    using assms(2,4) f(4) apply_hint_recs [OF f(1), of fid 0 kd]
    by (simp add: try_scan_hint_file_def bindE_def io_simps del: of_nat_add)
qed

text \<open>
  One file: the records are applied in the order they were written, through the hint file when it
  can be trusted and by a scan of the data file when there is none or its checksum fails.
\<close>

definition hint_warning :: "'h crc32fast \<Rightarrow> world \<Rightarrow> u32 \<Rightarrow> warning list" where
  "hint_warning C w fid =
     (case file_bytes (hint_path fid) w of
        Some hb \<Rightarrow> (if verify_hint_file C hb = None then [HintCrcFailed fid] else []) | None \<Rightarrow> [])"

definition uses_hint :: "'h crc32fast \<Rightarrow> world \<Rightarrow> u32 \<Rightarrow> bool" where
  "uses_hint C w fid \<longleftrightarrow> (\<exists>hb. file_bytes (hint_path fid) w = Some hb \<and> verify_hint_file C hb \<noteq> None)"

fun recovery_warnings :: "'h crc32fast \<Rightarrow> world \<Rightarrow> (u32 \<Rightarrow> bytes) \<Rightarrow> files \<Rightarrow> warning list" where
  "recovery_warnings C w T [] = []"
| "recovery_warnings C w T ((fid, rs) # L) =
     hint_warning C w fid @
     (if uses_hint C w fid then [] else torn_warning fid (L = []) (log_len rs) (T fid)) @
     recovery_warnings C w T L"

lemma recovery_warnings_warned [simp]:
  "recovery_warnings C (warned ws w) T L = recovery_warnings C w T L"
  by (induction L) (auto simp: hint_warning_def uses_hint_def)

lemma recover_disk_part:
  assumes "disk C w L T" and "w_outs w = []" and "set L2 \<subseteq> set L"
  shows "recover C (map fst L2) (kd, w) =
    (Inr (), (fold (\<lambda>(fid, rs). apply_recs fid 0 rs) L2 kd, warned (recovery_warnings C w T L2) w))"
  using assms
proof (induction L2 arbitrary: kd w)
  case Nil
  then show ?case by simp
next
  case (Cons x L2)
  obtain fid rs where x: "x = (fid, rs)" by fastforce
  have mem: "(fid, rs) \<in> set L" using Cons.prems(3) x by simp
  have IH: "recover C (map fst L2) (kd', warned ws w) =
    (Inr (), (fold (\<lambda>(fid, rs). apply_recs fid 0 rs) L2 kd', warned (ws @ recovery_warnings C w T L2) w))"
    for kd' ws
    using Cons.IH [of "warned ws w" kd'] Cons.prems by simp
  have scan: "scan_data_file C fid is_last (kd', warned ws w) = (Inr (), (apply_recs fid 0 rs kd',
      warned (ws @ torn_warning fid is_last (log_len rs) (T fid)) w))" for is_last kd' ws
    using scan_data_file_disk [of C "warned ws w" L T fid rs is_last kd'] Cons.prems mem by simp
  show ?case
  proof (cases "file_bytes (hint_path fid) w")
    case None
    then show ?thesis
      using scan [of "L2 = []" kd "[]"] Cons.prems(2) IH
      by (simp add: x io_simps bindE_def hint_warning_def uses_hint_def file_bytes_None [symmetric])
  next
    case (Some hb)
    then have "lookup (hint_path fid) w \<noteq> None" by (auto simp: file_bytes_def)
    then show ?thesis
      using scan try_scan_hint_file_disk [OF Cons.prems(1,2) mem Some, of kd] Some
        Cons.prems(2) IH IH [of _ "[]"]
      by (simp add: x io_simps bindE_def hint_warning_def uses_hint_def)
  qed
qed

lemma fold_apply_recs:
  "(\<And>fid rs. (fid, rs) \<in> set L \<Longrightarrow> list_all rec_ok rs) \<Longrightarrow> keydir_ok kd \<Longrightarrow> indexes kd m \<Longrightarrow>
     keydir_ok (fold (\<lambda>(fid, rs). apply_recs fid 0 rs) L kd) \<and>
     indexes (fold (\<lambda>(fid, rs). apply_recs fid 0 rs) L kd) (index_files L m)"
proof (induction L arbitrary: kd m)
  case Nil
  then show ?case by simp
next
  case (Cons x L)
  obtain fid rs where x: "x = (fid, rs)" by fastforce
  have "indexes (apply_recs fid 0 rs kd) (index_recs fid 0 rs m)"
    using Cons.prems x by (intro indexes_apply_recs) auto
  then show ?case
    using Cons.IH [of "apply_recs fid 0 rs kd" "index_recs fid 0 rs m"] Cons.prems x
    by (auto simp: keydir_ok_apply_recs)
qed

lemma recover_disk:
  assumes "disk C w L T" and "w_outs w = []"
  obtains kd where "recover C (map fst L) (keydir_new, w) = (Inr (), (kd, warned (recovery_warnings C w T L) w))"
    and "keydir_ok kd" and "indexes kd (index_files L Map.empty)"
  using recover_disk_part [OF assms order_refl, of keydir_new]
    fold_apply_recs [of L keydir_new Map.empty] disk_fileD(1) [OF assms(1)] by auto

end
