(* ===== verification/Store.thy ===== *)
theory Store
  imports Disk Engine
begin

text \<open>
  The invariants of a datastore without faults: what holds of the index, the cached read handles and
  the active file, in terms of the list of files of records that the directory represents; and the
  reads they make correct.
\<close>

section \<open>The contents of a datastore\<close>

definition contents :: "files \<Rightarrow> bytes \<Rightarrow> bytes option" where
  "contents L k = map_option snd (index_files L Map.empty k)"

text \<open>Every cached handle is on the file that has the name now.\<close>

definition readers_ok :: "data_file_set \<Rightarrow> world \<Rightarrow> bool" where
  "readers_ok fs w \<longleftrightarrow> (\<forall>fid i. map_of (dfs_readers fs) fid = Some i \<longrightarrow> lookup (data_path fid) w = Some i)"

definition read_inv :: "'h crc32fast \<Rightarrow> keydir \<Rightarrow> data_file_set \<Rightarrow> world \<Rightarrow> files \<Rightarrow> (u32 \<Rightarrow> bytes) \<Rightarrow> bool" where
  "read_inv C kd fs w L T \<longleftrightarrow> w_outs w = [] \<and> world_ok w \<and> disk C w L T \<and> keydir_ok kd \<and>
     indexes kd (index_files L Map.empty) \<and> readers_ok fs w"

lemma readers_ok_new [simp]: "readers_ok dfs_new w"
  by (simp add: readers_ok_def dfs_new_def)

lemma index_contents:
  "indexes kd (index_files L Map.empty) \<Longrightarrow> keydir_get k kd = None \<longleftrightarrow> contents L k = None"
  by (simp add: indexes_def contents_def)

section \<open>Reading a value\<close>

lemma rec_value_bytes: "drop (HEADER_SIZE + length k) (rec_bytes C (k, v, t, ts)) = v"
proof -
  obtain hdr where "rec_bytes C (k, v, t, ts) = hdr @ k @ v" "length hdr = HEADER_SIZE"
    using encode_entry_split [of C k v t ts] by auto
  then show ?thesis by simp
qed

lemma value_slice:
  "take (length v) (drop (log_len pre + HEADER_SIZE + length k)
     (log_bytes C (pre @ (k, v, t, ts) # post) @ tail)) = v"
proof -
  have "drop (log_len pre + HEADER_SIZE + length k) (log_bytes C (pre @ (k, v, t, ts) # post) @ tail) =
      drop (HEADER_SIZE + length k) (rec_bytes C (k, v, t, ts) @ log_bytes C post @ tail)"
    by (simp add: add.assoc del: rec_bytes.simps)
  also have "\<dots> = v @ log_bytes C post @ tail"
    using rec_value_bytes [of k C v t ts] length_rec_bytes [of C "(k, v, t, ts)"]
    by (simp add: drop_append del: rec_bytes.simps)
  finally show ?thesis by simp
qed

lemma pread_located:
  assumes "disk C w L T" and "w_outs w = []" and "located L k ent v"
    and "lookup (data_path (kd_file_id ent)) w = Some i"
  shows "pread_exact i (kd_value_pos ent) (kd_value_size ent) w = (Inr v, w)"
proof -
  obtain fid pre post ts where mem: "(fid, pre @ (k, v, False, ts) # post) \<in> set L"
    and ent: "ent = located_entry fid (log_len pre) (k, v, False, ts)"
    using assms(3) unfolding located_def by blast
  note f = disk_fileD [OF assms(1) mem]
  let ?rs = "pre @ (k, v, False, ts) # post" and ?pos = "log_len pre + HEADER_SIZE + length k"
  have data: "data_of i w = log_bytes C ?rs @ T fid"
    using f(4) assms(4) by (simp add: ent located_entry_def file_bytes_lookup)
  have len: "?pos + length v \<le> length (log_bytes C ?rs @ T fid)"
    unfolding length_append length_log_bytes by simp
  also have "\<dots> < 2 ^ 64" using f(2) unfolding length_append length_log_bytes by simp
  finally have pos: "unat (of_nat ?pos :: u64) = ?pos" by (intro unat_of_nat_u64) simp
  have "length v < 2 ^ 32" using f(1) by (simp add: sizes_ok_def)
  then have n: "unat (of_nat (length v) :: u32) = length v" by (rule unat_of_nat_u32)
  have e: "kd_value_pos ent = of_nat ?pos" "kd_value_size ent = of_nat (length v)"
    by (simp_all add: ent located_entry_def)
  show ?thesis
    unfolding pread_exact_def e n
    using read_exact_at_no_fault [OF assms(2), of "of_nat ?pos" "length v" i] len
    unfolding pos data value_slice by simp
qed

lemma lookup_located:
  assumes "disk C w L T" and "located L k ent v"
  obtains i where "lookup (data_path (kd_file_id ent)) w = Some i"
proof -
  obtain fid pre post ts where mem: "(fid, pre @ (k, v, False, ts) # post) \<in> set L"
    and "ent = located_entry fid (log_len pre) (k, v, False, ts)"
    using assms(2) unfolding located_def by blast
  then show thesis using disk_fileD(4) [OF assms(1) mem] that by (auto simp: file_bytes_def located_entry_def)
qed

lemma dfs_read_located:
  assumes "disk C w L T" and "w_outs w = []" and "located L k ent v" and "readers_ok fs w"
  obtains fs' where "dfs_read_at (kd_file_id ent) (kd_value_pos ent) (kd_value_size ent) (fs, w) = (Inr v, (fs', w))"
    and "readers_ok fs' w"
proof -
  obtain i where i: "lookup (data_path (kd_file_id ent)) w = Some i"
    by (rule lookup_located [OF assms(1,3)])
  note pread = pread_located [OF assms(1,2,3) i]
  show thesis
  proof (cases "map_of (dfs_readers fs) (kd_file_id ent)")
    case None
    let ?fs = "fs\<lparr>dfs_readers := (kd_file_id ent, i) # dfs_readers fs\<rparr>"
    have "dfs_read_at (kd_file_id ent) (kd_value_pos ent) (kd_value_size ent) (fs, w) = (Inr v, (?fs, w))"
      by (simp add: dfs_read_at_def None bindE_def open_read_no_fault assms(2) i pread)
    moreover have "readers_ok ?fs w" using assms(4) i by (simp add: readers_ok_def)
    ultimately show thesis by (rule that)
  next
    case (Some j)
    then have "j = i" using assms(4) i by (simp add: readers_ok_def)
    then have "dfs_read_at (kd_file_id ent) (kd_value_pos ent) (kd_value_size ent) (fs, w) = (Inr v, (fs, w))"
      by (simp add: dfs_read_at_def Some bindE_def pread)
    then show thesis using assms(4) by (rule that)
  qed
qed

lemma read_inv_located:
  assumes "read_inv C kd fs w L T" and "keydir_get k kd = Some ent"
  obtains v where "contents L k = Some v" and "located L k ent v"
proof -
  have "map_option fst (index_files L Map.empty k) = Some ent"
    using assms by (simp add: read_inv_def indexes_def)
  then obtain v where v: "index_files L Map.empty k = Some (ent, v)" by auto
  with index_files_located [OF v] show thesis by (intro that [of v]) (auto simp: contents_def)
qed

lemma read_value_inv:
  assumes "read_inv C (eg_keydir eg) (eg_files eg) w L T" and "keydir_get k (eg_keydir eg) = Some ent"
  obtains v fs' where "contents L k = Some v" and "read_value ent (eg, w) = (Inr v, (eg\<lparr>eg_files := fs'\<rparr>, w))"
    and "read_inv C (eg_keydir eg) fs' w L T"
proof -
  obtain v where v: "contents L k = Some v" "located L k ent v" by (rule read_inv_located [OF assms])
  obtain fs' where fs': "dfs_read_at (kd_file_id ent) (kd_value_pos ent) (kd_value_size ent) (eg_files eg, w) =
      (Inr v, (fs', w))" and r: "readers_ok fs' w"
    using assms(1) dfs_read_located [of C w L T k ent v "eg_files eg"] v(2) by (auto simp: read_inv_def)
  have "read_value ent (eg, w) = (Inr v, (eg\<lparr>eg_files := fs'\<rparr>, w))"
    by (simp add: read_value_def map_err_def zoom_def fs')
  moreover have "read_inv C (eg_keydir eg) fs' w L T" using assms(1) r by (simp add: read_inv_def)
  ultimately show thesis by (rule that [OF v(1)])
qed

section \<open>The operations that read\<close>

definition eg_read_inv :: "'h crc32fast \<Rightarrow> engine \<times> world \<Rightarrow> files \<Rightarrow> (u32 \<Rightarrow> bytes) \<Rightarrow> bool" where
  "eg_read_inv C = (\<lambda>(eg, w) L T. read_inv C (eg_keydir eg) (eg_files eg) w L T)"

text \<open>What a read may change of an engine: its cached handles and its metrics.\<close>

definition same_but_reads :: "engine \<Rightarrow> engine \<Rightarrow> bool" where
  "same_but_reads eg eg' \<longleftrightarrow> eg_keydir eg' = eg_keydir eg \<and> eg_active eg' = eg_active eg \<and>
     eg_gc eg' = eg_gc eg \<and> eg_next_file_id eg' = eg_next_file_id eg \<and> eg_opts eg' = eg_opts eg \<and>
     eg_write_lock eg' = eg_write_lock eg"

lemma same_but_reads_refl [simp]: "same_but_reads eg eg"
  by (simp add: same_but_reads_def)

lemma same_but_reads_trans:
  "same_but_reads eg eg' \<Longrightarrow> same_but_reads eg' eg'' \<Longrightarrow> same_but_reads eg eg''"
  by (simp add: same_but_reads_def)

lemma same_but_reads_upd [simp]:
  "same_but_reads eg (eg\<lparr>eg_files := fs\<rparr>)" "same_but_reads eg (eg_record x eg)"
  by (simp_all add: same_but_reads_def eg_record_def)

lemma engine_get_inv:
  assumes "eg_read_inv C (eg, w) L T"
  obtains eg' where "engine_get k (eg, w) = (Inr (contents L k), (eg', w))" and "eg_read_inv C (eg', w) L T"
    and "same_but_reads eg eg'"
proof (cases "keydir_get k (eg_keydir eg)")
  case None
  then have c: "contents L k = None"
    using assms index_contents [of "eg_keydir eg" L k] by (simp add: eg_read_inv_def read_inv_def)
  show thesis
  proof (rule that [of "eg_record RecordGet eg"])
    show "engine_get k (eg, w) = (Inr (contents L k), (eg_record RecordGet eg, w))"
      by (simp add: engine_get_def None bindE_def c)
    show "eg_read_inv C (eg_record RecordGet eg, w) L T"
      using assms by (simp add: eg_read_inv_def eg_record_def)
  qed simp
next
  case (Some ent)
  obtain v fs' where c: "contents L k = Some v" and r: "read_value ent (eg, w) = (Inr v, (eg\<lparr>eg_files := fs'\<rparr>, w))"
    and i: "read_inv C (eg_keydir eg) fs' w L T"
    using assms Some read_value_inv [of C eg w L T k ent] unfolding eg_read_inv_def by auto
  show thesis
  proof (rule that [of "eg_record RecordGet (eg\<lparr>eg_files := fs'\<rparr>)"])
    show "engine_get k (eg, w) = (Inr (contents L k), (eg_record RecordGet (eg\<lparr>eg_files := fs'\<rparr>), w))"
      by (simp add: engine_get_def Some bindE_def r c)
    show "eg_read_inv C (eg_record RecordGet (eg\<lparr>eg_files := fs'\<rparr>), w) L T"
      using i by (simp add: eg_read_inv_def eg_record_def)
    show "same_but_reads eg (eg_record RecordGet (eg\<lparr>eg_files := fs'\<rparr>))"
      by (rule same_but_reads_trans [OF same_but_reads_upd(1) same_but_reads_upd(2)])
  qed
qed

lemma list_keys_inv:
  assumes "eg_read_inv C (eg, w) L T" and "iteration_order ord"
  obtains ks where "list_keys ord (eg, w) = (Inr ks, (eg, w))" and "distinct ks"
    and "set ks = {k. contents L k \<noteq> None}"
proof -
  have ok: "keydir_ok (eg_keydir eg)" and ix: "indexes (eg_keydir eg) (index_files L Map.empty)"
    using assms(1) by (simp_all add: eg_read_inv_def read_inv_def)
  show thesis
  proof (rule that [of "map fst (snapshot ord (eg_keydir eg))"])
    show "distinct (map fst (snapshot ord (eg_keydir eg)))" by (rule snapshot_keys_distinct [OF assms(2) ok])
    show "set (map fst (snapshot ord (eg_keydir eg))) = {k. contents L k \<noteq> None}"
      by (simp only: set_snapshot_keys [OF assms(2) ok] index_contents [OF ix])
  qed (simp add: list_keys_def)
qed

lemma fold_loop_inv:
  assumes "eg_read_inv C (eg, w) L T" and "\<And>k e. (k, e) \<in> set items \<Longrightarrow> keydir_get k (eg_keydir eg) = Some e"
  shows "\<exists>eg'. fold_loop f items acc (eg, w) =
      (Inr (fold (\<lambda>(k, _). f k (the (contents L k))) items acc), (eg', w)) \<and>
    eg_read_inv C (eg', w) L T \<and> same_but_reads eg eg'"
  using assms
proof (induction items arbitrary: eg acc)
  case Nil
  then show ?case by auto
next
  case (Cons x items)
  obtain k e where x: "x = (k, e)" by fastforce
  have "keydir_get k (eg_keydir eg) = Some e" using Cons.prems(2) x by simp
  then obtain v fs' where c: "contents L k = Some v" and r: "read_value e (eg, w) = (Inr v, (eg\<lparr>eg_files := fs'\<rparr>, w))"
    and i: "read_inv C (eg_keydir eg) fs' w L T"
    using Cons.prems(1) read_value_inv [of C eg w L T k e] unfolding eg_read_inv_def by auto
  have "\<exists>eg'. fold_loop f items (f k v acc) (eg\<lparr>eg_files := fs'\<rparr>, w) =
      (Inr (fold (\<lambda>(k, _). f k (the (contents L k))) items (f k v acc)), (eg', w)) \<and>
    eg_read_inv C (eg', w) L T \<and> same_but_reads (eg\<lparr>eg_files := fs'\<rparr>) eg'"
    using Cons.prems i by (intro Cons.IH) (auto simp: eg_read_inv_def)
  then show ?case
    using same_but_reads_trans [OF same_but_reads_upd(1)] by (auto simp: x bindE_def r c)
qed

end
