(* ===== verification/Writes.thy ===== *)
theory Writes
  imports Store
begin

text \<open>
  What appending a record, and starting a new active file, do to the directory and to the invariants.
\<close>

section \<open>The directory\<close>

lemma disk_append:
  assumes "disk C w (L @ [(fid, rs)]) T" and "world_ok w" and "lookup (data_path fid) w = Some i"
    and "T fid = []" and "file_bytes (hint_path fid) w = None" and "rec_ok r"
    and "log_len (rs @ [r]) < 2 ^ 64"
  shows "disk C (append_data i (rec_bytes C r) w) (L @ [(fid, rs @ [r])]) T"
proof -
  let ?w = "append_data i (rec_bytes C r) w"
  note old = assms(1) [unfolded disk_def]
  have new: "fid \<notin> fst ` set L" using diskD(2) [OF assms(1)] by auto
  have other: "file_bytes n ?w = file_bytes n w" if "n \<noteq> data_path fid" for n
    using that lookup_inj [OF assms(2) _ assms(3), of n] by (auto simp: file_bytes_append_data assms(2))
  have "data_of i w = log_bytes C rs"
    using disk_fileD(4) [OF assms(1), of fid rs] assms(3,4) by (simp add: file_bytes_lookup)
  then have this_file: "file_bytes (data_path fid) ?w = Some (log_bytes C (rs @ [r]))"
    by (simp add: file_bytes_append_data assms(2,3) del: rec_bytes.simps)
  show ?thesis
    unfolding disk_def
  proof (intro conjI allI ballI)
    show "sorted_wrt (<) (map fst (L @ [(fid, rs @ [r])]))" using old by simp
  next
    fix f
    show "file_bytes (data_path f) ?w =
        map_option (\<lambda>rs. log_bytes C rs @ T f) (map_of (L @ [(fid, rs @ [r])]) f)"
    proof (cases "f = fid")
      case True
      then have "map_of L f = None" using new by (simp add: map_of_eq_None_iff)
      then show ?thesis using True this_file assms(4) by (simp add: map_add_def)
    next
      case False
      then have "file_bytes (data_path f) ?w = map_option (\<lambda>rs. log_bytes C rs @ T f) (map_of (L @ [(fid, rs)]) f)"
        using diskD(3) [OF assms(1), of f] by (subst other) simp_all
      then show ?thesis using False by (cases "map_of L f") (simp_all add: map_add_def)
    qed
  next
    fix x assume x: "x \<in> set (L @ [(fid, rs @ [r])])"
    have "file_bytes (hint_path f) ?w = file_bytes (hint_path f) w" for f by (rule other) simp
    then show "case x of (f, rs) \<Rightarrow> list_all rec_ok rs \<and> log_len rs + length (T f) < 2 ^ 64 \<and> torn C (T f) \<and>
        (\<forall>hb. file_bytes (hint_path f) ?w = Some hb \<longrightarrow> verify_hint_file C hb = None \<or> hint_valid C rs hb)"
      using x old assms(4,5,6,7) by auto
  qed
qed

lemma disk_new_file:
  assumes "disk C w L T" and "world_ok w" and "\<forall>f \<in> fst ` set L. f < fid"
    and "file_bytes (hint_path fid) w = None" and "new_file (data_path fid) w = (Inr i, w')"
  shows "disk C w' (L @ [(fid, [])]) (T(fid := []))" and "lookup (data_path fid) w = None"
proof -
  note old = assms(1) [unfolded disk_def]
  have new: "fid \<notin> fst ` set L" using assms(3) by auto
  then have none: "map_of L fid = None" by (simp add: map_of_eq_None_iff)
  then show fresh: "lookup (data_path fid) w = None"
    using diskD(3) [OF assms(1), of fid] by (simp add: file_bytes_None)
  note w' = new_file_facts(3) [OF assms(2) fresh assms(5)]
  show "disk C w' (L @ [(fid, [])]) (T(fid := []))"
    unfolding disk_def
  proof (intro conjI allI ballI)
    show "sorted_wrt (<) (map fst (L @ [(fid, [])]))"
      using old assms(3) by (auto simp: sorted_wrt_append)
  next
    fix f
    show "file_bytes (data_path f) w' =
        map_option (\<lambda>rs. log_bytes C rs @ (T(fid := [])) f) (map_of (L @ [(fid, [])]) f)"
      using diskD(3) [OF assms(1), of f] none by (auto simp: w' map_add_def split: option.splits)
  next
    fix x assume x: "x \<in> set (L @ [(fid, [])])"
    then show "case x of (f, rs) \<Rightarrow> list_all rec_ok rs \<and> log_len rs + length ((T(fid := [])) f) < 2 ^ 64 \<and>
        torn C ((T(fid := [])) f) \<and>
        (\<forall>hb. file_bytes (hint_path f) w' = Some hb \<longrightarrow> verify_hint_file C hb = None \<or> hint_valid C rs hb)"
      using old assms(3,4) by (auto simp: w')
  qed
qed

section \<open>The active file\<close>

text \<open>
  The active file is the newest file of the directory, everything appended to it is flushed, it is
  below the rotation threshold unless it is empty, and neither it nor a later id has a hint file.
\<close>

definition active_ok :: "u64 \<Rightarrow> active_file \<Rightarrow> u32 \<Rightarrow> world \<Rightarrow> files \<Rightarrow> (u32 \<Rightarrow> bytes) \<Rightarrow> bool" where
  "active_ok m af nid w L T \<longleftrightarrow>
     (\<exists>L0 rs. L = L0 @ [(af_file_id af, rs)] \<and> af_offset af = of_nat (log_len rs) \<and>
        (rs = [] \<or> log_len rs < unat m)) \<and>
     T (af_file_id af) = [] \<and> bw_buf (af_writer af) = [] \<and>
     lookup (data_path (af_file_id af)) w = Some (bw_file (af_writer af)) \<and>
     af_read_handle af = bw_file (af_writer af) \<and>
     af_file_id af < nid \<and>
     (\<forall>fid. lookup (hint_path fid) w \<noteq> None \<longrightarrow> fid < af_file_id af)"

text \<open>Names keep their inodes and locks stay as they are.\<close>

definition extends :: "world \<Rightarrow> world \<Rightarrow> bool" where
  "extends w w' \<longleftrightarrow> (\<forall>n i. lookup n w = Some i \<longrightarrow> lookup n w' = Some i) \<and> w_locks w' = w_locks w \<and>
     (\<forall>n. (\<forall>fid. n \<noteq> data_path fid) \<longrightarrow> lookup n w' = lookup n w)"

lemma extends_refl [simp]: "extends w w"
  by (simp add: extends_def)

lemma extends_trans: "extends w w' \<Longrightarrow> extends w' w'' \<Longrightarrow> extends w w''"
  by (simp add: extends_def)

lemma extends_append_data [simp]: "extends w (append_data i bs w)"
  by (simp add: extends_def)

lemma extends_mark_durable [simp]: "extends w (mark_durable i w)"
  by (simp add: extends_def)

lemma readers_ok_extends: "readers_ok fs w \<Longrightarrow> extends w w' \<Longrightarrow> readers_ok fs w'"
  by (simp add: readers_ok_def extends_def)

lemma file_bytes_mark_durable [simp]: "file_bytes n (mark_durable i w) = file_bytes n w"
  by (simp add: file_bytes_def)

lemma world_ok_mark_durable [simp]: "world_ok (mark_durable i w) = world_ok w"
  by (rule world_ok_cong) simp_all

lemma disk_mark_durable [simp]: "disk C (mark_durable i w) L T = disk C w L T"
  by (rule disk_cong) simp

lemma active_ok_mark_durable [simp]: "active_ok m af nid (mark_durable i w) L T = active_ok m af nid w L T"
  by (simp add: active_ok_def)

text \<open>A file whose data has all been synced, and a directory where only one file may not be.\<close>

definition durable_file :: "string \<Rightarrow> world \<Rightarrow> bool" where
  "durable_file n w \<longleftrightarrow>
     (\<exists>i. lookup n w = Some i \<and> i < length (w_inodes w) \<and> i_durable (w_inodes w ! i) = length (data_of i w))"

definition synced_but :: "u32 \<Rightarrow> world \<Rightarrow> files \<Rightarrow> bool" where
  "synced_but fid w L \<longleftrightarrow> (\<forall>f \<in> fst ` set L. f \<noteq> fid \<longrightarrow> durable_file (data_path f) w)"

lemma durable_file_mark [simp]: "durable_file n w \<Longrightarrow> durable_file n (mark_durable i w)"
  unfolding durable_file_def
  by (elim exE conjE) (intro exI conjI, auto simp: mark_durable_def data_of_def nth_list_update lookup_def)

lemma durable_file_marked: "lookup n w = Some i \<Longrightarrow> i < length (w_inodes w) \<Longrightarrow> durable_file n (mark_durable i w)"
  unfolding durable_file_def by (intro exI [of _ i]) (auto simp: mark_durable_def data_of_def lookup_def)

lemma durable_file_append:
  assumes "world_ok w" and "lookup n w = Some i" and "n' \<noteq> n" and "durable_file n' w"
  shows "durable_file n' (append_data i bs w)"
proof -
  obtain j where j: "lookup n' w = Some j" "j < length (w_inodes w)"
    "i_durable (w_inodes w ! j) = length (data_of j w)"
    using assms(4) by (auto simp: durable_file_def)
  have "j \<noteq> i" using lookup_inj [OF assms(1) j(1), of n] assms(2,3) by auto
  then show ?thesis unfolding durable_file_def
    using j by (intro exI [of _ j]) (simp add: append_data_def data_of_def lookup_def)
qed

lemma durable_new_file:
  assumes "world_ok w" and "lookup name w = None" and "new_file name w = (Inr i, w')"
    and "durable_file n w \<or> n = name"
  shows "durable_file n w'"
proof (cases "n = name")
  case True
  then show ?thesis using new_file_facts [OF assms(1,2,3)] assms(3)
    unfolding durable_file_def by (intro exI [of _ i]) (auto simp: new_file_def nth_append data_of_def)
next
  case False
  then obtain j where j: "lookup n w = Some j" "j < length (w_inodes w)"
    "i_durable (w_inodes w ! j) = length (data_of j w)"
    using assms(4) by (auto simp: durable_file_def)
  then show ?thesis using new_file_facts [OF assms(1,2,3)] assms(3) False
    unfolding durable_file_def by (intro exI [of _ j]) (auto simp: new_file_def nth_append data_of_def)
qed

definition fresh_active :: "u32 \<Rightarrow> nat \<Rightarrow> active_file" where
  "fresh_active fid i = \<lparr>af_file_id = fid, af_writer = bw_new i, af_read_handle = i, af_offset = 0\<rparr>"

lemma af_create_new:
  assumes "w_outs w = []" and "world_ok w" and "lookup (data_path fid) w = None"
    and "new_file (data_path fid) w = (Inr i, w')"
  shows "af_create fid w = (Inr (fresh_active fid i), w')"
proof -
  note facts = new_file_facts [OF assms(2,3,4)]
  have "open_append (data_path fid) w = (Inr i, w')"
    using assms by (simp add: open_append_def sys_no_fault)
  moreover have "file_len i w' = (Inr 0, w')"
    using facts(4) [of i] facts(5) assms(1) by (simp add: file_len_def sys_no_fault)
  moreover have "try_clone i w' = (Inr i, w')"
    using facts(5) assms(1) by (simp add: try_clone_def sys_no_fault)
  ultimately show ?thesis by (simp add: af_create_def bindE_def fresh_active_def)
qed

lemma unat_plus_one: "unat (n :: u32) < 2 ^ 32 - 1 \<Longrightarrow> unat (n + 1) = Suc (unat n)"
  using unat_add_lem [of n 1] by simp

lemma af_create_ok:
  assumes "disk C w L T" and "world_ok w" and "w_outs w = []" and "\<forall>f \<in> fst ` set L. f < fid"
    and "\<forall>f. lookup (hint_path f) w \<noteq> None \<longrightarrow> f < fid" and "unat fid < 2 ^ 32 - 1"
  obtains i w' where "af_create fid w = (Inr (fresh_active fid i), w')" and "extends w w'"
    and "disk C w' (L @ [(fid, [])]) (T(fid := []))" and "world_ok w'" and "w_outs w' = []"
    and "active_ok m (fresh_active fid i) (fid + 1) w' (L @ [(fid, [])]) (T(fid := []))"
    and "w_warnings w' = w_warnings w"
    and "\<And>n. durable_file n w \<or> n = data_path fid \<Longrightarrow> durable_file n w'"
proof -
  obtain i w' where n: "new_file (data_path fid) w = (Inr i, w')" by (simp add: new_file_def)
  have h: "file_bytes (hint_path fid) w = None"
    using assms(5) unfolding file_bytes_None by (metis less_irrefl)
  note d = disk_new_file [OF assms(1,2,4) h n]
  note f = new_file_facts [OF assms(2) d(2) n]
  have "af_create fid w = (Inr (fresh_active fid i), w')" by (rule af_create_new [OF assms(3,2) d(2) n])
  moreover have "extends w w'" using f(2,6) d(2) by (auto simp: extends_def)
  moreover have "active_ok m (fresh_active fid i) (fid + 1) w' (L @ [(fid, [])]) (T(fid := []))"
    using f(2) assms(5) unat_plus_one [OF assms(6)]
    by (auto simp: active_ok_def fresh_active_def bw_new_def word_less_nat_alt)
  moreover have "w_warnings w' = w_warnings w" using n by (auto simp: new_file_def)
  ultimately show thesis using that d(1) f(1,5) assms(3) durable_new_file [OF assms(2) d(2) n] by simp
qed

section \<open>Appending\<close>

definition store_ok :: "'h crc32fast \<Rightarrow> u64 \<Rightarrow> append_state \<Rightarrow> files \<Rightarrow> (u32 \<Rightarrow> bytes) \<Rightarrow> bool" where
  "store_ok C m = (\<lambda>((af, gc, nid), w) L T.
     disk C w L T \<and> world_ok w \<and> w_outs w = [] \<and> active_ok m af nid w L T \<and> gc_ok gc)"

lemma rec_len_bound: "rec_ok r \<Longrightarrow> rec_len r < 2 ^ 33"
  by (cases r) (simp add: sizes_ok_def HEADER_SIZE_def)

lemma log_ids_less:
  assumes "disk C w (L @ [(fid, rs)]) T" and "fid < nid"
  shows "\<forall>f \<in> fst ` set (L @ [(fid, rs')]). f < nid"
proof -
  have "\<forall>f \<in> fst ` set L. f < fid" using diskD(1) [OF assms(1)] by (auto simp: sorted_wrt_append)
  moreover have "fid < nid" using assms(2) by (simp add: word_less_nat_alt)
  ultimately show ?thesis by (auto intro: less_trans)
qed

text \<open>No file has an id from \<open>n0\<close> on.\<close>

definition unused_from :: "u32 \<Rightarrow> world \<Rightarrow> bool" where
  "unused_from n0 w \<longleftrightarrow> (\<forall>f. n0 \<le> f \<longrightarrow> lookup (data_path f) w = None \<and> lookup (hint_path f) w = None)"

lemma unused_from_mono: "unused_from n0 w \<Longrightarrow> n0 \<le> n1 \<Longrightarrow> unused_from n1 w"
  by (auto simp: unused_from_def intro: order_trans)

lemma unused_from_next:
  assumes "disk C w L T" and "active_ok m af nid w L T"
  shows "unused_from nid w"
proof -
  obtain L0 rs where L: "L = L0 @ [(af_file_id af, rs)]" and nid: "af_file_id af < nid"
    and h: "\<forall>f. lookup (hint_path f) w \<noteq> None \<longrightarrow> f < af_file_id af"
    using assms(2) by (auto simp: active_ok_def)
  have lt: "\<forall>f \<in> fst ` set L. f < nid" using log_ids_less [OF assms(1) [unfolded L] nid] L by auto
  have "lookup (data_path f) w = None \<and> lookup (hint_path f) w = None" if f: "nid \<le> f" for f
  proof
    have "f \<notin> fst ` set L" using lt f by force
    then have "map_of L f = None" by (simp add: map_of_eq_None_iff)
    then show "lookup (data_path f) w = None" using diskD(3) [OF assms(1), of f] by (simp add: file_bytes_None)
    have "\<not> f < af_file_id af" using f nid by (simp add: not_less less_imp_le order_trans)
    then show "lookup (hint_path f) w = None" using h by blast
  qed
  then show ?thesis by (simp add: unused_from_def)
qed

lemma index_files_snoc:
  "index_files (L @ [(fid, rs @ [r])]) m0 = index_step fid (log_len rs) r (index_files (L @ [(fid, rs)]) m0)"
  by (simp add: index_recs_append)

text \<open>The record lands in the active file and is flushed.\<close>

lemma append_active:
  assumes "store_ok C m ((af, gc, nid), w) (L0 @ [(af_file_id af, rs)]) T"
    and "af_offset af = of_nat (log_len rs)" and "rec_ok (k, v, t, ts)"
    and "log_len (rs @ [(k, v, t, ts)]) < 2 ^ 64"
  shows "af_append (encode_entry C k v t ts) (af, w) =
      (Inr (af_file_id af, of_nat (log_len rs + HEADER_SIZE + length k), of_nat (rec_len (k, v, t, ts))),
       (af\<lparr>af_offset := of_nat (log_len (rs @ [(k, v, t, ts)]))\<rparr>,
        append_data (bw_file (af_writer af)) (rec_bytes C (k, v, t, ts)) w))"
    and "disk C (append_data (bw_file (af_writer af)) (rec_bytes C (k, v, t, ts)) w)
      (L0 @ [(af_file_id af, rs @ [(k, v, t, ts)])]) T"
proof -
  have st: "disk C w (L0 @ [(af_file_id af, rs)]) T" "world_ok w" "w_outs w = []" "T (af_file_id af) = []"
    "bw_buf (af_writer af) = []"
    "lookup (data_path (af_file_id af)) w = Some (bw_file (af_writer af))"
    "\<forall>fid. lookup (hint_path fid) w \<noteq> None \<longrightarrow> fid < af_file_id af"
    using assms(1) by (auto simp: store_ok_def active_ok_def)
  have h: "file_bytes (hint_path (af_file_id af)) w = None"
    using st(7) unfolding file_bytes_None by (metis less_irrefl)
  show "disk C (append_data (bw_file (af_writer af)) (rec_bytes C (k, v, t, ts)) w)
      (L0 @ [(af_file_id af, rs @ [(k, v, t, ts)])]) T"
    by (rule disk_append [OF st(1,2,6,4) h assms(3,4)])
  have buf: "(af_writer af)\<lparr>bw_buf := []\<rparr> = af_writer af" using st(5) by simp
  have pos: "af_offset af + (of_nat (rec_len (k, v, t, ts)) - of_nat (length v)) =
      of_nat (log_len rs + HEADER_SIZE + length k)"
    by (simp add: assms(2))
  have off: "af_offset af + of_nat (rec_len (k, v, t, ts)) = of_nat (log_len (rs @ [(k, v, t, ts)]))"
    by (simp add: assms(2))
  have len: "length (ee_bytes (encode_entry C k v t ts)) = rec_len (k, v, t, ts)"
    by (simp add: length_encode_entry)
  show "af_append (encode_entry C k v t ts) (af, w) =
      (Inr (af_file_id af, of_nat (log_len rs + HEADER_SIZE + length k), of_nat (rec_len (k, v, t, ts))),
       (af\<lparr>af_offset := of_nat (log_len (rs @ [(k, v, t, ts)]))\<rparr>,
        append_data (bw_file (af_writer af)) (rec_bytes C (k, v, t, ts)) w))"
    unfolding af_append_no_fault [OF st(3)] ee_value_len_encode_entry len pos off buf st(5)
    by simp
qed

text \<open>A new active file takes the place of one that is flushed and known to the directory.\<close>

lemma rotate_active_ok:
  assumes "disk C w L T" and "world_ok w" and "w_outs w = []"
    and "bw_buf (af_writer af) = []" and "\<forall>f \<in> fst ` set L. f < nid"
    and "\<forall>f. lookup (hint_path f) w \<noteq> None \<longrightarrow> f < nid" and "unat nid < 2 ^ 32 - 1" and "gc_ok gc"
    and "lookup (data_path (af_file_id af)) w = Some (bw_file (af_writer af))"
  shows "\<exists>j w'. rotate_active ((af, gc, nid), w) = (Inr (), ((fresh_active nid j, mark_all_durable gc, nid + 1), w')) \<and>
    store_ok C m ((fresh_active nid j, mark_all_durable gc, nid + 1), w') (L @ [(nid, [])]) (T(nid := [])) \<and>
    extends w w' \<and> durable_file (data_path nid) w' \<and>
    (synced_but (af_file_id af) w L \<longrightarrow> synced_but nid w' (L @ [(nid, [])]))"
proof -
  let ?w1 = "mark_durable (bw_file (af_writer af)) w"
  have hints: "\<forall>f. lookup (hint_path f) ?w1 \<noteq> None \<longrightarrow> f < nid" using assms(6) by auto
  have w1: "disk C ?w1 L T" "world_ok ?w1" "w_outs ?w1 = []" using assms by simp_all
  obtain j w2 where c: "af_create nid ?w1 = (Inr (fresh_active nid j), w2)"
    and e: "extends ?w1 w2" and d: "disk C w2 (L @ [(nid, [])]) (T(nid := []))"
    and o: "world_ok w2" "w_outs w2 = []"
    and a: "active_ok m (fresh_active nid j) (nid + 1) w2 (L @ [(nid, [])]) (T(nid := []))"
    and "w_warnings w2 = w_warnings ?w1"
    and du: "\<And>n. durable_file n ?w1 \<or> n = data_path nid \<Longrightarrow> durable_file n w2"
    by (rule af_create_ok [OF w1 assms(5) hints assms(7), of m]) blast
  have "durable_file (data_path (af_file_id af)) ?w1"
    by (rule durable_file_marked [OF assms(9) lookup_bound [OF assms(2,9)]])
  then have sy: "synced_but nid w2 (L @ [(nid, [])])" if "synced_but (af_file_id af) w L"
    using that du by (auto simp: synced_but_def)
  have buf: "(af_writer af)\<lparr>bw_buf := []\<rparr> = af_writer af" using assms(4) by simp
  have "af_sync (af, w) = (Inr (), (af, ?w1))"
    using af_sync_no_fault [OF assms(3), of af] assms(4) buf by simp
  then have "rotate_active ((af, gc, nid), w) = (Inr (), ((fresh_active nid j, mark_all_durable gc, nid + 1), w2))"
    by (simp add: rotate_active_def bindE_def on_af_def zoom_def c)
  moreover have "extends w w2" using e by (auto intro: extends_trans extends_mark_durable)
  ultimately show ?thesis using d o a assms(8) sy du by (auto simp: store_ok_def)
qed

text \<open>The whole locked part of an append, rotation included.\<close>

text \<open>What is on disk stays where it is.\<close>

lemma located_more: "located L k ent v \<Longrightarrow> located (L @ L') k ent v"
  by (auto simp: located_def)

lemma located_snoc:
  assumes "located (L @ [(fid, rs)]) k ent v"
  shows "located (L @ [(fid, rs @ [r])]) k ent v"
proof -
  obtain fid' pre post ts where mem: "(fid', pre @ (k, v, False, ts) # post) \<in> set (L @ [(fid, rs)])"
    and ent: "ent = located_entry fid' (log_len pre) (k, v, False, ts)"
    using assms unfolding located_def by blast
  show ?thesis
  proof (cases "(fid', pre @ (k, v, False, ts) # post) \<in> set L")
    case False
    then have "(fid', pre @ (k, v, False, ts) # post @ [r]) \<in> set (L @ [(fid, rs @ [r])])" using mem by auto
    then show ?thesis using ent unfolding located_def by blast
  qed (use ent in \<open>auto simp: located_def\<close>)
qed

definition grows :: "u32 \<Rightarrow> files \<Rightarrow> u32 \<Rightarrow> files \<Rightarrow> bool" where
  "grows cur L cur' L' \<longleftrightarrow> cur \<le> cur' \<and> (\<forall>x \<in> set L. fst x < cur \<longrightarrow> x \<in> set L') \<and>
     (\<forall>k ent v. located L k ent v \<longrightarrow> located L' k ent v)"

lemma growsD:
  assumes "grows cur L cur' L'"
  shows "cur \<le> cur'" and "x \<in> set L \<Longrightarrow> fst x < cur \<Longrightarrow> x \<in> set L'" and "located L k ent v \<Longrightarrow> located L' k ent v"
  using assms by (simp_all add: grows_def)

lemma grows_refl [simp]: "grows cur L cur L"
  by (simp add: grows_def)

lemma grows_more: "grows cur L cur' L' \<Longrightarrow> grows cur L cur' (L' @ L'')"
  by (auto simp: grows_def located_more)

lemma grows_trans: "grows cur L cur' L' \<Longrightarrow> grows cur' L' cur'' L'' \<Longrightarrow> grows cur L cur'' L''"
  unfolding grows_def by (meson order_trans order_less_le_trans)

lemma append_locked_ok:
  assumes ok: "store_ok C m ((af, gc, nid), w) L T" and r: "rec_ok (k, v, t, ts)"
    and m: "unat m \<le> 2 ^ 63" and nid: "unat nid < 2 ^ 32 - 1" and gcb: "unat (gc_pending_writes gc) < 2 ^ 64 - 1"
  obtains fid pos af' gc' nid' w' L' T' where
    "append_locked m (encode_entry C k v t ts) ((af, gc, nid), w) =
      (Inr (fid, pos, gc_pending_writes gc + 1), ((af', gc', nid'), w'))"
    and "store_ok C m ((af', gc', nid'), w') L' T'"
    and "\<And>m0. index_files L' m0 = (index_files L m0)(k := if t then None else
      Some (\<lparr>kd_file_id = fid, kd_value_size = of_nat (length v), kd_value_pos = pos, kd_timestamp = ts\<rparr>, v))"
    and "extends w w'" and "nid \<le> nid'" and "unat nid' \<le> Suc (unat nid)" and "gc_pending_writes gc' = gc_pending_writes gc + 1"
    and "synced_but (af_file_id af) w L \<Longrightarrow> synced_but (af_file_id af') w' L'"
    and "gc_max_durable_generation gc' = gc_pending_writes gc' \<Longrightarrow> durable_file (data_path (af_file_id af')) w'"
    and "grows (af_file_id af) L (af_file_id af') L'" and "fid = af_file_id af"
proof -
  obtain L0 rs where L: "L = L0 @ [(af_file_id af, rs)]" and off: "af_offset af = of_nat (log_len rs)"
    and small: "rs = [] \<or> log_len rs < unat m" and un: "af_file_id af < nid"
    and hints: "\<forall>fid. lookup (hint_path fid) w \<noteq> None \<longrightarrow> fid < af_file_id af"
    using ok by (auto simp: store_ok_def active_ok_def)
  let ?r = "(k, v, t, ts)" and ?i = "bw_file (af_writer af)"
  let ?pos = "of_nat (log_len rs + HEADER_SIZE + length k) :: u64"
  have "log_len rs \<le> 2 ^ 63" using small m by auto
  then have lim: "log_len (rs @ [?r]) < 2 ^ 64" using rec_len_bound [OF r] by (simp del: rec_len.simps)
  note ap = append_active [OF ok [unfolded L] off r lim]
  define w1 where "w1 = append_data ?i (rec_bytes C ?r) w"
  define af1 where "af1 = af\<lparr>af_offset := of_nat (log_len (rs @ [?r]))\<rparr>"
  define gc1 where "gc1 = snd (record_pending gc)"
  define L1 where "L1 = L0 @ [(af_file_id af, rs @ [?r])]"
  have w1: "disk C w1 L1 T" "world_ok w1" "w_outs w1 = []" "extends w w1"
    using ap(2) ok by (simp_all add: w1_def L1_def store_ok_def)
  have gc1: "gc_ok gc1" "gc_pending_writes gc1 = gc_pending_writes gc + 1"
    using gc_ok_record_pending [OF _ gcb] ok by (auto simp: gc1_def store_ok_def record_pending_def)
  have gc1_max: "gc_max_durable_generation gc1 \<noteq> gc_pending_writes gc1"
  proof -
    have "unat (gc_max_durable_generation gc1) \<le> unat (gc_pending_writes gc)"
      using ok by (simp add: store_ok_def gc_ok_def gc1_def record_pending_def word_le_nat_alt)
    moreover have "unat (gc_pending_writes gc1) = Suc (unat (gc_pending_writes gc))"
      using unat_add_lem [of "gc_pending_writes gc" 1] gcb by (simp add: gc1(2))
    ultimately show ?thesis by auto
  qed
  have lk: "lookup (data_path (af_file_id af)) w = Some ?i" "world_ok w" "distinct (map fst L)"
    using ok diskD(2) by (auto simp: store_ok_def active_ok_def)
  have sy1: "synced_but (af_file_id af) w1 L1" if "synced_but (af_file_id af) w L"
    using that durable_file_append [OF lk(2,1)] unfolding w1_def L1_def L by (auto simp: synced_but_def)
  have rp: "record_pending gc = (gc_pending_writes gc + 1, gc1)"
    by (simp add: gc1_def record_pending_def)
  have len: "af_len af1 = of_nat (log_len (rs @ [?r]))" by (simp add: af_len_def af1_def)
  have step: "append_locked m (encode_entry C k v t ts) ((af, gc, nid), w) =
      bindE (if af_len af1 \<ge> m then rotate_active else retE ()) (\<lambda>_.
        retE (af_file_id af, ?pos, gc_pending_writes gc + 1)) ((af1, gc1, nid), w1)"
    by (simp add: append_locked_def bindE_def on_af_def zoom_def ap(1) rp w1_def [symmetric] af1_def [symmetric]
        del: rec_bytes.simps rec_len.simps of_nat_add log_len_simps)
  have idx: "index_files L1 m0 = (index_files L m0)(k := if t then None else
      Some (\<lparr>kd_file_id = af_file_id af, kd_value_size = of_nat (length v), kd_value_pos = ?pos, kd_timestamp = ts\<rparr>, v))"
    for m0
    unfolding L1_def L index_files_snoc by (simp add: index_step_def located_entry_def)
  have loc: "located L1 k' ent v'" if "located L k' ent v'" for k' ent v'
    using that unfolding L1_def L by (rule located_snoc)
  have gr: "grows (af_file_id af) L fid L1" if "af_file_id af \<le> fid" for fid
    using loc that by (auto simp: grows_def L1_def L)
  show thesis
  proof (cases "m \<le> af_len af1")
    case False
    have "log_len (rs @ [?r]) < unat m"
      using False unat_of_nat_u64 [OF lim] unfolding len by (simp add: word_less_nat_alt not_le)
    then have "active_ok m af1 nid w1 L1 T"
      using ok unfolding store_ok_def active_ok_def af1_def w1_def L1_def by (auto simp: L)
    then have "store_ok C m ((af1, gc1, nid), w1) L1 T" using w1 gc1 by (simp add: store_ok_def)
    then show thesis
      using that [of "af_file_id af" ?pos af1 gc1 nid w1 L1 T] step False idx w1(4) gc1(2) gc1_max sy1 gr
      by (simp add: af1_def)
  next
    case True
    have af1: "af_file_id af1 = af_file_id af" "bw_buf (af_writer af1) = []"
      using ok by (simp_all add: store_ok_def active_ok_def af1_def)
    have hints1: "\<forall>f. lookup (hint_path f) w1 \<noteq> None \<longrightarrow> f < nid"
      using hints un by (auto simp: w1_def intro: less_trans)
    have ids: "\<forall>f \<in> fst ` set L1. f < nid"
      unfolding L1_def by (rule log_ids_less [OF _ un]) (use ok L in \<open>auto simp: store_ok_def\<close>)
    have lk1: "lookup (data_path (af_file_id af1)) w1 = Some (bw_file (af_writer af1))"
      using lk(1) by (simp add: w1_def af1_def)
    obtain j w2 where c: "rotate_active ((af1, gc1, nid), w1) =
        (Inr (), ((fresh_active nid j, mark_all_durable gc1, nid + 1), w2))"
      and s2: "store_ok C m ((fresh_active nid j, mark_all_durable gc1, nid + 1), w2) (L1 @ [(nid, [])]) (T(nid := []))"
      and e: "extends w1 w2" and du: "durable_file (data_path nid) w2"
      and sy: "synced_but (af_file_id af) w1 L1 \<Longrightarrow> synced_but nid w2 (L1 @ [(nid, [])])"
      using rotate_active_ok [OF w1(1,2,3) af1(2) ids hints1 nid gc1(1) lk1, of m] unfolding af1(1) by blast
    have "append_locked m (encode_entry C k v t ts) ((af, gc, nid), w) =
      (Inr (af_file_id af, ?pos, gc_pending_writes gc + 1), ((fresh_active nid j, mark_all_durable gc1, nid + 1), w2))"
      unfolding step using True by (simp add: bindE_def c)
    moreover have "extends w w2" by (rule extends_trans [OF w1(4) e])
    moreover have "gc_pending_writes (mark_all_durable gc1) = gc_pending_writes gc + 1"
      using gc1(2) by (simp add: mark_all_durable_def)
    moreover have "synced_but (af_file_id (fresh_active nid j)) w2 (L1 @ [(nid, [])])" if "synced_but (af_file_id af) w L"
      using sy sy1 [OF that] by (simp add: fresh_active_def)
    moreover have "grows (af_file_id af) L nid (L1 @ [(nid, [])])"
      by (rule grows_more [OF gr]) (use un in simp)
    ultimately show thesis
      using that [of "af_file_id af" ?pos, OF _ s2] idx unat_plus_one [OF nid] du by (simp add: fresh_active_def word_le_nat_alt)
  qed
qed

end
