(* ===== verification/Hide.thy ===== *)
theory Hide
  imports Writes
begin

text \<open>
  Files beside the store: what a write does to the directory is what it does to the directory without the files of
  some other ids, such as the outputs of a merge, and those files stay as they are.
\<close>

section \<open>The directory without some files\<close>

definition names_of :: "u32 set \<Rightarrow> string set" where
  "names_of ids = data_path ` ids \<union> hint_path ` ids"

definition hide :: "u32 set \<Rightarrow> world \<Rightarrow> world" where
  "hide ids w = w\<lparr>w_dir := filter (\<lambda>(n, i). n \<notin> names_of ids) (w_dir w)\<rparr>"

lemma in_names_of [simp]:
  "data_path f \<in> names_of ids \<longleftrightarrow> f \<in> ids" "hint_path f \<in> names_of ids \<longleftrightarrow> f \<in> ids" "names_of {} = {}"
  by (auto simp: names_of_def)

lemma hide_simps [simp]:
  "w_inodes (hide ids w) = w_inodes w" "w_outs (hide ids w) = w_outs w" "w_locks (hide ids w) = w_locks w"
  "data_of i (hide ids w) = data_of i w" "hide {} w = w"
  by (simp_all add: hide_def data_of_def)

lemma lookup_hide: "lookup n (hide ids w) = (if n \<in> names_of ids then None else lookup n w)"
proof -
  have "map_of (filter (\<lambda>(n, i). n \<notin> A) xs) n = (if n \<in> A then None else map_of xs n)" for A and xs :: "(string \<times> nat) list"
    by (induction xs) auto
  then show ?thesis by (simp add: lookup_def hide_def)
qed

lemma file_bytes_hide: "file_bytes n (hide ids w) = (if n \<in> names_of ids then None else file_bytes n w)"
  by (simp add: file_bytes_def lookup_hide)

lemma world_ok_hide: "world_ok w \<Longrightarrow> world_ok (hide ids w)"
  by (auto simp: world_ok_def hide_def distinct_map_filter)

lemma hide_append_data [simp]: "append_data i bs (hide ids w) = hide ids (append_data i bs w)"
  by (simp add: append_data_def hide_def data_of_def)

lemma hide_mark_durable [simp]: "mark_durable i (hide ids w) = hide ids (mark_durable i w)"
  by (simp add: mark_durable_def hide_def data_of_def)

text \<open>The hidden files stay as they are.\<close>

definition untouched :: "u32 set \<Rightarrow> world \<Rightarrow> world \<Rightarrow> bool" where
  "untouched ids w w' \<longleftrightarrow> w_outs w' = [] \<and> world_ok w' \<and>
     (\<forall>n \<in> names_of ids. lookup n w' = lookup n w \<and>
        (\<forall>j. lookup n w = Some j \<longrightarrow> j < length (w_inodes w') \<and> w_inodes w' ! j = w_inodes w ! j))"

lemma untouched_refl: "w_outs w = [] \<Longrightarrow> world_ok w \<Longrightarrow> untouched ids w w"
  by (auto simp: untouched_def dest: lookup_bound)

lemma untouched_trans: "untouched ids w w' \<Longrightarrow> untouched ids w' w'' \<Longrightarrow> untouched ids w w''"
  by (simp add: untouched_def)

lemma untouched_file:
  assumes "untouched ids w w'" and "world_ok w" and "n \<in> names_of ids"
  shows "lookup n w' = lookup n w" and "file_bytes n w' = file_bytes n w" and "durable_file n w \<Longrightarrow> durable_file n w'"
    and "lookup n w = Some j \<Longrightarrow> data_of j w' = data_of j w"
proof -
  show l: "lookup n w' = lookup n w" using assms by (simp add: untouched_def)
  show d: "data_of j w' = data_of j w" if "lookup n w = Some j" for j
    using that assms lookup_bound [OF assms(2) that] by (simp add: untouched_def data_of_def)
  show "file_bytes n w' = file_bytes n w" using l d by (cases "lookup n w") (simp_all add: file_bytes_def)
  show "durable_file n w'" if dur: "durable_file n w"
  proof -
    obtain i where i: "lookup n w = Some i" "i < length (w_inodes w)" "i_durable (w_inodes w ! i) = length (data_of i w)"
      using dur unfolding durable_file_def by blast
    then show ?thesis
      using assms l d [OF i(1)] unfolding durable_file_def by (intro exI [of _ i]) (simp add: untouched_def)
  qed
qed

text \<open>The inode of a name that is not hidden is not the inode of one that is.\<close>

definition outside :: "u32 set \<Rightarrow> world \<Rightarrow> nat \<Rightarrow> bool" where
  "outside ids w i \<longleftrightarrow> (\<forall>n \<in> names_of ids. lookup n w \<noteq> Some i)"

lemma outside_lookup: "world_ok w \<Longrightarrow> lookup n w = Some i \<Longrightarrow> n \<notin> names_of ids \<Longrightarrow> outside ids w i"
  unfolding outside_def by (metis lookup_inj)

lemma untouched_inodes:
  assumes "world_ok w" and "outside ids w i" and "w_outs w' = []" and "world_ok w'"
    and "\<And>n. lookup n w' = lookup n w" and "w_inodes w' = (w_inodes w)[i := x]"
  shows "untouched ids w w'"
  unfolding untouched_def
proof (intro conjI ballI allI impI)
  fix n j assume n: "n \<in> names_of ids" "lookup n w = Some j"
  then show "j < length (w_inodes w')" using lookup_bound [OF assms(1)] assms(6) by simp
  have "j \<noteq> i" using n assms(2) by (auto simp: outside_def)
  then show "w_inodes w' ! j = w_inodes w ! j" using assms(6) by simp
qed (use assms in simp_all)

lemma untouched_append: "w_outs w = [] \<Longrightarrow> world_ok w \<Longrightarrow> outside ids w i \<Longrightarrow> untouched ids w (append_data i bs w)"
  by (rule untouched_inodes [of w ids i]) (simp_all, simp add: append_data_def)

lemma untouched_mark: "w_outs w = [] \<Longrightarrow> world_ok w \<Longrightarrow> outside ids w i \<Longrightarrow> untouched ids w (mark_durable i w)"
  by (rule untouched_inodes [of w ids i]) (simp_all, simp add: mark_durable_def)

section \<open>A new file\<close>

lemma af_create_hide:
  assumes w: "w_outs w = []" "world_ok w" and f: "f \<notin> ids" "lookup (data_path f) w = None"
  obtains i w' where "af_create f w = (Inr (fresh_active f i), w')" and "af_create f (hide ids w) = (Inr (fresh_active f i), hide ids w')"
    and "untouched ids w w'" and "\<And>n j. lookup n w = Some j \<Longrightarrow> lookup n w' = Some j"
proof -
  obtain i w' where n: "new_file (data_path f) w = (Inr i, w')" by (simp add: new_file_def)
  note facts = new_file_facts [OF w(2) f(2) n]
  have n': "new_file (data_path f) (hide ids w) = (Inr i, hide ids w')"
    using n f(1) by (auto simp: new_file_def hide_def)
  have h: "w_outs (hide ids w) = []" "world_ok (hide ids w)" "lookup (data_path f) (hide ids w) = None"
    using w f by (simp_all add: world_ok_hide lookup_hide)
  have "untouched ids w w'"
    unfolding untouched_def
  proof (intro conjI ballI allI impI)
    fix m assume m: "m \<in> names_of ids"
    then show "lookup m w' = lookup m w" using facts(2) f(1) by auto
    fix j assume "lookup m w = Some j"
    then have j: "j < length (w_inodes w)" by (rule lookup_bound [OF w(2)])
    then show "j < length (w_inodes w')" using facts(8) by simp
    show "w_inodes w' ! j = w_inodes w ! j" using n j by (auto simp: new_file_def nth_append)
  qed (use facts w in simp_all)
  moreover have "lookup m w' = Some j" if "lookup m w = Some j" for m j using that f(2) facts(2) by auto
  ultimately show thesis using that af_create_new [OF w f(2) n] af_create_new [OF h n'] by blast
qed

section \<open>Appending\<close>

text \<open>The locked part of an append, run beside other files.\<close>

lemma append_locked_hide:
  assumes w: "w_outs w = []" "world_ok w" and af: "lookup (data_path (af_file_id af)) w = Some (bw_file (af_writer af))"
    and ids: "af_file_id af \<notin> ids" "nid \<notin> ids" and new: "lookup (data_path nid) w = None"
    and ap: "append_locked m enc ((af, gc, nid), hide ids w) = (Inr r, ((af', gc', nid'), w1))"
  obtains w' where "append_locked m enc ((af, gc, nid), w) = (Inr r, ((af', gc', nid'), w'))" and "w1 = hide ids w'"
    and "untouched ids w w'" and "lookup (data_path (af_file_id af')) w' = Some (bw_file (af_writer af'))"
proof -
  let ?i = "bw_file (af_writer af)"
  let ?bs = "bw_buf (af_writer af) @ ee_bytes enc"
  let ?w2 = "append_data ?i ?bs w"
  let ?af = "af\<lparr>af_writer := (af_writer af)\<lparr>bw_buf := []\<rparr>, af_offset := af_offset af + of_nat (length (ee_bytes enc))\<rparr>"
  obtain t gc1 where rp: "record_pending gc = (t, gc1)" by fastforce
  let ?r = "(af_file_id af, af_offset af + (of_nat (length (ee_bytes enc)) - of_nat (ee_value_len enc)), t)"
  have out: "outside ids w ?i" by (rule outside_lookup [OF w(2) af]) (use ids in simp)
  have w2: "w_outs ?w2 = []" "world_ok ?w2" using w by simp_all
  have un2: "untouched ids w ?w2" by (rule untouched_append [OF w out])
  have step: "append_locked m enc ((af, gc, nid), v) =
      bindE (if af_len ?af \<ge> m then rotate_active else retE ()) (\<lambda>_. retE ?r) ((?af, gc1, nid), append_data ?i ?bs v)"
    if "w_outs v = []" for v
    by (simp add: append_locked_def bindE_def on_af_def zoom_def af_append_no_fault [OF that] rp)
  have h: "w_outs (hide ids w) = []" using w by simp
  show thesis
  proof (cases "m \<le> af_len ?af")
    case False
    then have "append_locked m enc ((af, gc, nid), w) = (Inr ?r, ((?af, gc1, nid), ?w2))"
      and "append_locked m enc ((af, gc, nid), hide ids w) = (Inr ?r, ((?af, gc1, nid), hide ids ?w2))"
      using step [OF w(1)] step [OF h] by simp_all
    then show thesis using that [of ?w2] ap un2 af by auto
  next
    case True
    let ?w3 = "mark_durable ?i ?w2"
    have w3: "w_outs ?w3 = []" "world_ok ?w3" "lookup (data_path nid) ?w3 = None" using w new by simp_all
    have un3: "untouched ids w ?w3"
      by (rule untouched_trans [OF un2 untouched_mark [OF w2]]) (use out in \<open>simp add: outside_def\<close>)
    obtain j w4 where c: "af_create nid ?w3 = (Inr (fresh_active nid j), w4)"
      and c': "af_create nid (hide ids ?w3) = (Inr (fresh_active nid j), hide ids w4)" and un4: "untouched ids ?w3 w4"
      by (rule af_create_hide [OF w3(1,2) ids(2) w3(3)]) blast
    have sync: "af_sync (?af, v) = (Inr (), (?af, mark_durable ?i v))" if "w_outs v = []" for v
      using af_sync_no_fault [OF that, of ?af] by simp
    have "append_locked m enc ((af, gc, nid), w) = (Inr ?r, ((fresh_active nid j, mark_all_durable gc1, nid + 1), w4))"
      and a': "append_locked m enc ((af, gc, nid), hide ids w) = (Inr ?r, ((fresh_active nid j, mark_all_durable gc1, nid + 1), hide ids w4))"
      using step [OF w(1)] step [OF h] True w2(1)
      by (simp_all add: rotate_active_def bindE_def on_af_def zoom_def sync c c')
    moreover have "lookup (data_path nid) w4 = Some j"
      using c w3 af_create_new [OF w3(1,2,3)] new_file_facts(2) [OF w3(2,3)]
      by (auto simp: new_file_def fresh_active_def)
    ultimately show thesis
      using that [of w4] ap untouched_trans [OF un3 un4] by (auto simp: fresh_active_def bw_new_def)
  qed
qed

end
