(* ===== verification/EngineOps.thy ===== *)
theory EngineOps
  imports Hide
begin

text \<open>
  The invariant of an engine opened for writing, and what each operation but merge does to it and to
  the contents of the datastore.
\<close>

definition eng_inv :: "'h crc32fast \<Rightarrow> engine \<times> world \<Rightarrow> files \<Rightarrow> (u32 \<Rightarrow> bytes) \<Rightarrow> bool" where
  "eng_inv C = (\<lambda>(eg, w) L T.
     \<exists>af l. eg_active eg = Some af \<and> eg_write_lock eg = Some l \<and> w_locks w = [l] \<and> lookup LOCK_FILE w = Some l \<and>
       o_is_read_write (eg_opts eg) \<and> unat (o_max_file_size (eg_opts eg)) \<le> 2 ^ 63 \<and>
       store_ok C (o_max_file_size (eg_opts eg)) ((af, eg_gc eg, eg_next_file_id eg), w) L T \<and>
       keydir_ok (eg_keydir eg) \<and> indexes (eg_keydir eg) (index_files L Map.empty) \<and>
       readers_ok (eg_files eg) w)"

text \<open>How many files and writes an engine has room for: the counters must not wrap around.\<close>

definition room :: "nat \<Rightarrow> engine \<Rightarrow> bool" where
  "room n eg \<longleftrightarrow> unat (eg_next_file_id eg) + n < 2 ^ 32 \<and> unat (gc_pending_writes (eg_gc eg)) + n < 2 ^ 64"

lemma eng_inv_read: "eng_inv C (eg, w) L T \<Longrightarrow> eg_read_inv C (eg, w) L T"
  by (auto simp: eng_inv_def eg_read_inv_def read_inv_def store_ok_def)

lemma eng_inv_same_but_reads:
  "eng_inv C (eg, w) L T \<Longrightarrow> same_but_reads eg eg' \<Longrightarrow> readers_ok (eg_files eg') w \<Longrightarrow> eng_inv C (eg', w) L T"
  unfolding eng_inv_def same_but_reads_def by auto

lemma eng_inv_record [simp]: "eng_inv C (eg_record x eg, w) L T = eng_inv C (eg, w) L T"
  by (simp add: eng_inv_def eg_record_def)

lemma room_record [simp]: "room n (eg_record x eg) = room n eg"
  by (simp add: room_def eg_record_def)

section \<open>Appending\<close>

lemma fsync_active_ok:
  assumes "w_outs w = []" and "bw_buf (af_writer af) = []"
  shows "fsync_active (af, w) = (Inr (), (af, mark_durable (bw_file (af_writer af)) w))"
proof -
  have "(af_writer af)\<lparr>bw_buf := []\<rparr> = af_writer af" using assms(2) by simp
  then show ?thesis
    using assms by (simp add: fsync_active_def sync_handle_def bindE_def on_writer_apply bw_flush_no_fault
        try_clone_def sys_no_fault sync_data_no_fault)
qed

text \<open>
  The state of the engine after an append: the new record is the last of the log, the index is as it
  was, and with \<open>sync_on_put\<close> nothing is left that a power failure could take.
\<close>

definition same_but_log :: "engine \<Rightarrow> engine \<Rightarrow> bool" where
  "same_but_log eg eg' \<longleftrightarrow> eg_keydir eg' = eg_keydir eg \<and> eg_files eg' = eg_files eg \<and>
     eg_metrics eg' = eg_metrics eg \<and> eg_opts eg' = eg_opts eg \<and> eg_write_lock eg' = eg_write_lock eg"

lemma same_but_log_upd [simp]:
  "same_but_log eg (eg\<lparr>eg_active := af, eg_gc := gc, eg_next_file_id := nid\<rparr>)"
  by (simp add: same_but_log_def)

definition appended :: "'h crc32fast \<Rightarrow> bytes \<Rightarrow> bytes \<Rightarrow> bool \<Rightarrow> u32 \<Rightarrow> u32 \<times> u64 \<Rightarrow> engine \<times> world \<Rightarrow> files \<Rightarrow>
    engine \<times> world \<Rightarrow> files \<Rightarrow> (u32 \<Rightarrow> bytes) \<Rightarrow> bool" where
  "appended C k v t ts = (\<lambda>(fid, pos) (eg, w) L (eg', w') L' T'.
     \<exists>af af'. eg_active eg = Some af \<and> eg_active eg' = Some af' \<and>
       same_but_log eg eg' \<and>
       store_ok C (o_max_file_size (eg_opts eg)) ((af', eg_gc eg', eg_next_file_id eg'), w') L' T' \<and>
       (\<forall>m0. index_files L' m0 = (index_files L m0)(k := if t then None else
          Some (\<lparr>kd_file_id = fid, kd_value_size = of_nat (length v), kd_value_pos = pos, kd_timestamp = ts\<rparr>, v))) \<and>
       extends w w' \<and> (\<forall>n. room (Suc n) eg \<longrightarrow> room n eg') \<and> fid = af_file_id af \<and>
       eg_next_file_id eg \<le> eg_next_file_id eg' \<and> grows (af_file_id af) L (af_file_id af') L' \<and>
       (synced_but (af_file_id af) w L \<longrightarrow> synced_but (af_file_id af') w' L' \<and>
          (o_should_sync_on_put (eg_opts eg) \<longrightarrow> durable_file (data_path (af_file_id af')) w')))"

lemma store_ok_commit:
  "store_ok C m ((af, gc, nid), w) L T \<Longrightarrow>
     store_ok C m ((af, end_sync (gc_pending_writes gc) b (snd (begin_sync gc)), nid), mark_durable i w) L T"
  by (simp add: store_ok_def)

lemma gc_pending_commit [simp]: "gc_pending_writes (end_sync g b (snd (begin_sync gc))) = gc_pending_writes gc"
  by (simp add: end_sync_def begin_sync_def)

lemma extends_commit [simp]: "extends w w' \<Longrightarrow> extends w (mark_durable i w')"
  by (rule extends_trans [OF _ extends_mark_durable])

lemma synced_but_mark [simp]: "synced_but fid w L \<Longrightarrow> synced_but fid (mark_durable i w) L"
  by (simp add: synced_but_def)

text \<open>
  The store of an engine in a directory that has other files beside it, with the ids \<open>ids\<close>: without them, the
  directory is as the engine's invariant says, and no new file will take one of their ids.
\<close>

definition store_beside :: "'h crc32fast \<Rightarrow> u32 set \<Rightarrow> engine \<times> world \<Rightarrow> files \<Rightarrow> (u32 \<Rightarrow> bytes) \<Rightarrow> bool" where
  "store_beside C ids = (\<lambda>(eg, w) L T.
     \<exists>af. eg_active eg = Some af \<and> unat (o_max_file_size (eg_opts eg)) \<le> 2 ^ 63 \<and> world_ok w \<and>
       store_ok C (o_max_file_size (eg_opts eg)) ((af, eg_gc eg, eg_next_file_id eg), hide ids w) L T \<and>
       (\<forall>f \<in> ids. f < eg_next_file_id eg))"

lemma store_besideE:
  assumes "store_beside C ids (eg, w) L T"
  obtains af where "eg_active eg = Some af" and "unat (o_max_file_size (eg_opts eg)) \<le> 2 ^ 63"
    and "store_ok C (o_max_file_size (eg_opts eg)) ((af, eg_gc eg, eg_next_file_id eg), hide ids w) L T"
    and "world_ok w" and "w_outs w = []" and "\<forall>f \<in> ids. f < eg_next_file_id eg"
    and "af_file_id af \<notin> ids" and "lookup (data_path (af_file_id af)) w = Some (bw_file (af_writer af))"
    and "eg_next_file_id eg \<notin> ids" and "lookup (data_path (eg_next_file_id eg)) w = None"
proof -
  obtain af where af: "eg_active eg = Some af" "unat (o_max_file_size (eg_opts eg)) \<le> 2 ^ 63"
    and st: "store_ok C (o_max_file_size (eg_opts eg)) ((af, eg_gc eg, eg_next_file_id eg), hide ids w) L T"
    and w: "world_ok w" and ids: "\<forall>f \<in> ids. f < eg_next_file_id eg"
    using assms by (auto simp: store_beside_def)
  have d: "disk C (hide ids w) L T" "active_ok (o_max_file_size (eg_opts eg)) af (eg_next_file_id eg) (hide ids w) L T"
    "w_outs w = []" using st by (simp_all add: store_ok_def)
  have "lookup (data_path (af_file_id af)) (hide ids w) = Some (bw_file (af_writer af))" using d(2) by (simp add: active_ok_def)
  then have "af_file_id af \<notin> ids" "lookup (data_path (af_file_id af)) w = Some (bw_file (af_writer af))"
    by (simp_all add: lookup_hide split: if_splits)
  moreover have new: "eg_next_file_id eg \<notin> ids" using ids by blast
  have "lookup (data_path (eg_next_file_id eg)) (hide ids w) = None"
    using unused_from_next [OF d(1,2)] by (simp add: unused_from_def)
  then have "lookup (data_path (eg_next_file_id eg)) w = None" using new by (simp add: lookup_hide)
  ultimately show thesis using that [OF af st w d(3) ids] new by blast
qed

text \<open>An append beside other files does what it does without them, and leaves them alone.\<close>

lemma engine_append_beside:
  assumes st0: "store_beside C ids (eg, w) L T" and r: "rec_ok (k, v, t, ts)" and room: "room 2 eg"
  obtains fid pos eg' w' L' T' where
    "engine_append (encode_entry C k v t ts) (eg, w) = Some (Inr (fid, pos), (eg', w'))"
    and "appended C k v t ts (fid, pos) (eg, hide ids w) L (eg', hide ids w') L' T'" and "untouched ids w w'"
proof -
  obtain af where af: "eg_active eg = Some af" and m: "unat (o_max_file_size (eg_opts eg)) \<le> 2 ^ 63"
    and st: "store_ok C (o_max_file_size (eg_opts eg)) ((af, eg_gc eg, eg_next_file_id eg), hide ids w) L T"
    and w: "world_ok w" "w_outs w = []" and ids: "\<forall>f \<in> ids. f < eg_next_file_id eg" "af_file_id af \<notin> ids"
    and lk: "lookup (data_path (af_file_id af)) w = Some (bw_file (af_writer af))"
    and new: "eg_next_file_id eg \<notin> ids" "lookup (data_path (eg_next_file_id eg)) w = None"
    by (rule store_besideE [OF st0])
  have nid: "unat (eg_next_file_id eg) < 2 ^ 32 - 1" and gcb: "unat (gc_pending_writes (eg_gc eg)) < 2 ^ 64 - 1"
    using room by (simp_all add: room_def)
  let ?enc = "encode_entry C k v t ts" and ?m = "o_max_file_size (eg_opts eg)" let ?hw = "hide ids w"
  obtain fid pos af1 gc1 nid1 hw1 L1 T1 where
    hap: "append_locked ?m ?enc ((af, eg_gc eg, eg_next_file_id eg), ?hw) =
      (Inr (fid, pos, gc_pending_writes (eg_gc eg) + 1), ((af1, gc1, nid1), hw1))"
    and hst1: "store_ok C ?m ((af1, gc1, nid1), hw1) L1 T1"
    and ix: "\<And>m0. index_files L1 m0 = (index_files L m0)(k := if t then None else
      Some (\<lparr>kd_file_id = fid, kd_value_size = of_nat (length v), kd_value_pos = pos, kd_timestamp = ts\<rparr>, v))"
    and hex: "extends ?hw hw1" and n0: "eg_next_file_id eg \<le> nid1" and n1: "unat nid1 \<le> Suc (unat (eg_next_file_id eg))"
    and p1: "gc_pending_writes gc1 = gc_pending_writes (eg_gc eg) + 1"
    and hsy: "synced_but (af_file_id af) ?hw L \<Longrightarrow> synced_but (af_file_id af1) hw1 L1"
    and hdu: "gc_max_durable_generation gc1 = gc_pending_writes gc1 \<Longrightarrow> durable_file (data_path (af_file_id af1)) hw1"
    and gr: "grows (af_file_id af) L (af_file_id af1) L1" and fid: "fid = af_file_id af"
    by (rule append_locked_ok [OF st r m nid gcb]) blast
  obtain w1 where ap: "append_locked ?m ?enc ((af, eg_gc eg, eg_next_file_id eg), w) =
      (Inr (fid, pos, gc_pending_writes (eg_gc eg) + 1), ((af1, gc1, nid1), w1))"
    and hw1: "hw1 = hide ids w1" and un: "untouched ids w w1"
    and lk1: "lookup (data_path (af_file_id af1)) w1 = Some (bw_file (af_writer af1))"
    by (rule append_locked_hide [OF w(2,1) lk ids(2) new hap])
  note st1 = hst1 [unfolded hw1] and ex = hex [unfolded hw1] and sy = hsy [unfolded hw1] and du = hdu [unfolded hw1]
  have w1: "world_ok w1" "w_outs w1 = []" using un by (simp_all add: untouched_def)
  have lkh: "lookup (data_path (af_file_id af1)) (hide ids w1) = Some (bw_file (af_writer af1))" "world_ok (hide ids w1)"
    using st1 by (simp_all add: store_ok_def active_ok_def)
  then have af1: "af_file_id af1 \<notin> ids" by (simp add: lookup_hide split: if_splits)
  let ?eg1 = "eg\<lparr>eg_active := Some af1, eg_gc := gc1, eg_next_file_id := nid1\<rparr>"
  have "unat (gc_pending_writes gc1) = Suc (unat (gc_pending_writes (eg_gc eg)))"
    using unat_add_lem [of "gc_pending_writes (eg_gc eg)" 1] gcb by (simp add: p1)
  then have room1: "room (Suc n) eg \<Longrightarrow> room n ?eg1" for n using n1 by (simp add: room_def)
  have gc1: "gc_ok gc1" "gc_pending_writes (eg_gc eg) + 1 \<le> gc_pending_writes gc1"
    using st1 p1 by (simp_all add: store_ok_def)
  show thesis
  proof (cases "o_should_sync_on_put (eg_opts eg) \<and> gc_pending_writes gc1 \<noteq> gc_max_durable_generation gc1")
    case False
    then have "gc_commit (gc_pending_writes (eg_gc eg) + 1) fsync_active (gc1, (af1, w1)) = Some (Inr (), gc1, af1, w1)"
      if "o_should_sync_on_put (eg_opts eg)"
      using that gc_commit_returns [OF gc1] p1 by simp
    then have e: "engine_append ?enc (eg, w) = Some (Inr (fid, pos), (?eg1, w1))"
      by (simp add: engine_append_def af ap Let_def)
    have "appended C k v t ts (fid, pos) (eg, ?hw) L (?eg1, hide ids w1) L1 T1"
      unfolding appended_def split_conv
      by (intro exI [of _ af] exI [of _ af1]) (use af st1 ix ex room1 sy du False gr fid n0 in auto)
    from that [OF e this un] show thesis .
  next
    case True
    let ?gc2 = "end_sync (gc_pending_writes gc1) True (snd (begin_sync gc1))"
    let ?i = "bw_file (af_writer af1)"
    let ?w2 = "mark_durable ?i w1" and ?eg2 = "eg\<lparr>eg_active := Some af1, eg_gc := ?gc2, eg_next_file_id := nid1\<rparr>"
    have f: "fsync_active (af1, w1) = (Inr (), (af1, ?w2))"
      by (rule fsync_active_ok) (use st1 in \<open>simp_all add: store_ok_def active_ok_def\<close>)
    have "\<not> gc_pending_writes gc1 \<le> gc_max_durable_generation gc1"
      using True gc1(1) by (auto simp: gc_ok_def)
    then have "gc_commit (gc_pending_writes (eg_gc eg) + 1) fsync_active (gc1, (af1, w1)) = Some (Inr (), ?gc2, af1, ?w2)"
      using gc_commit_returns [OF gc1(1) order_refl, of fsync_active "(af1, w1)"] f unfolding p1 [symmetric] by simp
    then have e: "engine_append ?enc (eg, w) = Some (Inr (fid, pos), (?eg2, ?w2))"
      using True by (simp add: engine_append_def af ap Let_def)
    have un2: "untouched ids w ?w2"
      by (rule untouched_trans [OF un untouched_mark [OF w1(2,1) outside_lookup [OF w1(1) lk1]]]) (use af1 in simp)
    have hm: "hide ids ?w2 = mark_durable ?i (hide ids w1)" by simp
    have "durable_file (data_path (af_file_id af1)) (mark_durable ?i (hide ids w1))"
      by (rule durable_file_marked [OF lkh(1) lookup_bound [OF lkh(2,1)]])
    then have "appended C k v t ts (fid, pos) (eg, ?hw) L (?eg2, hide ids ?w2) L1 T1"
      unfolding appended_def split_conv hm
      by (intro exI [of _ af] exI [of _ af1])
        (use af st1 ix ex room1 sy gr fid n0 in \<open>auto simp: store_ok_commit room_def simp del: hide_mark_durable\<close>)
    from that [OF e this un2] show thesis .
  qed
qed

lemma engine_append_ok:
  assumes inv: "eng_inv C (eg, w) L T" and r: "rec_ok (k, v, t, ts)" and room: "room 2 eg"
  obtains fid pos eg' w' L' T' where
    "engine_append (encode_entry C k v t ts) (eg, w) = Some (Inr (fid, pos), (eg', w'))"
    and "appended C k v t ts (fid, pos) (eg, w) L (eg', w') L' T'"
proof -
  have "store_beside C {} (eg, w) L T" using inv by (auto simp: eng_inv_def store_beside_def store_ok_def)
  then show thesis by (rule engine_append_beside [OF _ r room]) (rule that, simp_all)
qed

section \<open>Put and delete\<close>

lemma appended_inv:
  assumes "eng_inv C (eg, w) L T" and "appended C k v t ts loc (eg, w) L (eg', w') L' T'"
    and "keydir_ok kd" and "indexes kd (index_files L' Map.empty)"
  shows "eng_inv C (eg'\<lparr>eg_keydir := kd\<rparr>, w') L' T'"
proof -
  obtain fid pos where loc: "loc = (fid, pos)" by fastforce
  obtain af' where af': "eg_active eg' = Some af'" and ex: "extends w w'"
    and eg': "same_but_log eg eg'"
    and st: "store_ok C (o_max_file_size (eg_opts eg)) ((af', eg_gc eg', eg_next_file_id eg'), w') L' T'"
    using assms(2) unfolding appended_def loc by auto
  have same: "eg_opts eg' = eg_opts eg" "eg_write_lock eg' = eg_write_lock eg" "eg_files eg' = eg_files eg"
    using eg' by (simp_all add: same_but_log_def)
  have "w_locks w' = w_locks w" using ex by (simp add: extends_def)
  moreover have "readers_ok (eg_files eg) w'"
    using assms(1) ex by (auto simp: eng_inv_def intro: readers_ok_extends)
  moreover have "lookup LOCK_FILE w' = Some l" if "lookup LOCK_FILE w = Some l" for l using ex that by (simp add: extends_def)
  ultimately show ?thesis
    using assms(1,3,4) st af' same unfolding eng_inv_def by auto
qed

lemma contents_upd:
  assumes "\<And>m0. index_files L' m0 = (index_files L m0)(k := if t then None else Some (e, v))"
  shows "contents L' = (contents L)(k := if t then None else Some v)"
  using assms by (simp add: contents_def fun_eq_iff)

lemma indexes_upd:
  assumes "indexes kd m"
  shows "indexes (keydir_insert k e kd) (m(k \<mapsto> (e, v)))" and "indexes (snd (keydir_remove k kd)) (m(k := None))"
  using assms by (simp_all add: indexes_def)

text \<open>What a completed write leaves.\<close>

definition written :: "'h crc32fast \<Rightarrow> bytes \<Rightarrow> bytes option \<Rightarrow> engine \<times> world \<Rightarrow> files \<Rightarrow>
    engine \<times> world \<Rightarrow> files \<Rightarrow> (u32 \<Rightarrow> bytes) \<Rightarrow> bool" where
  "written C k val = (\<lambda>(eg, w) L (eg', w') L' T'.
     eng_inv C (eg', w') L' T' \<and> contents L' = (contents L)(k := val) \<and> eg_opts eg' = eg_opts eg \<and>
     (\<forall>n. room (Suc n) eg \<longrightarrow> room n eg') \<and>
     (\<forall>af. eg_active eg = Some af \<longrightarrow> synced_but (af_file_id af) w L \<longrightarrow>
        (\<exists>af'. eg_active eg' = Some af' \<and> synced_but (af_file_id af') w' L' \<and>
           (o_should_sync_on_put (eg_opts eg) \<longrightarrow> durable_file (data_path (af_file_id af)) w \<or> val \<noteq> None \<longrightarrow>
              durable_file (data_path (af_file_id af')) w'))))"

lemma appended_written:
  assumes "eng_inv C (eg, w) L T" and "appended C k v t ts loc (eg, w) L (eg', w') L' T'"
    and "keydir_ok kd" and "indexes kd (index_files L' Map.empty)"
    and "contents L' = (contents L)(k := val)"
  shows "written C k val (eg, w) L (eg_record x (eg'\<lparr>eg_keydir := kd\<rparr>), w') L' T'"
proof -
  obtain fid pos where loc: "loc = (fid, pos)" by fastforce
  note a = assms(2) [unfolded appended_def loc split_conv]
  have "eg_opts eg' = eg_opts eg" using a by (auto simp: same_but_log_def)
  then show ?thesis
    using appended_inv [OF assms(1-4)] assms(5) a
    by (auto simp: written_def room_def eg_record_def eng_inv_def)
qed

lemma engine_put_appended:
  assumes inv: "eng_inv C (eg, w) L T" and k: "k \<noteq> []" "sizes_ok k v" and room: "room 2 eg"
  obtains eg' w' L' T' where "engine_put C k v ts (eg, w) = Some (Inr (), (eg', w'))"
    and "written C k (Some v) (eg, w) L (eg', w') L' T'"
    and "extends w w'" and "\<And>af x. eg_active eg = Some af \<Longrightarrow> x \<in> set L \<Longrightarrow> fst x < af_file_id af \<Longrightarrow> x \<in> set L'"
proof -
  have r: "rec_ok (k, v, False, ts)" using k(2) by simp
  obtain fid pos eg1 w1 L1 T1 where
    ap: "engine_append (encode_entry C k v False ts) (eg, w) = Some (Inr (fid, pos), (eg1, w1))"
    and a: "appended C k v False ts (fid, pos) (eg, w) L (eg1, w1) L1 T1"
    by (rule engine_append_ok [OF inv r room])
  let ?e = "\<lparr>kd_file_id = fid, kd_value_size = of_nat (length v), kd_value_pos = pos, kd_timestamp = ts\<rparr>"
  have ix: "index_files L1 m0 = (index_files L m0)(k := if False then None else Some (?e, v))" for m0
    using a by (auto simp: appended_def)
  have kd: "eg_keydir eg1 = eg_keydir eg"
    using a by (auto simp: appended_def same_but_log_def)
  have "keydir_ok (keydir_insert k ?e (eg_keydir eg))" "indexes (keydir_insert k ?e (eg_keydir eg)) (index_files L1 Map.empty)"
    using inv indexes_upd(1) [of "eg_keydir eg" "index_files L Map.empty" k ?e v] ix [of Map.empty]
    by (auto simp: eng_inv_def)
  from appended_written [OF inv a this, of "Some v" RecordPut] contents_upd [OF ix]
  have "written C k (Some v) (eg, w) L (eg_record RecordPut (eg1\<lparr>eg_keydir := keydir_insert k ?e (eg_keydir eg)\<rparr>), w1) L1 T1"
    by simp
  moreover have "engine_put C k v ts (eg, w) =
      Some (Inr (), (eg_record RecordPut (eg1\<lparr>eg_keydir := keydir_insert k ?e (eg_keydir eg)\<rparr>), w1))"
    using inv k(1) by (auto simp: engine_put_def require_write_def ap kd eng_inv_def)
  moreover have "extends w w1" "eg_active eg = Some af \<Longrightarrow> x \<in> set L \<Longrightarrow> fst x < af_file_id af \<Longrightarrow> x \<in> set L1" for af x
    using a by (auto simp: appended_def dest: growsD(2))
  ultimately show thesis using that by blast
qed

lemma engine_put_inv:
  assumes inv: "eng_inv C (eg, w) L T" and k: "k \<noteq> []" "sizes_ok k v" and room: "room 2 eg"
  obtains eg' w' L' T' where "engine_put C k v ts (eg, w) = Some (Inr (), (eg', w'))"
    and "written C k (Some v) (eg, w) L (eg', w') L' T'"
  by (rule engine_put_appended [OF assms]) blast

lemma written_nothing:
  assumes "eng_inv C (eg, w) L T" and "contents L k = None"
  shows "written C k None (eg, w) L (eg_record x eg, w) L T"
proof -
  have "contents L = (contents L)(k := None)" using assms(2) by (simp add: fun_eq_iff)
  then show ?thesis using assms(1) by (auto simp: written_def room_def eg_record_def eng_inv_def)
qed

lemma engine_delete_inv:
  assumes inv: "eng_inv C (eg, w) L T" and k: "k \<noteq> []" "length k < 2 ^ 31" and room: "room 2 eg"
  obtains eg' w' L' T' where "engine_delete C k ts (eg, w) = Some (Inr (), (eg', w'))"
    and "written C k None (eg, w) L (eg', w') L' T'"
proof -
  have ix0: "indexes (eg_keydir eg) (index_files L Map.empty)" and rw: "o_is_read_write (eg_opts eg)"
    using inv by (auto simp: eng_inv_def)
  show thesis
  proof (cases "keydir_get k (eg_keydir eg)")
    case None
    then have "contents L k = None" using index_contents [OF ix0] by simp
    moreover have "engine_delete C k ts (eg, w) = Some (Inr (), (eg_record RecordDelete eg, w))"
      using None k(1) rw by (simp add: engine_delete_def require_write_def)
    ultimately show thesis using that written_nothing [OF inv] by blast
  next
    case (Some ent)
    have r: "rec_ok (k, [], True, ts)" using k(2) by (simp add: sizes_ok_def)
    obtain fid pos eg1 w1 L1 T1 where
      ap: "engine_append (encode_entry C k [] True ts) (eg, w) = Some (Inr (fid, pos), (eg1, w1))"
      and a: "appended C k [] True ts (fid, pos) (eg, w) L (eg1, w1) L1 T1"
      by (rule engine_append_ok [OF inv r room])
    have ix: "index_files L1 m0 = (index_files L m0)(k := if True then None else Some (ent, []))" for m0
      using a by (auto simp: appended_def)
    let ?kd = "snd (keydir_remove k (eg_keydir eg))"
    have kd: "eg_keydir eg1 = eg_keydir eg"
      using a by (auto simp: appended_def same_but_log_def)
    have "keydir_ok ?kd" "indexes ?kd (index_files L1 Map.empty)"
      using inv indexes_upd(2) [OF ix0, of k] ix [of Map.empty] by (auto simp: eng_inv_def)
    from appended_written [OF inv a this, of None RecordDelete] contents_upd [OF ix]
    have "written C k None (eg, w) L (eg_record RecordDelete (eg1\<lparr>eg_keydir := ?kd\<rparr>), w1) L1 T1" by simp
    moreover have "engine_delete C k ts (eg, w) = Some (Inr (), (eg_record RecordDelete (eg1\<lparr>eg_keydir := ?kd\<rparr>), w1))"
      using Some rw k(1) by (simp add: engine_delete_def require_write_def ap kd)
    ultimately show thesis by (rule that [rotated])
  qed
qed

end
