(* ===== verification/Lifecycle.thy ===== *)
theory Lifecycle
  imports EngineOps
begin

text \<open>
  Opening and closing: from a directory that nobody has locked to an engine that satisfies the
  invariant, and back.
\<close>

section \<open>Sync and close\<close>

lemma af_sync_flushed:
  assumes "w_outs w = []" and "bw_buf (af_writer af) = []"
  shows "af_sync (af, w) = (Inr (), (af, mark_durable (bw_file (af_writer af)) w))"
proof -
  have "(af_writer af)\<lparr>bw_buf := []\<rparr> = af_writer af" using assms(2) by simp
  then show ?thesis using af_sync_no_fault [OF assms(1), of af] assms(2) by simp
qed

lemma bw_drop_flushed [simp]: "bw_buf bw = [] \<Longrightarrow> bw_drop bw w = w"
  by (simp add: bw_drop_def bw_flush_def write_loop.simps [of _ "[]"])

lemma store_ok_mark_durable [simp]: "store_ok C m (x, mark_durable i w) L T = store_ok C m (x, w) L T"
  by (cases x) (auto simp: store_ok_def)

lemma engine_sync_inv:
  assumes "eng_inv C (eg, w) L T"
  obtains eg' w' af where "engine_sync (eg, w) = (Inr (), (eg', w'))" and "eng_inv C (eg', w') L T"
    and "eg_active eg' = Some af" and "durable_file (data_path (af_file_id af)) w'"
    and "\<And>f. durable_file f w \<Longrightarrow> durable_file f w'"
    and "eg_active eg = Some af" and "\<And>n. room n eg' = room n eg" and "eg_opts eg' = eg_opts eg"
proof -
  obtain af where af: "eg_active eg = Some af" and o: "w_outs w = []" "world_ok w" and b: "bw_buf (af_writer af) = []"
    and lk: "lookup (data_path (af_file_id af)) w = Some (bw_file (af_writer af))"
    using assms by (auto simp: eng_inv_def store_ok_def active_ok_def)
  let ?w = "mark_durable (bw_file (af_writer af)) w" and ?eg = "eg_record RecordSync (eg\<lparr>eg_active := Some af\<rparr>)"
  have "engine_sync (eg, w) = (Inr (), (?eg, ?w))"
    by (simp add: engine_sync_def af af_sync_flushed [OF o(1) b])
  moreover have "eng_inv C (?eg, ?w) L T"
    using assms af by (auto simp: eng_inv_def eg_record_def readers_ok_def)
  moreover have "durable_file (data_path (af_file_id af)) ?w"
    by (rule durable_file_marked [OF lk lookup_bound [OF o(2) lk]])
  ultimately show thesis using that af by (simp add: eg_record_def room_def)
qed

lemma locks_simps [simp]:
  "lookup n (w\<lparr>w_locks := ls\<rparr>) = lookup n w" "data_of i (w\<lparr>w_locks := ls\<rparr>) = data_of i w"
  by (simp_all add: lookup_def data_of_def)

lemma files_locks_simps [simp]:
  "file_bytes n (w\<lparr>w_locks := ls\<rparr>) = file_bytes n w" "durable_file n (w\<lparr>w_locks := ls\<rparr>) = durable_file n w"
  "world_ok (w\<lparr>w_locks := ls\<rparr>) = world_ok w"
  by (simp_all add: file_bytes_def durable_file_def world_ok_def)

text \<open>A directory with nobody in it.\<close>

definition closed_ok :: "'h crc32fast \<Rightarrow> world \<Rightarrow> files \<Rightarrow> (u32 \<Rightarrow> bytes) \<Rightarrow> bool" where
  "closed_ok C w L T \<longleftrightarrow> disk C w L T \<and> world_ok w \<and> w_outs w = [] \<and> w_locks w = [] \<and>
     (\<forall>fid. lookup (hint_path fid) w \<noteq> None \<longrightarrow> L \<noteq> [] \<and> fid \<le> fst (last L))"

lemma engine_close_inv:
  assumes "eng_inv C (eg, w) L T"
  obtains w' where "engine_close (eg, w) = (Inr (), w')" and "closed_ok C w' L T" and "L \<noteq> []"
    and "fst (last L) < eg_next_file_id eg"
    and "\<And>fid. synced_but fid w L \<Longrightarrow> synced_but fid w' L"
proof -
  obtain af l where af: "eg_active eg = Some af" "eg_write_lock eg = Some l" "w_locks w = [l]"
    and o: "w_outs w = []" "world_ok w" "disk C w L T" and b: "bw_buf (af_writer af) = []"
    and h: "\<forall>fid. lookup (hint_path fid) w \<noteq> None \<longrightarrow> fid < af_file_id af"
    and L: "L \<noteq> []" "fst (last L) = af_file_id af" "af_file_id af < eg_next_file_id eg"
    using assms by (auto simp: eng_inv_def store_ok_def active_ok_def)
  let ?w = "(mark_durable (bw_file (af_writer af)) w)\<lparr>w_locks := []\<rparr>"
  have c: "engine_close (eg, w) = (Inr (), ?w)"
    by (simp add: engine_close_def af af_sync_flushed [OF o(1) b] engine_drop_def dirlock_drop_def b)
  have "closed_ok C ?w L T"
    using o L h disk_cong [of ?w w C L T] by (auto simp: closed_ok_def intro: less_imp_le)
  moreover have "synced_but fid ?w L" if "synced_but fid w L" for fid
    using synced_but_mark [OF that, of "bw_file (af_writer af)"] by (simp add: synced_but_def)
  ultimately show thesis using that c L by auto
qed

section \<open>The lock file\<close>

lemma lock_file_name [simp]: "LOCK_FILE \<noteq> data_path fid" "LOCK_FILE \<noteq> hint_path fid"
  "data_path fid \<noteq> LOCK_FILE" "hint_path fid \<noteq> LOCK_FILE"
proof -
  have "length (data_path fid) = 33" "length (hint_path fid) = 33"
    using zero_padded_facts(1) [OF unat_u32_padded [of fid]] by (simp_all add: data_path_def hint_path_def)
  moreover have "length LOCK_FILE = 13" by (simp add: LOCK_FILE_def)
  ultimately have "length LOCK_FILE \<noteq> length (data_path fid)" "length LOCK_FILE \<noteq> length (hint_path fid)" by simp_all
  then show "LOCK_FILE \<noteq> data_path fid" "LOCK_FILE \<noteq> hint_path fid"
    "data_path fid \<noteq> LOCK_FILE" "hint_path fid \<noteq> LOCK_FILE" by metis+
qed

lemma create_file_no_fault:
  assumes "w_outs w = []" and "world_ok w"
  obtains i w' where "create_file name w = (Inr i, w')" and "world_ok w'" and "w_outs w' = []"
    and "w_locks w' = w_locks w" and "lookup name w' = Some i" and "data_of i w' = []"
    and "\<And>n. n \<noteq> name \<Longrightarrow> lookup n w' = lookup n w" and "\<And>n. n \<noteq> name \<Longrightarrow> file_bytes n w' = file_bytes n w"
    and "\<And>n. n \<noteq> name \<Longrightarrow> durable_file n w \<Longrightarrow> durable_file n w'" and "w_warnings w' = w_warnings w"
    and "\<And>n. n \<noteq> name \<Longrightarrow> lookup n w \<noteq> Some i"
proof (cases "lookup name w")
  case None
  obtain i w' where n: "new_file name w = (Inr i, w')" by (simp add: new_file_def)
  note f = new_file_facts [OF assms(2) None n]
  have "create_file name w = (Inr i, w')" using None n assms(1) by (simp add: create_file_def sys_no_fault)
  moreover have "durable_file m w'" if "durable_file m w" for m
    using durable_new_file [OF assms(2) None n] that by blast
  moreover have "w_warnings w' = w_warnings w" using n by (auto simp: new_file_def)
  ultimately show thesis
    using that [of i w'] f(1,2,3,4,5,6,7) assms(1) lookup_bound [OF assms(2)] by fastforce
next
  case (Some i)
  let ?w = "w\<lparr>w_inodes := (w_inodes w)[i := \<lparr>i_data = [], i_durable = 0\<rparr>]\<rparr>"
  have i: "i < length (w_inodes w)" by (rule lookup_bound [OF assms(2) Some])
  have l: "lookup n ?w = lookup n w" for n by (simp add: lookup_def)
  have d: "data_of j ?w = (if j = i then [] else data_of j w)" for j
    using i by (simp add: data_of_def nth_list_update)
  have other: "lookup n w \<noteq> Some i" if "n \<noteq> name" for n using lookup_inj [OF assms(2) _ Some, of n] that by auto
  then have "file_bytes n ?w = file_bytes n w" if "n \<noteq> name" for n
    using that by (cases "lookup n w") (auto simp: file_bytes_def l d)
  moreover have "durable_file n ?w" if "n \<noteq> name" "durable_file n w" for n
    using that other [OF that(1)] unfolding durable_file_def by (auto simp: l d)
  moreover have "create_file name w = (Inr i, ?w)" using Some assms(1) by (simp add: create_file_def sys_no_fault)
  moreover have "world_ok ?w" using assms(2) by (subst world_ok_cong) simp_all
  ultimately show thesis using that [of i ?w] assms(1) Some l d other by simp
qed

lemma disk_names_cong:
  assumes "\<And>f. file_bytes (data_path f) w' = file_bytes (data_path f) w"
    and "\<And>f. file_bytes (hint_path f) w' = file_bytes (hint_path f) w"
  shows "disk C w' L T = disk C w L T"
  unfolding disk_def assms by simp

section \<open>Open\<close>

definition next_id :: "files \<Rightarrow> nat" where
  "next_id L = (if L = [] then 0 else Suc (unat (fst (last L))))"

lemma next_id_word:
  assumes "next_id L < 2 ^ 32 - 1"
  shows "unat (next_id_after (map fst L)) = next_id L"
  using assms unat_plus_one [of "fst (last L)"] by (auto simp: next_id_def next_id_after_def last_map)

lemma sorted_le_last:
  "sorted_wrt (<) (map fst L) \<Longrightarrow> f \<in> fst ` set L \<Longrightarrow> L \<noteq> [] \<and> f \<le> fst (last L :: u32 \<times> 'a)"
  by (induction L rule: rev_induct) (auto simp: sorted_wrt_append less_imp_le)

lemma open_files_ok:
  assumes d: "disk C w L T" "world_ok w" "w_outs w = []" and n: "next_id L < 2 ^ 32 - 1"
    and h: "\<forall>fid. lookup (hint_path fid) w \<noteq> None \<longrightarrow> L \<noteq> [] \<and> fid \<le> fst (last L)"
    and rw: "o_is_read_write opts"
  obtains kd fid j w' where "open_files C opts w = (Inr (kd, fid, Some (fresh_active fid j)), w')"
    and "unat fid = next_id L" and "keydir_ok kd" and "indexes kd (index_files (L @ [(fid, [])]) Map.empty)"
    and "store_ok C m ((fresh_active fid j, gc_new, fid + 1), w') (L @ [(fid, [])]) (T(fid := []))"
    and "extends w w'" and "\<And>n. durable_file n w \<or> n = data_path fid \<Longrightarrow> durable_file n w'"
    and "w_warnings w' = w_warnings w @ recovery_warnings C w T L"
proof -
  define fid where "fid = next_id_after (map fst L)"
  have fid: "unat fid = next_id L" unfolding fid_def by (rule next_id_word [OF n])
  have lt: "f < fid" if "L \<noteq> []" "f \<le> fst (last L)" for f
    using that fid by (simp add: word_less_nat_alt word_le_nat_alt next_id_def)
  obtain kd where rec: "recover C (map fst L) (keydir_new, w) = (Inr (), (kd, warned (recovery_warnings C w T L) w))"
    and kd: "keydir_ok kd" "indexes kd (index_files L Map.empty)"
    by (rule recover_disk [OF d(1,3)])
  let ?w = "warned (recovery_warnings C w T L) w"
  have d1: "disk C ?w L T" "world_ok ?w" "w_outs ?w = []" using d by simp_all
  have ids: "\<forall>f \<in> fst ` set L. f < fid"
    using sorted_le_last [OF diskD(1) [OF d(1)]] lt by blast
  have hints: "\<forall>f. lookup (hint_path f) ?w \<noteq> None \<longrightarrow> f < fid" using h lt by auto
  have fb: "unat fid < 2 ^ 32 - 1" using n fid by simp
  obtain j w' where c: "af_create fid ?w = (Inr (fresh_active fid j), w')" and e: "extends ?w w'"
    and d2: "disk C w' (L @ [(fid, [])]) (T(fid := []))" "world_ok w'" "w_outs w' = []"
    and a: "active_ok m (fresh_active fid j) (fid + 1) w' (L @ [(fid, [])]) (T(fid := []))"
    and wa: "w_warnings w' = w_warnings ?w"
    and du: "\<And>n. durable_file n ?w \<or> n = data_path fid \<Longrightarrow> durable_file n w'"
    by (rule af_create_ok [OF d1 ids hints fb, of m]) blast
  have "open_files C opts w = (Inr (kd, fid, Some (fresh_active fid j)), w')"
    using rw by (simp add: open_files_def bindE_def discover_disk [OF d] rec Let_def fid_def [symmetric] c)
  moreover have "extends w w'" using e by (simp add: extends_def)
  moreover have "durable_file n ?w" if "durable_file n w" for n using that by (simp add: durable_file_def)
  moreover have "w_warnings w' = w_warnings w @ recovery_warnings C w T L" using wa by (simp add: warned_def)
  ultimately show thesis
    using that [of kd fid j w'] fid kd d2 a du by (auto simp: store_ok_def)
qed

lemma engine_open_inv:
  assumes cl: "closed_ok C w L T" and n: "next_id L < 2 ^ 32 - 1" and flk: "flock_ok flk"
    and o: "o_is_read_write opts" "unat (o_max_file_size opts) \<le> 2 ^ 63"
  obtains eg w' fid where "engine_open C flk opts w = (Inr eg, w')" and "unat fid = next_id L"
    and "eng_inv C (eg, w') (L @ [(fid, [])]) (T(fid := []))"
    and "eg_opts eg = opts" and "unat (eg_next_file_id eg) = Suc (next_id L)"
    and "gc_pending_writes (eg_gc eg) = 0"
    and "w_warnings w' = w_warnings w @ recovery_warnings C w T L"
    and "\<And>f. synced_but f w L \<Longrightarrow> synced_but f w' (L @ [(fid, [])])"
    and "fst ` set L \<subseteq> {f. f < fid}"
proof -
  have w0: "w_outs w = []" "world_ok w" using cl by (simp_all add: closed_ok_def)
  obtain l w1 where l: "create_file LOCK_FILE w = (Inr l, w1)" "world_ok w1" "w_outs w1 = []" "w_locks w1 = w_locks w"
      "lookup LOCK_FILE w1 = Some l" "data_of l w1 = []"
    and n1: "\<And>n. n \<noteq> LOCK_FILE \<Longrightarrow> lookup n w1 = lookup n w"
    and b1: "\<And>n. n \<noteq> LOCK_FILE \<Longrightarrow> file_bytes n w1 = file_bytes n w"
    and du1: "\<And>n. n \<noteq> LOCK_FILE \<Longrightarrow> durable_file n w \<Longrightarrow> durable_file n w1"
    and wa1: "w_warnings w1 = w_warnings w" and "\<And>n. n \<noteq> LOCK_FILE \<Longrightarrow> lookup n w \<noteq> Some l"
    by (rule create_file_no_fault [OF w0, of LOCK_FILE]) blast
  let ?w2 = "w1\<lparr>w_locks := [l]\<rparr>"
  have d2: "disk C ?w2 L T" using cl by (subst disk_names_cong [of ?w2 w]) (simp_all add: b1 closed_ok_def)
  have "world_ok ?w2" using l(2) by (subst world_ok_cong [of ?w2 w1]) simp_all
  moreover have "\<forall>fid. lookup (hint_path fid) ?w2 \<noteq> None \<longrightarrow> L \<noteq> [] \<and> fid \<le> fst (last L)"
    using cl by (simp add: closed_ok_def n1)
  moreover have "w_outs ?w2 = []" using l(3) by simp
  ultimately obtain kd fid j w' where
    op: "open_files C opts ?w2 = (Inr (kd, fid, Some (fresh_active fid j)), w')"
    and fid: "unat fid = next_id L" and kd: "keydir_ok kd" "indexes kd (index_files (L @ [(fid, [])]) Map.empty)"
    and st: "store_ok C (o_max_file_size opts) ((fresh_active fid j, gc_new, fid + 1), w') (L @ [(fid, [])]) (T(fid := []))"
    and ex: "extends ?w2 w'" and du: "\<And>n. durable_file n ?w2 \<or> n = data_path fid \<Longrightarrow> durable_file n w'"
    and wa: "w_warnings w' = w_warnings ?w2 @ recovery_warnings C ?w2 T L"
    using open_files_ok [OF d2 _ _ n _ o(1), of "o_max_file_size opts"] by blast
  let ?eg = "\<lparr>eg_keydir = kd, eg_files = dfs_new, eg_active = Some (fresh_active fid j), eg_gc = gc_new,
    eg_next_file_id = fid + 1, eg_metrics = (if o_metrics opts then Some [] else None), eg_opts = opts,
    eg_write_lock = Some l\<rparr>"
  have "flk l (w_locks w1) = Some [l]" using flk cl l(4) by (simp add: flock_ok_def closed_ok_def)
  then have "engine_open C flk opts w = (Inr ?eg, w')"
    using cl o(1) by (simp add: engine_open_def bindE_def map_err_def create_dir_all_def sys_no_fault closed_ok_def
        dirlock_acquire_def l(1) op)
  moreover have "w_locks w' = [l]" "lookup LOCK_FILE w' = Some l" using ex l(5) by (simp_all add: extends_def)
  then have "eng_inv C (?eg, w') (L @ [(fid, [])]) (T(fid := []))"
    using st kd o by (simp add: eng_inv_def)
  moreover have "unat (fid + 1) = Suc (next_id L)" using unat_plus_one [of fid] fid n by simp
  moreover have "recovery_warnings C ?w2 T L = recovery_warnings C w T L"
    by (induction L) (auto simp: hint_warning_def uses_hint_def b1)
  then have "w_warnings w' = w_warnings w @ recovery_warnings C w T L" using wa wa1 by simp
  moreover have "synced_but f w' (L @ [(fid, [])])" if "synced_but f w L" for f
    using that du du1 by (auto simp: synced_but_def)
  moreover have "fst ` set L \<subseteq> {f. f < fid}"
    using diskD(1) [of C w' "L @ [(fid, [])]"] st by (auto simp: store_ok_def sorted_wrt_append)
  ultimately show thesis
    using that [of ?eg w' fid] fid by (simp add: gc_new_def)
qed

lemma closed_empty: "closed_ok C empty_world [] (\<lambda>_. [])"
  by (simp add: closed_ok_def disk_def empty_world_def world_ok_def file_bytes_def lookup_def)

lemma contents_open [simp]: "contents (L @ [(fid, [])]) = contents L"
  by (simp add: contents_def fun_eq_iff)

end
