(* ===== verification/WriterOps.thy ===== *)
theory WriterOps
  imports Lifecycle
begin

text \<open>
  The merge output writer without faults: the data file and the hint file it is writing hold, on disk
  and in the buffers together, the records written so far and the hint records that describe them.
\<close>

section \<open>Frames\<close>

text \<open>What the writer may change while it writes output \<open>cur\<close>: the bytes of its two files.\<close>

definition touches :: "u32 \<Rightarrow> world \<Rightarrow> world \<Rightarrow> bool" where
  "touches cur w w' \<longleftrightarrow> w_outs w' = [] \<and> world_ok w' \<and> w_locks w' = w_locks w \<and>
     (\<forall>n. lookup n w' = lookup n w) \<and>
     (\<forall>n. n \<noteq> data_path cur \<and> n \<noteq> hint_path cur \<longrightarrow>
        file_bytes n w' = file_bytes n w \<and> (durable_file n w \<longrightarrow> durable_file n w'))"

lemma touches_refl [simp]: "w_outs w = [] \<Longrightarrow> world_ok w \<Longrightarrow> touches cur w w"
  by (simp add: touches_def)

lemma touches_trans: "touches cur w w' \<Longrightarrow> touches cur w' w'' \<Longrightarrow> touches cur w w''"
  by (simp add: touches_def)

lemma touches_append:
  assumes "w_outs w = []" and "world_ok w" and "lookup n w = Some i"
    and "n = data_path cur \<or> n = hint_path cur"
  shows "touches cur w (append_data i bs w)"
proof -
  have "lookup m w \<noteq> Some i" if "m \<noteq> data_path cur" "m \<noteq> hint_path cur" for m
    using lookup_inj [OF assms(2) _ assms(3), of m] that assms(4) by auto
  moreover have "durable_file m (append_data i bs w)"
    if "durable_file m w" "m \<noteq> data_path cur" "m \<noteq> hint_path cur" for m
    by (rule durable_file_append [OF assms(2,3) _ that(1)]) (use that assms(4) in auto)
  ultimately show ?thesis using assms(1,2) by (simp add: touches_def file_bytes_append_data)
qed

lemma touches_mark: "w_outs w = [] \<Longrightarrow> world_ok w \<Longrightarrow> touches cur w (mark_durable i w)"
  by (simp add: touches_def)

lemma bw_contents_spill:
  assumes "bw_buf bw @ bs = spill @ buf" and "bw_file bw < length (w_inodes w)"
  shows "bw_contents (bw\<lparr>bw_buf := buf\<rparr>) (append_data (bw_file bw) spill w) = bw_contents bw w @ bs"
  using assms by (simp add: bw_contents_def)

lemma bw_contents_other: "j \<noteq> bw_file bw \<Longrightarrow> bw_contents bw (append_data j bs w) = bw_contents bw w"
  by (simp add: bw_contents_def)

lemma bw_contents_mark [simp]: "bw_contents bw (mark_durable j w) = bw_contents bw w"
  by (simp add: bw_contents_def)

section \<open>The writer's invariant\<close>

definition mw_ok :: "'h crc32fast \<Rightarrow> 'h merge_writer \<Rightarrow> world \<Rightarrow> log_rec list \<Rightarrow> bool" where
  "mw_ok C mw w crs \<longleftrightarrow>
     lookup (data_path (current_file_id mw)) w = Some (bw_file (af_writer (mw_data mw))) \<and>
     lookup (hint_path (current_file_id mw)) w = Some (bw_file (mw_hint mw)) \<and>
     bw_contents (af_writer (mw_data mw)) w = log_bytes C crs \<and>
     af_offset (mw_data mw) = of_nat (log_len crs) \<and>
     bw_contents (mw_hint mw) w = hint_bytes 0 crs \<and>
     (\<exists>chunks. mw_hint_crc mw = foldl (hasher_update C) (hasher_new C) chunks \<and> concat chunks = hint_bytes 0 crs) \<and>
     list_all rec_ok crs"

lemma hint_bytes_snoc:
  "hint_bytes 0 (crs @ [(k, v, t, ts)]) = hint_bytes 0 crs @
     encode_hint k (en_header (entry_of k v t ts)) (of_nat (log_len crs + HEADER_SIZE + length k))"
  by (simp add: hint_bytes_append hint_bytes_Cons)

lemma write_record_ok:
  assumes ok: "mw_ok C mw w crs" and w: "w_outs w = []" "world_ok w" and r: "rec_ok (k, v, False, ts)"
  obtains mw' w' where
    "write_record C (entry_of k v False ts) (mw, nid, w) =
      (Inr (current_file_id mw, of_nat (log_len crs + HEADER_SIZE + length k)), (mw', nid, w'))"
    and "mw_ok C mw' w' (crs @ [(k, v, False, ts)])" and "touches (current_file_id mw) w w'"
    and "current_file_id mw' = current_file_id mw"
    and "mw_pending_since_flush mw' = mw_pending_since_flush mw + 1"
proof -
  let ?r = "(k, v, False, ts)" and ?enc = "encode_entry C k v False ts" and ?af = "mw_data mw"
  let ?vp = "of_nat (log_len crs + HEADER_SIZE + length k) :: u64"
  let ?hint = "encode_hint k (en_header (entry_of k v False ts)) ?vp"
  let ?i = "bw_file (af_writer ?af)" and ?j = "bw_file (mw_hint mw)"
  note m = ok [unfolded mw_ok_def]
  have ne: "?i \<noteq> ?j" using m lookup_inj [OF w(2), of "data_path (current_file_id mw)" ?i "hint_path (current_file_id mw)"]
    by auto
  have lt: "?i < length (w_inodes w)" "?j < length (w_inodes w)" using m lookup_bound [OF w(2)] by blast+
  obtain spill buf where s1: "bw_buf (af_writer ?af) @ ee_bytes ?enc = spill @ buf"
    and w1: "write_unflushed ?enc (?af, w) =
      (Inr (af_file_id ?af, af_offset ?af + (of_nat (length (ee_bytes ?enc)) - of_nat (ee_value_len ?enc)),
            of_nat (length (ee_bytes ?enc))),
       (?af\<lparr>af_writer := (af_writer ?af)\<lparr>bw_buf := buf\<rparr>,
           af_offset := af_offset ?af + of_nat (length (ee_bytes ?enc))\<rparr>, append_data ?i spill w))"
    using write_unflushed_no_fault [OF w(1), of ?af ?enc] by blast
  define w2 where "w2 = append_data ?i spill w"
  have w2: "w_outs w2 = []" "world_ok w2" using w by (simp_all add: w2_def)
  obtain spill2 buf2 where s2: "bw_buf (mw_hint mw) @ ?hint = spill2 @ buf2"
    and h: "bw_write_all ?hint (mw_hint mw, w2) = (Inr (), ((mw_hint mw)\<lparr>bw_buf := buf2\<rparr>, append_data ?j spill2 w2))"
    using bw_write_all_no_fault [OF w2(1), of "mw_hint mw" ?hint] by blast
  define w3 where "w3 = append_data ?j spill2 w2"
  have pos: "af_offset ?af + (of_nat (length (ee_bytes ?enc)) - of_nat (ee_value_len ?enc)) = ?vp"
    using m by (simp add: length_encode_entry)
  have off: "af_offset ?af + of_nat (length (ee_bytes ?enc)) = of_nat (log_len (crs @ [?r]))"
    using m by (simp add: length_encode_entry)
  let ?af' = "?af\<lparr>af_writer := (af_writer ?af)\<lparr>bw_buf := buf\<rparr>, af_offset := of_nat (log_len (crs @ [?r]))\<rparr>"
  let ?mw = "mw\<lparr>mw_data := ?af', mw_hint := (mw_hint mw)\<lparr>bw_buf := buf2\<rparr>,
    mw_hint_crc := hasher_update C (mw_hint_crc mw) ?hint, mw_pending_since_flush := mw_pending_since_flush mw + 1\<rparr>"
  note w1' = w1 [unfolded pos off, folded w2_def]
  have "write_record C (entry_of k v False ts) (mw, nid, w) = (Inr (current_file_id mw, ?vp), (?mw, nid, w3))"
    by (simp add: write_record_def bindE_def on_data_def on_hint_def zoom_def append_buffered_def w1' Let_def h
        modify_mw_def w3_def [symmetric] current_file_id_def del: of_nat_add log_len_simps)
  moreover have t: "touches (current_file_id mw) w w2"
    unfolding w2_def by (rule touches_append [OF w, of "data_path (current_file_id mw)"]) (use m in simp_all)
  have t2: "touches (current_file_id mw) w2 w3"
    unfolding w3_def by (rule touches_append [OF w2, of "hint_path (current_file_id mw)"]) (use m in \<open>simp_all add: w2_def\<close>)
  moreover have "mw_ok C ?mw w3 (crs @ [?r])"
  proof -
    have "bw_contents (af_writer ?af') w3 = log_bytes C (crs @ [?r])"
      using bw_contents_spill [OF s1 lt(1)] bw_contents_other [of ?j "af_writer ?af'" spill2 w2] ne m
      by (simp add: w3_def w2_def)
    moreover have "bw_contents ((mw_hint mw)\<lparr>bw_buf := buf2\<rparr>) w3 = hint_bytes 0 (crs @ [?r])"
      using bw_contents_spill [OF s2, of w2] lt(2) bw_contents_other [of ?i "mw_hint mw" spill w] ne m
      unfolding hint_bytes_snoc by (simp add: w3_def w2_def)
    moreover have "\<exists>chunks. hasher_update C (mw_hint_crc mw) ?hint = foldl (hasher_update C) (hasher_new C) chunks \<and>
        concat chunks = hint_bytes 0 (crs @ [?r])"
    proof -
      obtain chunks where "mw_hint_crc mw = foldl (hasher_update C) (hasher_new C) chunks"
        and "concat chunks = hint_bytes 0 crs" using m by blast
      then show ?thesis unfolding hint_bytes_snoc by (intro exI [of _ "chunks @ [?hint]"]) simp
    qed
    ultimately show ?thesis
      using m r t t2 by (simp add: mw_ok_def current_file_id_def touches_def)
  qed
  ultimately show thesis
    using that [of ?mw w3] touches_trans [OF t t2] by (simp add: current_file_id_def)
qed

section \<open>Closing an output\<close>

text \<open>A finished output: the data file is complete and synced, the hint file complete.\<close>

definition output_closed :: "'h crc32fast \<Rightarrow> world \<Rightarrow> u32 \<Rightarrow> log_rec list \<Rightarrow> bool" where
  "output_closed C w fid rs \<longleftrightarrow> file_bytes (data_path fid) w = Some (log_bytes C rs) \<and>
     (\<exists>hb. file_bytes (hint_path fid) w = Some hb \<and> hint_valid C rs hb) \<and>
     durable_file (data_path fid) w \<and> list_all rec_ok rs"

lemma mw_finish_ok:
  assumes ok: "mw_ok C mw w crs" and w: "w_outs w = []" "world_ok w" and C: "crc32fast_ok C"
  obtains mw' w' where "mw_finish C (mw, nid, w) = (Inr (), (mw', nid, w'))"
    and "output_closed C w' (current_file_id mw) crs" and "touches (current_file_id mw) w w'"
    and "current_file_id mw' = current_file_id mw" and "bw_buf (af_writer (mw_data mw')) = []"
    and "bw_buf (mw_hint mw') = []" and "mw_pending_since_flush mw' = mw_pending_since_flush mw"
proof -
  let ?af = "mw_data mw" let ?i = "bw_file (af_writer ?af)" and ?j = "bw_file (mw_hint mw)"
  let ?d = "data_path (current_file_id mw)" and ?h = "hint_path (current_file_id mw)"
  note m = ok [unfolded mw_ok_def]
  have ne: "?i \<noteq> ?j" using m lookup_inj [OF w(2), of ?d ?i ?h] by auto
  have lt: "?i < length (w_inodes w)" "?j < length (w_inodes w)" using m lookup_bound [OF w(2)] by blast+
  define w2 where "w2 = mark_durable ?i (append_data ?i (bw_buf (af_writer ?af)) w)"
  have w2: "w_outs w2 = []" "world_ok w2" using w by (simp_all add: w2_def)
  have sync: "af_sync (?af, w) = (Inr (), (?af\<lparr>af_writer := (af_writer ?af)\<lparr>bw_buf := []\<rparr>\<rparr>, w2))"
    by (simp add: af_sync_no_fault [OF w(1)] w2_def)
  let ?crc = "hasher_finalize C (mw_hint_crc mw)"
  obtain chunks where "mw_hint_crc mw = foldl (hasher_update C) (hasher_new C) chunks"
    and "concat chunks = hint_bytes 0 crs" using m by blast
  then have crc: "?crc = crc_hash C (hint_bytes 0 crs)" using C by (simp add: crc32fast_ok_def)
  obtain spill buf where s: "bw_buf (mw_hint mw) @ le32 ?crc = spill @ buf"
    and h: "bw_write_all (le32 ?crc) (mw_hint mw, w2) = (Inr (), ((mw_hint mw)\<lparr>bw_buf := buf\<rparr>, append_data ?j spill w2))"
    using bw_write_all_no_fault [OF w2(1), of "mw_hint mw" "le32 ?crc"] by blast
  define w3 where "w3 = append_data ?j (spill @ buf) w2"
  let ?mw = "mw\<lparr>mw_data := ?af\<lparr>af_writer := (af_writer ?af)\<lparr>bw_buf := []\<rparr>\<rparr>, mw_hint := (mw_hint mw)\<lparr>bw_buf := []\<rparr>,
    mw_hint_crc := hasher_new C\<rparr>"
  have fin: "mw_finish C (mw, nid, w) = (Inr (), (?mw, nid, w3))"
    by (simp add: mw_finish_def bindE_def on_data_def on_hint_def zoom_def sync close_current_hint_file_def
        Let_def h bw_flush_no_fault w2 append_data_append w3_def)
  have t: "touches (current_file_id mw) w w2"
    unfolding w2_def
    by (rule touches_trans [OF touches_append [OF w, of ?d] touches_mark]) (use m w in simp_all)
  have t2: "touches (current_file_id mw) w2 w3"
    unfolding w3_def by (rule touches_append [OF w2, of ?h]) (use m in \<open>simp_all add: w2_def\<close>)
  have lk: "lookup ?d w3 = Some ?i" "lookup ?h w3 = Some ?j" using m t t2 by (simp_all add: touches_def)
  have "data_of ?i w3 = log_bytes C crs" using ne m lt by (simp add: w3_def w2_def bw_contents_def)
  then have fd: "file_bytes ?d w3 = Some (log_bytes C crs)" using lk by (simp add: file_bytes_lookup)
  have "data_of ?j w3 = bw_contents (mw_hint mw) w @ le32 ?crc"
    unfolding bw_contents_def append_assoc s using ne lt by (simp add: w3_def w2_def)
  then have "data_of ?j w3 = hint_bytes 0 crs @ le32 ?crc" using m by simp
  then have fh: "file_bytes ?h w3 = Some (hint_bytes 0 crs @ le32 (crc_hash C (hint_bytes 0 crs)))"
    using lk by (simp add: file_bytes_lookup crc)
  have "durable_file ?d w2" unfolding w2_def
    by (rule durable_file_marked) (use m lt in simp_all)
  then have "durable_file ?d w3" unfolding w3_def
    by (intro durable_file_append [OF w2(2), of ?h]) (use m in \<open>simp_all add: w2_def\<close>)
  then have "output_closed C w3 (current_file_id mw) crs"
    using fd fh m by (simp add: output_closed_def hint_valid_def)
  then show thesis using that [OF fin] touches_trans [OF t t2] by (simp add: current_file_id_def)
qed

section \<open>Opening an output\<close>

text \<open>What changes when a new output is started: two new names.\<close>

definition adds_output :: "u32 \<Rightarrow> world \<Rightarrow> world \<Rightarrow> bool" where
  "adds_output fid w w' \<longleftrightarrow> w_outs w' = [] \<and> world_ok w' \<and> w_locks w' = w_locks w \<and>
     (\<forall>n. n \<noteq> data_path fid \<and> n \<noteq> hint_path fid \<longrightarrow>
        lookup n w' = lookup n w \<and> file_bytes n w' = file_bytes n w \<and> (durable_file n w \<longrightarrow> durable_file n w'))"

definition fresh_writer :: "'h crc32fast \<Rightarrow> u32 \<Rightarrow> nat \<Rightarrow> nat \<Rightarrow> 'h merge_writer" where
  "fresh_writer C fid i j = \<lparr>mw_data = fresh_active fid i, mw_hint = bw_new j, mw_hint_crc = hasher_new C,
     mw_pending_since_flush = 0\<rparr>"

lemma open_output_ok:
  assumes "w_outs w = []" and "world_ok w" and "lookup (data_path nid) w = None"
    and "lookup (hint_path nid) w = None"
  obtains i j w' where "open_output (nid, w) = (Inr (fresh_active nid i, bw_new j), (nid + 1, w'))"
    and "adds_output nid w w'" and "mw_ok C (fresh_writer C nid i j) w' []"
proof -
  obtain i w1 where n1: "new_file (data_path nid) w = (Inr i, w1)" by (simp add: new_file_def)
  note f1 = new_file_facts [OF assms(2,3) n1]
  have none: "lookup (hint_path nid) w1 = None" using f1(2) assms(4) by simp
  obtain j w2 where n2: "new_file (hint_path nid) w1 = (Inr j, w2)" by (simp add: new_file_def)
  note f2 = new_file_facts [OF f1(1) none n2]
  have "create_file (hint_path nid) w1 = (Inr j, w2)"
    using none n2 f1(5) assms(1) by (simp add: create_file_def sys_no_fault)
  then have o: "open_output (nid, w) = (Inr (fresh_active nid i, bw_new j), (nid + 1, w2))"
    by (simp add: open_output_def bindE_def af_create_new [OF assms(1,2,3) n1])
  have "durable_file n w2" if "durable_file n w" for n
    using durable_new_file [OF f1(1) none n2] durable_new_file [OF assms(2,3) n1] that by blast
  then have "adds_output nid w w2"
    using f1 f2 assms(1) by (simp add: adds_output_def)
  moreover have "mw_ok C (fresh_writer C nid i j) w2 []"
    using f1 f2 by (auto simp: mw_ok_def fresh_writer_def current_file_id_def fresh_active_def bw_new_def
        bw_contents_def intro!: exI [of _ "[]"])
  ultimately show thesis by (rule that [OF o])
qed

section \<open>The outputs of a merge\<close>

text \<open>Everything but the files of the given ids is as it was.\<close>

definition same_outside :: "u32 set \<Rightarrow> world \<Rightarrow> world \<Rightarrow> bool" where
  "same_outside ids w0 w \<longleftrightarrow> (\<forall>n. (\<forall>f \<in> ids. n \<noteq> data_path f \<and> n \<noteq> hint_path f) \<longrightarrow>
     lookup n w = lookup n w0 \<and> file_bytes n w = file_bytes n w0 \<and> (durable_file n w0 \<longrightarrow> durable_file n w))"

text \<open>
  The writer's outputs: those in \<open>Os\<close> are finished, the current one has the records \<open>crs\<close>. \<open>w0\<close> is the world
  without them: it has no file of their ids, nor of those that are still to be claimed.
\<close>

definition out_inv :: "'h crc32fast \<Rightarrow> u64 \<Rightarrow> world \<Rightarrow> files \<Rightarrow> log_rec list \<Rightarrow> 'h merge_writer \<times> u32 \<times> world \<Rightarrow> bool" where
  "out_inv C m w0 Os crs = (\<lambda>(mw, nid, w).
     w_outs w = [] \<and> world_ok w \<and> w_locks w = w_locks w0 \<and> mw_ok C mw w crs \<and>
     (crs = [] \<or> log_len crs < unat m) \<and>
     same_outside (insert (current_file_id mw) (fst ` set Os)) w0 w \<and>
     (\<forall>(fid, rs) \<in> set Os. output_closed C w fid rs \<and> log_len rs < 2 ^ 64) \<and>
     sorted_wrt (<) (map fst (Os @ [(current_file_id mw, crs)])) \<and> current_file_id mw < nid \<and>
     (\<forall>f \<in> insert (current_file_id mw) (fst ` set Os). lookup (data_path f) w0 = None \<and> lookup (hint_path f) w0 = None) \<and>
     unused_from nid w0)"

lemma out_inv_ids:
  assumes "out_inv C m w0 Os crs (mw, nid, w)"
  shows "f \<in> fst ` set Os \<Longrightarrow> f < current_file_id mw" and "current_file_id mw < nid"
    and "sorted_wrt (<) (map fst (Os @ [(current_file_id mw, crs)]))"
    and "f \<in> fst ` set (Os @ [(current_file_id mw, crs)]) \<Longrightarrow> f < nid"
    and "f \<in> fst ` set (Os @ [(current_file_id mw, crs)]) \<Longrightarrow> lookup (data_path f) w0 = None \<and> lookup (hint_path f) w0 = None"
  using assms by (auto simp: out_inv_def sorted_wrt_append intro: less_trans)

lemma same_outsideD:
  assumes "same_outside ids w0 w" and "\<And>f. f \<in> ids \<Longrightarrow> n \<noteq> data_path f \<and> n \<noteq> hint_path f"
  shows "lookup n w = lookup n w0" and "file_bytes n w = file_bytes n w0"
    and "durable_file n w0 \<Longrightarrow> durable_file n w"
  using assms by (auto simp: same_outside_def)

lemma same_outside_touches:
  assumes "same_outside ids w0 w" and "touches cur w w'" and "cur \<in> ids"
  shows "same_outside ids w0 w'"
  using assms unfolding same_outside_def touches_def by metis

lemma same_outside_adds:
  assumes "same_outside ids w0 w" and "adds_output fid w w'"
  shows "same_outside (insert fid ids) w0 w'"
  using assms unfolding same_outside_def adds_output_def by (metis insertI1 insertI2)

lemma output_closed_frame:
  assumes "output_closed C w fid rs" and "file_bytes (data_path fid) w' = file_bytes (data_path fid) w"
    and "file_bytes (hint_path fid) w' = file_bytes (hint_path fid) w"
    and "durable_file (data_path fid) w \<Longrightarrow> durable_file (data_path fid) w'"
  shows "output_closed C w' fid rs"
  using assms by (auto simp: output_closed_def)

lemma output_closed_touches: "output_closed C w fid rs \<Longrightarrow> touches cur w w' \<Longrightarrow> fid \<noteq> cur \<Longrightarrow> output_closed C w' fid rs"
  by (rule output_closed_frame [of C w fid rs w']) (auto simp: touches_def)

lemma output_closed_adds: "output_closed C w fid rs \<Longrightarrow> adds_output cur w w' \<Longrightarrow> fid \<noteq> cur \<Longrightarrow> output_closed C w' fid rs"
  by (rule output_closed_frame [of C w fid rs w']) (auto simp: adds_output_def)

text \<open>A step inside the current output.\<close>

lemma out_inv_touches:
  assumes inv: "out_inv C m w0 Os crs (mw, nid, w)" and t: "touches (current_file_id mw) w w'"
    and "current_file_id mw' = current_file_id mw" and "mw_ok C mw' w' crs'" and "crs' = [] \<or> log_len crs' < unat m"
  shows "out_inv C m w0 Os crs' (mw', nid, w')"
proof -
  have "\<forall>(fid, rs) \<in> set Os. output_closed C w' fid rs \<and> log_len rs < 2 ^ 64"
  proof (intro ballI, clarify)
    fix fid rs assume x: "(fid, rs) \<in> set Os"
    then have "fid \<noteq> current_file_id mw" using out_inv_ids(1) [OF inv, of fid] by force
    moreover have "output_closed C w fid rs \<and> log_len rs < 2 ^ 64" using inv x by (auto simp: out_inv_def)
    ultimately show "output_closed C w' fid rs \<and> log_len rs < 2 ^ 64"
      using output_closed_touches [OF _ t] by blast
  qed
  moreover have "same_outside (insert (current_file_id mw) (fst ` set Os)) w0 w'"
    using inv same_outside_touches [OF _ t] by (auto simp: out_inv_def)
  ultimately show ?thesis using inv t assms(3-5) by (simp add: out_inv_def touches_def)
qed

lemma flush_batch_ok:
  assumes "mw_ok C mw w crs" and "w_outs w = []" and "world_ok w"
  obtains mw' w' where "flush_batch (mw, nid, w) = (Inr (), (mw', nid, w'))" and "mw_ok C mw' w' crs"
    and "touches (current_file_id mw) w w'" and "current_file_id mw' = current_file_id mw"
proof -
  let ?af = "mw_data mw" let ?i = "bw_file (af_writer ?af)"
  let ?w = "append_data ?i (bw_buf (af_writer ?af)) w"
  let ?mw = "mw\<lparr>mw_data := ?af\<lparr>af_writer := (af_writer ?af)\<lparr>bw_buf := []\<rparr>\<rparr>, mw_pending_since_flush := 0\<rparr>"
  note m = assms(1) [unfolded mw_ok_def]
  have ne: "?i \<noteq> bw_file (mw_hint mw)"
    using m lookup_inj [OF assms(3), of "data_path (current_file_id mw)" ?i "hint_path (current_file_id mw)"] by auto
  have lt: "?i < length (w_inodes w)" using m lookup_bound [OF assms(3)] by blast
  have "flush_batch (mw, nid, w) = (Inr (), (?mw, nid, ?w))"
    by (simp add: flush_batch_def bindE_def on_data_def zoom_def flush_only_no_fault [OF assms(2)] modify_mw_def)
  moreover have t: "touches (current_file_id mw) w ?w"
    by (rule touches_append [OF assms(2,3), of "data_path (current_file_id mw)"]) (use m in simp_all)
  moreover have "mw_ok C ?mw ?w crs"
    using m lt bw_contents_other [OF ne, of "bw_buf (af_writer ?af)" w]
      bw_contents_spill [of "af_writer ?af" "[]" "bw_buf (af_writer ?af)" "[]" w]
    by (simp add: mw_ok_def current_file_id_def)
  ultimately show thesis using that [of ?mw ?w] by (simp add: current_file_id_def)
qed

lemma mw_rotate_ok:
  assumes ok: "mw_ok C mw w crs" and w: "w_outs w = []" "world_ok w" and C: "crc32fast_ok C"
    and new: "lookup (data_path nid) w = None" "lookup (hint_path nid) w = None"
  obtains i j w1 w' where "mw_rotate C (mw, nid, w) = (Inr (), (fresh_writer C nid i j, nid + 1, w'))"
    and "output_closed C w1 (current_file_id mw) crs" and "touches (current_file_id mw) w w1"
    and "adds_output nid w1 w'" and "mw_ok C (fresh_writer C nid i j) w' []"
proof -
  obtain mw1 w1 where fin: "mw_finish C (mw, nid, w) = (Inr (), (mw1, nid, w1))"
    and cl: "output_closed C w1 (current_file_id mw) crs" and t: "touches (current_file_id mw) w w1"
    using mw_finish_ok [OF ok w C, of nid] by blast
  have w1: "w_outs w1 = []" "world_ok w1" "lookup (data_path nid) w1 = None" "lookup (hint_path nid) w1 = None"
    using t new by (simp_all add: touches_def)
  obtain i j w2 where o: "open_output (nid, w1) = (Inr (fresh_active nid i, bw_new j), (nid + 1, w2))"
    and ad: "adds_output nid w1 w2" and fr: "mw_ok C (fresh_writer C nid i j) w2 []"
    by (rule open_output_ok [OF w1])
  have "mw_rotate C = bindE (mw_finish C) (\<lambda>_ (mw, s).
     bindE (zoom snd (\<lambda>s (mw, _). (mw, s)) open_output) (\<lambda>(data, hint).
     modify_mw (\<lambda>mw. mw\<lparr>mw_data := data, mw_hint := hint, mw_hint_crc := hasher_new C,
       mw_pending_since_flush := 0\<rparr>)) (mw, s))"
    by (simp add: mw_rotate_def mw_finish_def bindE_assoc)
  then have "mw_rotate C (mw, nid, w) = (Inr (), (fresh_writer C nid i j, nid + 1, w2))"
    by (simp add: bindE_def fin zoom_def o modify_mw_def fresh_writer_def)
  then show thesis by (rule that [OF _ cl t ad fr])
qed

text \<open>
  Writing one live entry: it is the next record of the current output, which may then be finished and
  followed by an empty one.
\<close>

lemma write_live_entry_ok:
  assumes inv: "out_inv C m w0 Os crs (mw, nid, w)" and r: "rec_ok (k, v, False, ts)"
    and C: "crc32fast_ok C" and m: "unat m \<le> 2 ^ 63" and nid: "unat nid < 2 ^ 32 - 1"
  obtains flushed mw' nid' w' Os' crs' where
    "write_live_entry C m (entry_of k v False ts) (mw, nid, w) =
      (Inr (current_file_id mw, of_nat (log_len crs + HEADER_SIZE + length k), flushed), (mw', nid', w'))"
    and "out_inv C m w0 Os' crs' (mw', nid', w')" and "current_file_id mw \<le> current_file_id mw'"
    and "unat nid' + length Os = unat nid + length Os'"
    and "Os' @ [(current_file_id mw', crs')] = Os @ [(current_file_id mw, crs @ [(k, v, False, ts)])] \<or>
      Os' @ [(current_file_id mw', crs')] = Os @ [(current_file_id mw, crs @ [(k, v, False, ts)]), (current_file_id mw', [])]"
proof -
  let ?r = "(k, v, False, ts)" and ?cur = "current_file_id mw"
  have i: "mw_ok C mw w crs" "w_outs w = []" "world_ok w" and small: "crs = [] \<or> log_len crs < unat m"
    using inv by (auto simp: out_inv_def)
  have lim: "log_len (crs @ [?r]) < 2 ^ 64"
    using small m rec_len_bound [OF r] by (auto simp del: rec_len.simps)
  obtain mw1 w1 where wr: "write_record C (entry_of k v False ts) (mw, nid, w) =
      (Inr (?cur, of_nat (log_len crs + HEADER_SIZE + length k)), (mw1, nid, w1))"
    and ok1: "mw_ok C mw1 w1 (crs @ [?r])" and t1: "touches ?cur w w1" and cur1: "current_file_id mw1 = ?cur"
    using write_record_ok [OF i r, of nid] by blast
  have w1: "w_outs w1 = []" "world_ok w1" using t1 by (simp_all add: touches_def)
  have len: "af_len (mw_data mw1) = of_nat (log_len (crs @ [?r]))" using ok1 by (simp add: mw_ok_def af_len_def)
  show thesis
  proof (cases "is_ready_to_rotate m mw1")
    case False
    then have "\<not> m \<le> of_nat (log_len (crs @ [?r]))" using len by (simp add: is_ready_to_rotate_def)
    then have small1: "crs @ [?r] = [] \<or> log_len (crs @ [?r]) < unat m"
      using unat_of_nat_u64 [OF lim] by (simp add: word_less_nat_alt not_le)
    show thesis
    proof (cases "is_ready_to_flush mw1")
      case True
      obtain mw2 w2 where fl: "flush_batch (mw1, nid, w1) = (Inr (), (mw2, nid, w2))"
        and ok2: "mw_ok C mw2 w2 (crs @ [?r])" and t2: "touches ?cur w1 w2" and cur2: "current_file_id mw2 = ?cur"
        using flush_batch_ok [OF ok1 w1, of nid] cur1 by metis
      have "write_live_entry C m (entry_of k v False ts) (mw, nid, w) =
          (Inr (?cur, of_nat (log_len crs + HEADER_SIZE + length k), True), (mw2, nid, w2))"
        using False True by (simp add: write_live_entry_def bindE_def wr rotate_or_flush_def fl)
      from that [OF this out_inv_touches [OF inv touches_trans [OF t1 t2] cur2 ok2 small1]] cur2
      show thesis by simp
    next
      case nf: False
      have "write_live_entry C m (entry_of k v False ts) (mw, nid, w) =
          (Inr (?cur, of_nat (log_len crs + HEADER_SIZE + length k), False), (mw1, nid, w1))"
        using False nf by (simp add: write_live_entry_def bindE_def wr rotate_or_flush_def)
      from that [OF this out_inv_touches [OF inv t1 cur1 ok1 small1]] cur1 show thesis by simp
    qed
  next
    case True
    note ids = out_inv_ids [OF inv]
    have fresh: "lookup (data_path nid) w1 = None \<and> lookup (hint_path nid) w1 = None"
    proof -
      have "lookup (data_path nid) w0 = None \<and> lookup (hint_path nid) w0 = None"
        using inv by (simp add: out_inv_def unused_from_def)
      moreover have "\<forall>f \<in> insert ?cur (fst ` set Os). nid \<noteq> f" using ids(1,2) by force
      ultimately show ?thesis using inv t1 by (auto simp: out_inv_def same_outside_def touches_def)
    qed
    obtain i j w2 w3 where ro: "mw_rotate C (mw1, nid, w1) = (Inr (), (fresh_writer C nid i j, nid + 1, w3))"
      and cl: "output_closed C w2 ?cur (crs @ [?r])" and t2: "touches ?cur w1 w2"
      and ad: "adds_output nid w2 w3" and fr: "mw_ok C (fresh_writer C nid i j) w3 []"
      using mw_rotate_ok [OF ok1 w1 C, of nid] fresh cur1 by metis
    let ?Os = "Os @ [(?cur, crs @ [?r])]"
    have e: "write_live_entry C m (entry_of k v False ts) (mw, nid, w) =
        (Inr (?cur, of_nat (log_len crs + HEADER_SIZE + length k), True), (fresh_writer C nid i j, nid + 1, w3))"
      using True by (simp add: write_live_entry_def bindE_def wr rotate_or_flush_def ro)
    have t: "touches ?cur w w2" by (rule touches_trans [OF t1 t2])
    have so: "same_outside (insert nid (fst ` set ?Os)) w0 w3"
      using inv same_outside_adds [OF same_outside_touches [OF _ t] ad, of "insert ?cur (fst ` set Os)" w0]
      by (auto simp: out_inv_def)
    have closed: "\<forall>(fid, rs) \<in> set ?Os. output_closed C w3 fid rs \<and> log_len rs < 2 ^ 64"
    proof (intro ballI, clarify)
      fix fid rs assume x: "(fid, rs) \<in> set ?Os"
      have "fid \<noteq> nid" using x ids(4) [of fid] by force
      moreover have "output_closed C w2 fid rs \<and> log_len rs < 2 ^ 64"
      proof (cases "(fid, rs) \<in> set Os")
        case True
        then have "fid \<noteq> ?cur" using ids(1) [of fid] by force
        moreover have "output_closed C w fid rs \<and> log_len rs < 2 ^ 64" using inv True by (auto simp: out_inv_def)
        ultimately show ?thesis using output_closed_touches [OF _ t] by blast
      next
        case False
        then show ?thesis using x cl lim by simp
      qed
      ultimately show "output_closed C w3 fid rs \<and> log_len rs < 2 ^ 64"
        using output_closed_adds [OF _ ad] by blast
    qed
    have cur: "current_file_id (fresh_writer C nid i j) = nid"
      by (simp add: fresh_writer_def current_file_id_def fresh_active_def)
    have lt: "nid < nid + 1" using unat_plus_one [OF nid] by (simp add: word_less_nat_alt)
    have "sorted_wrt (<) (map fst (?Os @ [(nid, [])]))"
      using ids(3,4) by (auto simp: sorted_wrt_append)
    moreover have "unused_from (nid + 1) w0"
      using inv lt by (auto simp: out_inv_def unused_from_def intro: order_trans less_imp_le)
    moreover have "\<forall>f \<in> insert nid (fst ` set ?Os). lookup (data_path f) w0 = None \<and> lookup (hint_path f) w0 = None"
      using inv by (auto simp: out_inv_def unused_from_def)
    ultimately have "out_inv C m w0 ?Os [] (fresh_writer C nid i j, nid + 1, w3)"
      using inv so closed fr ad t lt
      by (simp add: out_inv_def adds_output_def touches_def cur)
    from that [OF e this] ids(2) unat_plus_one [OF nid] show thesis
      by (simp add: cur less_imp_le)
  qed
qed

end
