(* ===== verification/MergeIndex.thy ===== *)
theory MergeIndex
  imports WriterOps
begin

text \<open>
  Merge as the index sees it: live entries are copied to the outputs one after the other, and the
  repoints that are still queued turn the index into that of the old files followed by the outputs.
\<close>

section \<open>Keys of a list of files\<close>

definition keys_of :: "files \<Rightarrow> bytes set" where
  "keys_of L = (\<Union>(fid, rs) \<in> set L. fst ` set rs)"

lemma keys_of_simps [simp]:
  "keys_of [] = {}" "keys_of ((fid, rs) # L) = fst ` set rs \<union> keys_of L" "keys_of (L @ L') = keys_of L \<union> keys_of L'"
  by (auto simp: keys_of_def)

lemma finite_keys_of [simp]: "finite (keys_of L)"
  by (induction L) auto

lemma index_files_other: "k \<notin> keys_of L \<Longrightarrow> index_files L m k = m k"
  by (induction L arbitrary: m) (auto simp: index_recs_other)

lemma index_files_forget: "k \<in> keys_of L \<Longrightarrow> index_files L m k = index_files L m' k"
proof (induction L arbitrary: m m')
  case Nil
  then show ?case by simp
next
  case (Cons x L)
  obtain fid rs where x: "x = (fid, rs)" by fastforce
  show ?case
  proof (cases "k \<in> keys_of L")
    case True
    then show ?thesis using Cons.IH x by simp
  next
    case False
    then show ?thesis using Cons.prems x index_recs_forget [of k rs fid 0 m m'] by (simp add: index_files_other)
  qed
qed

lemma index_files_new_file [simp]: "index_files (L @ [(fid, [])]) m = index_files L m"
  by simp

lemma located_id: "located L k ent v \<Longrightarrow> kd_file_id ent \<in> fst ` set L"
  by (force simp: located_def located_entry_def)

lemma index_files_id:
  assumes "k \<in> keys_of L" and "index_files L m k = Some (ent, v)"
  shows "kd_file_id ent \<in> fst ` set L"
  using index_files_located [of L Map.empty k ent v] index_files_forget [OF assms(1), of m Map.empty] assms(2)
  by (auto dest: located_id)

lemma dom_index_files: "dom (index_files L Map.empty) \<subseteq> keys_of L"
  by (metis (no_types, lifting) domIff index_files_other subsetI)

section \<open>Repoints\<close>

definition repoint_all :: "pending_queue \<Rightarrow> keydir \<Rightarrow> keydir" where
  "repoint_all items kd = fold (\<lambda>(k, old_ent, new_ent) kd. snd (cas_repoint k old_ent new_ent kd)) items kd"

lemma repoint_all_simps [simp]:
  "repoint_all [] kd = kd"
  "repoint_all (items @ [(k, old_ent, new_ent)]) kd = snd (cas_repoint k old_ent new_ent (repoint_all items kd))"
  by (simp_all add: repoint_all_def)

lemma keydir_ok_repoint_all: "keydir_ok kd \<Longrightarrow> keydir_ok (repoint_all items kd)"
  by (induction items arbitrary: kd) (auto simp: repoint_all_def)

lemma drain_no_hook:
  "drain_repoints no_hook cs = cs\<lparr>cs_sh := (cs_sh cs)\<lparr>sh_keydir := repoint_all (cs_pending cs) (sh_keydir (cs_sh cs))\<rparr>,
     cs_pending := []\<rparr>"
proof -
  have "fold (apply_repoint no_hook) items sh = sh\<lparr>sh_keydir := repoint_all items (sh_keydir sh)\<rparr>" for items sh
    by (induction items arbitrary: sh) (auto simp: apply_repoint_def no_hook_def repoint_all_def Let_def)
  then show ?thesis
    by (simp add: drain_repoints_def apply_pending_repoints_def pq_drain_all_def Let_def)
qed

section \<open>The invariant\<close>

text \<open>
  \<open>m0\<close> is the index at the start, \<open>D\<close> tells which of its entries have been visited. Applying what is
  queued gives the index of the outputs on top of \<open>m0\<close>; the keys of the outputs are those of visited
  live entries, with their values; and an entry of the index is the old one, or the final one of a copied key.
\<close>

definition idx_inv :: "index \<Rightarrow> files \<Rightarrow> (kd_entry \<Rightarrow> bool) \<Rightarrow> keydir \<Rightarrow> pending_queue \<Rightarrow> bool" where
  "idx_inv m0 outs D kd pending \<longleftrightarrow> keydir_ok kd \<and>
     indexes (repoint_all pending kd) (index_files outs m0) \<and>
     (\<forall>k. keydir_get k kd = map_option fst (m0 k) \<or>
        k \<in> keys_of outs \<and> keydir_get k kd = map_option fst (index_files outs m0 k)) \<and>
     (\<forall>k. map_option snd (index_files outs m0 k) = map_option snd (m0 k)) \<and>
     (\<forall>k. k \<in> keys_of outs \<longleftrightarrow> (\<exists>ent v. m0 k = Some (ent, v) \<and> D ent))"

lemma idx_inv_start: "keydir_ok kd \<Longrightarrow> indexes kd m0 \<Longrightarrow> idx_inv m0 [(cur, [])] (\<lambda>_. False) kd []"
  by (simp add: idx_inv_def indexes_def)

lemma idx_inv_new_file [simp]: "idx_inv m0 (outs @ [(fid, [])]) D kd pending = idx_inv m0 outs D kd pending"
  by (simp add: idx_inv_def)

lemma idx_inv_cong:
  assumes "\<And>k ent v. m0 k = Some (ent, v) \<Longrightarrow> D ent = D' ent"
  shows "idx_inv m0 outs D kd pending = idx_inv m0 outs D' kd pending"
proof -
  have "(\<exists>ent v. m0 k = Some (ent, v) \<and> D ent) = (\<exists>ent v. m0 k = Some (ent, v) \<and> D' ent)" for k
    using assms by blast
  then show ?thesis by (simp add: idx_inv_def)
qed

lemma idx_inv_drain:
  assumes "idx_inv m0 outs D kd pending"
  shows "idx_inv m0 outs D (repoint_all pending kd) []"
proof -
  have ix: "keydir_get k (repoint_all pending kd) = map_option fst (index_files outs m0 k)" for k
    using assms by (simp add: idx_inv_def indexes_def)
  have "keydir_get k (repoint_all pending kd) = map_option fst (m0 k) \<or> k \<in> keys_of outs" for k
    using ix [of k] index_files_other [of k outs m0] by auto
  then show ?thesis
    using assms ix by (auto simp: idx_inv_def indexes_def keydir_ok_repoint_all)
qed

text \<open>Copying one live entry and queueing its repoint.\<close>

lemma idx_inv_copy:
  assumes inv: "idx_inv m0 (Os @ [(cur, crs)]) D kd pending" and k: "m0 k = Some (old_ent, v)" "\<not> D old_ent"
    and D': "\<And>k' e v'. m0 k' = Some (e, v') \<Longrightarrow> D' e \<longleftrightarrow> D e \<or> k' = k"
  shows "idx_inv m0 (Os @ [(cur, crs @ [(k, v, False, ts)])]) D' kd
      (pending @ [(k, old_ent, located_entry cur (log_len crs) (k, v, False, ts))])"
    and "k \<notin> keys_of (Os @ [(cur, crs)])"
proof -
  let ?outs = "Os @ [(cur, crs)]" and ?outs' = "Os @ [(cur, crs @ [(k, v, False, ts)])]"
  let ?new = "located_entry cur (log_len crs) (k, v, False, ts)"
  show fresh: "k \<notin> keys_of ?outs" using inv k by (auto simp: idx_inv_def)
  have V': "index_files ?outs' m0 = (index_files ?outs m0)(k \<mapsto> (?new, v))"
    unfolding index_files_snoc by (simp add: index_step_def)
  have keys: "keys_of ?outs' = insert k (keys_of ?outs)" by auto
  have "index_files ?outs m0 k = Some (old_ent, v)" using index_files_other [OF fresh] k(1) by simp
  then have "keydir_get k (repoint_all pending kd) = Some old_ent"
    using inv by (simp add: idx_inv_def indexes_def)
  then have ix: "indexes (repoint_all (pending @ [(k, old_ent, ?new)]) kd) (index_files ?outs' m0)"
    using inv unfolding V' idx_inv_def indexes_def by simp
  have ent: "keydir_get k' kd = map_option fst (m0 k') \<or>
      k' \<in> keys_of ?outs' \<and> keydir_get k' kd = map_option fst (index_files ?outs' m0 k')" for k'
  proof (cases "k' = k")
    case True
    have "keydir_get k kd = map_option fst (m0 k)" using inv fresh unfolding idx_inv_def by blast
    then show ?thesis using True by simp
  next
    case False
    then have "index_files ?outs' m0 k' = index_files ?outs m0 k'" "k' \<in> keys_of ?outs' \<longleftrightarrow> k' \<in> keys_of ?outs"
      unfolding V' keys by simp_all
    moreover have "keydir_get k' kd = map_option fst (m0 k') \<or>
        k' \<in> keys_of ?outs \<and> keydir_get k' kd = map_option fst (index_files ?outs m0 k')"
      using inv unfolding idx_inv_def by blast
    ultimately show ?thesis by (simp only:)
  qed
  have vals: "map_option snd (index_files ?outs' m0 k') = map_option snd (m0 k')" for k'
    using inv k(1) unfolding V' idx_inv_def by simp
  have dom: "k' \<in> keys_of ?outs' \<longleftrightarrow> (\<exists>ent v. m0 k' = Some (ent, v) \<and> D' ent)" for k'
    using inv k(1) D' unfolding keys idx_inv_def by blast
  show "idx_inv m0 ?outs' D' kd (pending @ [(k, old_ent, ?new)])"
    using inv ix ent vals dom by (simp only: idx_inv_def) blast
qed

text \<open>Which entry of the index a live record is.\<close>

lemma idx_inv_live:
  assumes inv: "idx_inv m0 outs D kd pending" and live: "is_live kd fid vp k"
    and "\<forall>f \<in> fst ` set outs. f \<noteq> fid"
  obtains ent v where "m0 k = Some (ent, v)" and "kd_file_id ent = fid" and "kd_value_pos ent = vp"
    and "keydir_get k kd = Some ent"
proof -
  obtain ent where ent: "keydir_get k kd = Some ent" "kd_file_id ent = fid" "kd_value_pos ent = vp"
    using live by (auto simp: is_live_def split: option.splits)
  have "keydir_get k kd = map_option fst (m0 k)"
  proof (rule ccontr)
    assume "keydir_get k kd \<noteq> map_option fst (m0 k)"
    then have "k \<in> keys_of outs" "map_option fst (index_files outs m0 k) = Some ent"
      using inv ent(1) unfolding idx_inv_def by metis+
    then have "kd_file_id ent \<in> fst ` set outs" by (auto dest: index_files_id)
    then show False using assms(3) ent(2) by auto
  qed
  then obtain v where "m0 k = Some (ent, v)" using ent(1) by (cases "m0 k") auto
  then show thesis using ent that by auto
qed

lemma idx_inv_dead:
  assumes inv: "idx_inv m0 outs D kd pending" and dead: "\<not> is_live kd fid vp k"
    and m0: "m0 k = Some (ent, v)" "kd_file_id ent = fid" "kd_value_pos ent = vp"
  shows "D ent"
proof -
  have "keydir_get k kd \<noteq> Some ent" using dead m0 by (auto simp: is_live_def)
  then have "k \<in> keys_of outs" using inv m0(1) by (force simp: idx_inv_def)
  then show ?thesis using inv m0(1) by (auto simp: idx_inv_def)
qed

section \<open>Positions\<close>

text \<open>The entries of a file before a position, and those of the files already done.\<close>

definition visited :: "u32 set \<Rightarrow> u32 \<Rightarrow> nat \<Rightarrow> kd_entry \<Rightarrow> bool" where
  "visited ids fid pos ent \<longleftrightarrow> kd_file_id ent \<in> ids \<or> kd_file_id ent = fid \<and> unat (kd_value_pos ent) \<le> pos"

lemma indexed_located: "index_files L Map.empty k = Some (ent, v) \<Longrightarrow> located L k ent v"
  using index_files_located [of L Map.empty k ent v] by simp

lemma index_entry_in_file:
  assumes "distinct (map fst L)" and "(fid, rs) \<in> set L" and "located L k ent v"
    and "kd_file_id ent = fid" and "log_len rs < 2 ^ 64"
  obtains pre post ts where "rs = pre @ (k, v, False, ts) # post"
    and "ent = located_entry fid (log_len pre) (k, v, False, ts)"
    and "unat (kd_value_pos ent) = log_len pre + HEADER_SIZE + length k"
proof -
  obtain fid' pre post ts where mem: "(fid', pre @ (k, v, False, ts) # post) \<in> set L"
    and ent: "ent = located_entry fid' (log_len pre) (k, v, False, ts)"
    using assms(3) unfolding located_def by blast
  have f: "fid' = fid" using assms(4) ent by (simp add: located_entry_def)
  then have rs: "rs = pre @ (k, v, False, ts) # post"
    using mem assms(1,2) by (metis distinct_map_of_eq option.inject)
  have "log_len pre + HEADER_SIZE + length k < 2 ^ 64" using assms(5) rs by simp
  then have "unat (kd_value_pos ent) = log_len pre + HEADER_SIZE + length k"
    unfolding ent located_entry_def by (simp only: split_conv kd_entry.select_convs) (rule unat_of_nat_u64)
  then show thesis using that rs ent f by simp
qed

text \<open>Between two record boundaries there is one record.\<close>

lemma visited_step:
  assumes "distinct (map fst L)" and "(fid, pre @ (k, v, t, ts) # post) \<in> set L"
    and m: "located L k' ent v'" and lim: "log_len (pre @ (k, v, t, ts) # post) < 2 ^ 64"
    and "fid \<notin> ids"
  shows "visited ids fid (log_len pre + rec_len (k, v, t, ts)) ent \<longleftrightarrow> visited ids fid (log_len pre) ent \<or>
     k' = k \<and> kd_file_id ent = fid \<and> kd_value_pos ent = of_nat (log_len pre + HEADER_SIZE + length k)"
    and "kd_file_id ent = fid \<Longrightarrow> kd_value_pos ent = of_nat (log_len pre + HEADER_SIZE + length k) \<Longrightarrow>
      k' = k \<and> v' = v \<and> \<not> t \<and> ent = located_entry fid (log_len pre) (k, v, False, ts) \<and> \<not> visited ids fid (log_len pre) ent"
proof -
  let ?r = "(k, v, t, ts)"
  let ?P = "log_len pre + HEADER_SIZE + length k"
  have "?P < 2 ^ 64" using lim by simp
  then have P: "unat (of_nat ?P :: u64) = ?P" by (rule unat_of_nat_u64)
  have main: "unat (kd_value_pos ent) \<le> log_len pre \<or>
      (unat (kd_value_pos ent) = ?P \<and> k' = k \<and> v' = v \<and> \<not> t \<and> ent = located_entry fid (log_len pre) (k, v, False, ts)) \<or>
      unat (kd_value_pos ent) > log_len pre + rec_len ?r"
    if fid: "kd_file_id ent = fid"
  proof -
    obtain pre' post' ts' where rs: "pre @ ?r # post = pre' @ (k', v', False, ts') # post'"
      and ent: "ent = located_entry fid (log_len pre') (k', v', False, ts')"
      and p: "unat (kd_value_pos ent) = log_len pre' + HEADER_SIZE + length k'"
      by (rule index_entry_in_file [OF assms(1,2) m fid lim])
    consider "pre' = pre" | x where "pre = pre' @ (k', v', False, ts') # x" | x where "pre' = pre @ ?r # x"
      using rs by (auto simp: append_eq_append_conv2 append_eq_Cons_conv Cons_eq_append_conv)
    then show ?thesis
    proof cases
      case 1
      then show ?thesis using rs ent p by auto
    next
      case 2
      then show ?thesis using p by simp
    next
      case 3
      then show ?thesis using p by (simp add: HEADER_SIZE_def)
    qed
  qed
  show "kd_file_id ent = fid \<Longrightarrow> kd_value_pos ent = of_nat ?P \<Longrightarrow>
      k' = k \<and> v' = v \<and> \<not> t \<and> ent = located_entry fid (log_len pre) (k, v, False, ts) \<and> \<not> visited ids fid (log_len pre) ent"
    using main P assms(5) by (auto simp: visited_def HEADER_SIZE_def simp del: of_nat_add)
  show "visited ids fid (log_len pre + rec_len ?r) ent \<longleftrightarrow> visited ids fid (log_len pre) ent \<or>
     k' = k \<and> kd_file_id ent = fid \<and> kd_value_pos ent = of_nat ?P"
  proof (cases "kd_file_id ent = fid")
    case False
    then show ?thesis by (simp add: visited_def)
  next
    case True
    have eq: "kd_value_pos ent = of_nat ?P \<longleftrightarrow> unat (kd_value_pos ent) = ?P" 
      unfolding word_unat_eq_iff [of "kd_value_pos ent"] P ..
    have "?P \<le> log_len pre + rec_len ?r" "log_len pre < ?P" by (simp_all add: HEADER_SIZE_def)
    then show ?thesis unfolding visited_def eq using True main [OF True] assms(5) by auto
  qed
qed

end
