(* ===== verification/CopyLoop.thy ===== *)
theory CopyLoop
  imports MergeIndex
begin

text \<open>
  The copying loops of a merge, whatever runs in the windows before the repoints: what the loops do to an invariant
  follows from what one record, one queued repoint and the reading of one file do to it.
\<close>

section \<open>Reading an input\<close>

fun pos_entries :: "nat \<Rightarrow> log_rec list \<Rightarrow> (u64 \<times> entry) list" where
  "pos_entries pos [] = []"
| "pos_entries pos (r # rs) = (of_nat pos, rec_entry r) # pos_entries (pos + rec_len r) rs"

lemma read_all_loop_log:
  assumes "list_all rec_ok rs" and "rd_outs r = []" and "rd_rest r = log_bytes C rs @ tail" and "torn C tail"
  shows "\<exists>ws' rest. read_all_loop C fid (of_nat pos) out ws r =
    (Inr (out @ pos_entries pos rs), ws @ ws', \<lparr>rd_rest = rest, rd_outs = []\<rparr>)"
  using assms
proof (induction rs arbitrary: pos out r)
  case Nil
  have "read_entry C r = (Inr (fst (parse_entry C tail)), \<lparr>rd_rest = snd (parse_entry C tail), rd_outs = []\<rparr>)"
    using read_entry_cursor [OF Nil.prems(2)] Nil.prems(3) by simp
  then show ?case using Nil.prems(4)
    by (subst read_all_loop.simps) (auto simp: torn_def)
next
  case (Cons x rs)
  have px: "parse_entry C (rd_rest r) = (Some (EntryOk (rec_entry x) (of_nat (rec_len x))), log_bytes C rs @ tail)"
    using Cons.prems(1,3) parse_rec [of x C] by simp
  have n: "read_entry C r = (Inr (Some (EntryOk (rec_entry x) (of_nat (rec_len x)))),
      \<lparr>rd_rest = log_bytes C rs @ tail, rd_outs = []\<rparr>)"
    using read_entry_cursor [OF Cons.prems(2), of C] px by simp
  have "\<exists>ws' rest. read_all_loop C fid (of_nat (pos + rec_len x)) (out @ [(of_nat pos, rec_entry x)]) ws
      \<lparr>rd_rest = log_bytes C rs @ tail, rd_outs = []\<rparr> =
    (Inr ((out @ [(of_nat pos, rec_entry x)]) @ pos_entries (pos + rec_len x) rs), ws @ ws', \<lparr>rd_rest = rest, rd_outs = []\<rparr>)"
    using Cons.prems by (intro Cons.IH) auto
  then show ?case by (subst read_all_loop.simps) (auto simp: n)
qed

lemma read_all_entries_ok:
  assumes "w_outs w = []" and "file_bytes (data_path fid) w = Some (log_bytes C rs @ tail)"
    and "list_all rec_ok rs" and "torn C tail"
  obtains ws where "read_all_entries C fid w = (Inr (pos_entries 0 rs), warned ws w)"
proof -
  obtain i where i: "lookup (data_path fid) w = Some i" "data_of i w = log_bytes C rs @ tail"
    using assms(2) by (auto simp: file_bytes_def)
  obtain ws rest where "read_all_loop C fid (of_nat 0) [] (w_warnings w) \<lparr>rd_rest = log_bytes C rs @ tail, rd_outs = []\<rparr> =
      (Inr ([] @ pos_entries 0 rs), w_warnings w @ ws, \<lparr>rd_rest = rest, rd_outs = []\<rparr>)"
    using read_all_loop_log [OF assms(3) _ _ assms(4), of "\<lparr>rd_rest = log_bytes C rs @ tail, rd_outs = []\<rparr>"
        fid 0 "[]" "w_warnings w"] by auto
  then have "read_all_entries C fid w = (Inr (pos_entries 0 rs), warned ws w)"
    using assms(1) by (simp add: read_all_entries_def bindE_def open_read_no_fault i warned_def)
  then show thesis by (rule that)
qed

section \<open>One record\<close>

lemma rec_value_pos:
  assumes "rec_ok (k, v, t, ts)"
  shows "(of_nat pos :: u64) + of_nat HEADER_SIZE + ucast (eh_key_size (en_header (rec_entry (k, v, t, ts)))) =
    of_nat (pos + HEADER_SIZE + length k)"
proof -
  have "length k < 2 ^ 32" using assms by (simp add: sizes_ok_def)
  then have "(ucast (of_nat (length k) :: u32) :: u64) = of_nat (length k)" by (rule ucast_of_nat_u32)
  then show ?thesis by simp
qed

lemma pq_queue_entry:
  "pq_queue (entry_of k v t ts) fid fid' vp (of_nat (n + HEADER_SIZE + length k)) q =
     q @ [(k, \<lparr>kd_file_id = fid, kd_value_size = of_nat (length v), kd_value_pos = vp, kd_timestamp = ts\<rparr>,
           located_entry fid' n (k, v, t, ts))]"
  by (simp add: pq_queue_def pq_push_def located_entry_def Let_def)

lemma on_mw_apply:
  "on_mw m cs = (case m (cs_writer cs, sh_next_file_id (cs_sh cs), sh_world (cs_sh cs)) of
     (r, (mw, nid, w)) \<Rightarrow> (r, cs\<lparr>cs_writer := mw, cs_sh := (cs_sh cs)\<lparr>sh_next_file_id := nid, sh_world := w\<rparr>\<rparr>))"
  by (simp add: on_mw_def zoom_def split: prod.splits)

lemma copy_one_skip:
  assumes "rec_ok (k, v, t, ts)" and "t \<or> \<not> is_live (sh_keydir (cs_sh cs)) fid (of_nat (pos + HEADER_SIZE + length k)) k"
  shows "copy_one C m h fid (of_nat pos, rec_entry (k, v, t, ts)) hi cs = (Inr hi, cs)"
  unfolding copy_one_def split_conv Let_def rec_value_pos [OF assms(1)] using assms(2) by auto

text \<open>A live record is written to the output, its repoint queued, and the queue applied after a flush.\<close>

definition copied_live :: "u32 \<Rightarrow> nat \<Rightarrow> log_rec \<Rightarrow> log_rec list \<Rightarrow> 'h merge_writer \<times> u32 \<times> world \<Rightarrow> 'h copy_state \<Rightarrow> 'h copy_state" where
  "copied_live fid pos = (\<lambda>(k, v, t, ts) crs (mw, nid, w) cs.
     cs\<lparr>cs_writer := mw, cs_sh := (cs_sh cs)\<lparr>sh_next_file_id := nid, sh_world := w\<rparr>, cs_copied := cs_copied cs + 1,
       cs_pending := cs_pending cs @ [(k, located_entry fid pos (k, v, t, ts),
         located_entry (current_file_id (cs_writer cs)) (log_len crs) (k, v, t, ts))]\<rparr>)"

definition after_flush :: "hook \<Rightarrow> bool \<Rightarrow> 'h copy_state \<Rightarrow> 'h copy_state" where
  "after_flush h flushed cs =
     (if flushed then drain_repoints h (cs_record (RecordPendingQueueDepth (pq_len (cs_pending cs))) cs) else cs)"

lemma copy_one_copied:
  assumes "rec_ok (k, v, False, ts)" and "is_live (sh_keydir (cs_sh cs)) fid (of_nat (pos + HEADER_SIZE + length k)) k"
    and wr: "write_live_entry C m (rec_entry (k, v, False, ts)) (cs_writer cs, sh_next_file_id (cs_sh cs), sh_world (cs_sh cs)) =
      (Inr (current_file_id (cs_writer cs), of_nat (log_len crs + HEADER_SIZE + length k), flushed), (mw, nid, w))"
    and le: "current_file_id (cs_writer cs) \<le> current_file_id mw"
  shows "copy_one C m h fid (of_nat pos, rec_entry (k, v, False, ts)) (current_file_id (cs_writer cs)) cs =
    (Inr (current_file_id mw), after_flush h flushed (copied_live fid pos (k, v, False, ts) crs (mw, nid, w) cs))"
proof -
  let ?P = "of_nat (pos + HEADER_SIZE + length k) :: u64"
  have old: "\<lparr>kd_file_id = fid, kd_value_size = of_nat (length v), kd_value_pos = ?P, kd_timestamp = ts\<rparr> =
      located_entry fid pos (k, v, False, ts)"
    by (simp add: located_entry_def)
  show ?thesis
    unfolding copy_one_def split_conv Let_def rec_value_pos [OF assms(1)]
    using assms(2) wr le
    by (simp add: bindE_def on_mw_apply pq_queue_entry old after_flush_def copied_live_def max_def del: of_nat_add)
qed

section \<open>The loops\<close>

text \<open>
  The invariant is indexed by the entries visited so far. It has to survive the reading of an input, a record that is
  not live, a live one whose repoint is queued, and the application of the queue.
\<close>

locale copying =
  fixes C :: "'h crc32fast" and m :: u64 and h :: hook and Lin :: files
    and I :: "(kd_entry \<Rightarrow> bool) \<Rightarrow> 'h copy_state \<Rightarrow> bool"
  assumes records: "I D cs \<Longrightarrow> (fid, rs) \<in> set Lin \<Longrightarrow> r \<in> set rs \<Longrightarrow> rec_ok r"
    and reading: "I D cs \<Longrightarrow> (fid, rs) \<in> set Lin \<Longrightarrow>
      \<exists>ws. read_all_entries C fid (sh_world (cs_sh cs)) = (Inr (pos_entries 0 rs), warned ws (sh_world (cs_sh cs))) \<and>
        I D (cs\<lparr>cs_sh := (cs_sh cs)\<lparr>sh_world := warned ws (sh_world (cs_sh cs))\<rparr>\<rparr>)"
    and enter: "I (\<lambda>e. kd_file_id e \<in> ids) cs \<Longrightarrow> (fid, rs) \<in> set Lin \<Longrightarrow> fid \<notin> ids \<Longrightarrow> I (visited ids fid 0) cs"
    and leave: "I (visited ids fid (log_len rs)) cs \<Longrightarrow> (fid, rs) \<in> set Lin \<Longrightarrow> fid \<notin> ids \<Longrightarrow>
      I (\<lambda>e. kd_file_id e \<in> insert fid ids) cs"
    and dead: "I (visited ids fid (log_len pre)) cs \<Longrightarrow> (fid, pre @ (k, v, t, ts) # post) \<in> set Lin \<Longrightarrow> fid \<notin> ids \<Longrightarrow>
      t \<or> \<not> is_live (sh_keydir (cs_sh cs)) fid (of_nat (log_len pre + HEADER_SIZE + length k)) k \<Longrightarrow>
      I (visited ids fid (log_len pre + rec_len (k, v, t, ts))) cs"
    and live: "I (visited ids fid (log_len pre)) cs \<Longrightarrow> (fid, pre @ (k, v, False, ts) # post) \<in> set Lin \<Longrightarrow> fid \<notin> ids \<Longrightarrow>
      is_live (sh_keydir (cs_sh cs)) fid (of_nat (log_len pre + HEADER_SIZE + length k)) k \<Longrightarrow>
      \<exists>crs flushed mw nid w. write_live_entry C m (rec_entry (k, v, False, ts)) (cs_writer cs, sh_next_file_id (cs_sh cs), sh_world (cs_sh cs)) =
          (Inr (current_file_id (cs_writer cs), of_nat (log_len crs + HEADER_SIZE + length k), flushed), (mw, nid, w)) \<and>
        current_file_id (cs_writer cs) \<le> current_file_id mw \<and>
        I (visited ids fid (log_len pre + rec_len (k, v, False, ts))) (copied_live fid (log_len pre) (k, v, False, ts) crs (mw, nid, w) cs)"
    and drain: "I D cs \<Longrightarrow> I D (drain_repoints h cs) \<and> cs_writer (drain_repoints h cs) = cs_writer cs"
    and recording: "I D cs \<Longrightarrow> I D (cs_record x cs)"
begin

lemma flush_ok: "I D cs \<Longrightarrow> I D (after_flush h flushed cs) \<and> cs_writer (after_flush h flushed cs) = cs_writer cs"
  using drain [OF recording] by (simp add: after_flush_def) (simp add: cs_record_def)

lemma one_ok:
  assumes inv: "I (visited ids fid (log_len pre)) cs" and f: "(fid, pre @ r # post) \<in> set Lin" "fid \<notin> ids"
  obtains cs' where "copy_one C m h fid (of_nat (log_len pre), rec_entry r) (current_file_id (cs_writer cs)) cs =
      (Inr (current_file_id (cs_writer cs')), cs')"
    and "I (visited ids fid (log_len pre + rec_len r)) cs'"
proof -
  obtain k v t ts where r: "r = (k, v, t, ts)" by (cases r)
  have rok: "rec_ok (k, v, t, ts)" using records [OF inv f(1), of r] r by simp
  show thesis
  proof (cases "t \<or> \<not> is_live (sh_keydir (cs_sh cs)) fid (of_nat (log_len pre + HEADER_SIZE + length k)) k")
    case True
    show thesis
      by (rule that [of cs]) (use copy_one_skip [OF rok True] dead [OF inv f(1) [unfolded r] f(2) True] r in simp_all)
  next
    case False
    then have t: "t = False" and lv: "is_live (sh_keydir (cs_sh cs)) fid (of_nat (log_len pre + HEADER_SIZE + length k)) k"
      by simp_all
    obtain crs flushed mw nid w where wr: "write_live_entry C m (rec_entry (k, v, False, ts))
          (cs_writer cs, sh_next_file_id (cs_sh cs), sh_world (cs_sh cs)) =
        (Inr (current_file_id (cs_writer cs), of_nat (log_len crs + HEADER_SIZE + length k), flushed), (mw, nid, w))"
      and le: "current_file_id (cs_writer cs) \<le> current_file_id mw"
      and inv': "I (visited ids fid (log_len pre + rec_len (k, v, False, ts)))
        (copied_live fid (log_len pre) (k, v, False, ts) crs (mw, nid, w) cs)"
      using live [OF inv f(1) [unfolded r t] f(2) lv] by blast
    note fl = flush_ok [OF inv', of flushed]
    have "cs_writer (copied_live fid (log_len pre) (k, v, False, ts) crs (mw, nid, w) cs) = mw" by (simp add: copied_live_def)
    then show thesis
      using that [OF _ conjunct1 [OF fl, folded t, folded r]] copy_one_copied [OF rok [unfolded t] lv wr le, of h] conjunct2 [OF fl] r t
      by simp
  qed
qed

lemma entries_ok:
  assumes "(fid, pre @ rest) \<in> set Lin" and "fid \<notin> ids" and "I (visited ids fid (log_len pre)) cs"
  shows "\<exists>cs'. copy_entries C m h fid (pos_entries (log_len pre) rest) (current_file_id (cs_writer cs)) cs =
      (Inr (current_file_id (cs_writer cs')), cs') \<and> I (visited ids fid (log_len (pre @ rest))) cs'"
  using assms(1,3)
proof (induction rest arbitrary: pre cs)
  case Nil
  then show ?case by auto
next
  case (Cons r rest)
  obtain cs1 where one: "copy_one C m h fid (of_nat (log_len pre), rec_entry r) (current_file_id (cs_writer cs)) cs =
      (Inr (current_file_id (cs_writer cs1)), cs1)" and inv1: "I (visited ids fid (log_len pre + rec_len r)) cs1"
    by (rule one_ok [OF Cons.prems(2,1) assms(2)])
  have len: "log_len (pre @ [r]) = log_len pre + rec_len r" by simp
  have "\<exists>cs'. copy_entries C m h fid (pos_entries (log_len (pre @ [r])) rest) (current_file_id (cs_writer cs1)) cs1 =
      (Inr (current_file_id (cs_writer cs')), cs') \<and> I (visited ids fid (log_len ((pre @ [r]) @ rest))) cs'"
    by (rule Cons.IH) (use Cons.prems(1) inv1 len in simp_all)
  then show ?case by (simp add: bindE_def one)
qed

lemma file_ok:
  assumes inv: "I (\<lambda>e. kd_file_id e \<in> ids) cs" and f: "(fid, rs) \<in> set Lin" "fid \<notin> ids"
  obtains cs' where "copy_forward_live_file_entries C m h fid (current_file_id (cs_writer cs)) cs =
      (Inr (current_file_id (cs_writer cs')), cs')" and "I (\<lambda>e. kd_file_id e \<in> insert fid ids) cs'"
proof -
  obtain ws where rd: "read_all_entries C fid (sh_world (cs_sh cs)) = (Inr (pos_entries 0 rs), warned ws (sh_world (cs_sh cs)))"
    and inv1: "I (\<lambda>e. kd_file_id e \<in> ids) (cs\<lparr>cs_sh := (cs_sh cs)\<lparr>sh_world := warned ws (sh_world (cs_sh cs))\<rparr>\<rparr>)"
    using reading [OF inv f(1)] by blast
  let ?cs = "cs\<lparr>cs_sh := (cs_sh cs)\<lparr>sh_world := warned ws (sh_world (cs_sh cs))\<rparr>\<rparr>"
  have "I (visited ids fid (log_len [])) ?cs" using enter [OF inv1 f] by simp
  then obtain cs' where c: "copy_entries C m h fid (pos_entries 0 rs) (current_file_id (cs_writer cs)) ?cs =
      (Inr (current_file_id (cs_writer cs')), cs')" and inv': "I (visited ids fid (log_len rs)) cs'"
    using entries_ok [of fid "[]" rs ids ?cs] f by auto
  have "copy_forward_live_file_entries C m h fid (current_file_id (cs_writer cs)) cs =
      (Inr (current_file_id (cs_writer cs')), cs')"
    by (simp add: copy_forward_live_file_entries_def bindE_def zoom_def rd c)
  then show thesis using leave [OF inv' f] by (rule that)
qed

lemma all_ok:
  assumes "set Lx \<subseteq> set Lin" and "distinct (map fst Lx)" and "ids \<inter> fst ` set Lx = {}" and "I (\<lambda>e. kd_file_id e \<in> ids) cs"
  shows "\<exists>cs'. copy_forward_all_live_entries C m h (map fst Lx) (current_file_id (cs_writer cs)) cs =
      (Inr (current_file_id (cs_writer cs')), cs') \<and> I (\<lambda>e. kd_file_id e \<in> fst ` set Lx \<union> ids) cs'"
  using assms
proof (induction Lx arbitrary: ids cs)
  case Nil
  then show ?case by auto
next
  case (Cons x Lx)
  obtain fid rs where x: "x = (fid, rs)" by fastforce
  have mem: "(fid, rs) \<in> set Lin" "fid \<notin> ids" using Cons.prems x by auto
  obtain cs1 where c: "copy_forward_live_file_entries C m h fid (current_file_id (cs_writer cs)) cs =
      (Inr (current_file_id (cs_writer cs1)), cs1)" and inv1: "I (\<lambda>e. kd_file_id e \<in> insert fid ids) cs1"
    by (rule file_ok [OF Cons.prems(4) mem])
  have "\<exists>cs'. copy_forward_all_live_entries C m h (map fst Lx) (current_file_id (cs_writer cs1)) cs1 =
      (Inr (current_file_id (cs_writer cs')), cs') \<and> I (\<lambda>e. kd_file_id e \<in> fst ` set Lx \<union> insert fid ids) cs'"
    using Cons.prems x inv1 by (intro Cons.IH) auto
  then show ?case by (simp add: x bindE_def c)
qed

end

end
