(* ===== verification/MergeProof.thy ===== *)
theory MergeProof
  imports CopyLoop
begin

text \<open>
  Merge without faults and without other threads: the old files are replaced by outputs with the same
  live entries, the index points at them, and the contents of the datastore do not change.
\<close>

section \<open>The invariant of the copying loops\<close>

text \<open>What is fixed during a merge, and what the invariant of its loops relies on.\<close>

definition merge_env :: "'h crc32fast \<Rightarrow> u64 \<Rightarrow> shared \<Rightarrow> files \<Rightarrow> (u32 \<Rightarrow> bytes) \<Rightarrow> bool" where
  "merge_env C m sh0 L T \<longleftrightarrow> crc32fast_ok C \<and> unat m \<le> 2 ^ 63 \<and> disk C (sh_world sh0) L T \<and>
     unused_from (sh_next_file_id sh0) (sh_world sh0) \<and>
     unat (sh_next_file_id sh0) + card (dom (index_files L Map.empty)) + 3 \<le> 2 ^ 32"

definition merge_inv :: "'h crc32fast \<Rightarrow> u64 \<Rightarrow> shared \<Rightarrow> files \<Rightarrow> (kd_entry \<Rightarrow> bool) \<Rightarrow> files \<Rightarrow> log_rec list \<Rightarrow>
    'h copy_state \<Rightarrow> bool" where
  "merge_inv C m sh0 L D Os crs cs \<longleftrightarrow>
     out_inv C m (sh_world sh0) Os crs
       (cs_writer cs, sh_next_file_id (cs_sh cs), sh_world (cs_sh cs)) \<and>
     idx_inv (index_files L Map.empty) (Os @ [(current_file_id (cs_writer cs), crs)]) D
       (sh_keydir (cs_sh cs)) (cs_pending cs) \<and>
     sh_files (cs_sh cs) = sh_files sh0 \<and> sh_active (cs_sh cs) = sh_active sh0 \<and> sh_gc (cs_sh cs) = sh_gc sh0 \<and>
     length Os \<le> card (keys_of (Os @ [(current_file_id (cs_writer cs), crs)])) \<and>
     unat (sh_next_file_id (cs_sh cs)) = unat (sh_next_file_id sh0) + length Os + 1 \<and>
     (\<forall>f \<in> fst ` set (Os @ [(current_file_id (cs_writer cs), crs)]). sh_next_file_id sh0 \<le> f)"

lemma merge_inv_cong:
  assumes "\<And>k ent v. index_files L Map.empty k = Some (ent, v) \<Longrightarrow> D ent = D' ent"
  shows "merge_inv C m sh0 L D Os crs cs = merge_inv C m sh0 L D' Os crs cs"
  using idx_inv_cong [of "index_files L Map.empty" D D'] assms by (simp add: merge_inv_def)

lemma unused_ids:
  assumes "disk C w L T" and "unused_from n0 w" and "f \<in> fst ` set L"
  shows "f < n0"
proof (rule ccontr)
  assume "\<not> f < n0"
  then have "lookup (data_path f) w = None" using assms(2) by (simp add: unused_from_def)
  moreover obtain rs where "(f, rs) \<in> set L" using assms(3) by auto
  ultimately show False using disk_fileD(4) [OF assms(1)] by (metis file_bytes_None option.distinct(1))
qed

lemma merge_inv_idx:
  "merge_inv C m sh0 L D Os crs cs \<Longrightarrow> idx_inv (index_files L Map.empty)
     (Os @ [(current_file_id (cs_writer cs), crs)]) D (sh_keydir (cs_sh cs)) (cs_pending cs)"
  by (simp add: merge_inv_def)

lemma merge_inv_room:
  assumes "merge_env C m sh0 L T" and "merge_inv C m sh0 L D Os crs cs"
  shows "unat (sh_next_file_id (cs_sh cs)) < 2 ^ 32 - 1"
proof -
  let ?m0 = "index_files L Map.empty" and ?outs = "Os @ [(current_file_id (cs_writer cs), crs)]"
  have "keys_of ?outs \<subseteq> dom ?m0" using assms(2) by (auto simp: merge_inv_def idx_inv_def)
  moreover have "finite (dom ?m0)" using dom_index_files finite_keys_of by (rule finite_subset)
  ultimately have "card (keys_of ?outs) \<le> card (dom ?m0)" by (intro card_mono)
  then have "length Os \<le> card (dom ?m0)" using assms(2) by (simp add: merge_inv_def)
  then show ?thesis using assms by (simp add: merge_env_def merge_inv_def out_inv_def)
qed

lemma merge_inv_outs:
  assumes "merge_env C m sh0 L T" and "merge_inv C m sh0 L D Os crs cs" and "f \<in> fst ` set L"
  shows "\<forall>g \<in> fst ` set (Os @ [(current_file_id (cs_writer cs), crs)]). g \<noteq> f"
proof -
  have d: "disk C (sh_world sh0) L T" using assms(1) by (simp add: merge_env_def)
  have inv: "out_inv C m (sh_world sh0) Os crs
       (cs_writer cs, sh_next_file_id (cs_sh cs), sh_world (cs_sh cs))" using assms(2) by (simp add: merge_inv_def)
  obtain rs where "(f, rs) \<in> set L" using assms(3) by auto
  then have "lookup (data_path f) (sh_world sh0) \<noteq> None"
    using disk_fileD(4) [OF d, of f rs] by (auto simp: file_bytes_def)
  then show ?thesis using out_inv_ids(5) [OF inv] by metis
qed

section \<open>One record\<close>

text \<open>A record that is not live leaves everything as it is.\<close>

lemma copy_one_dead:
  assumes env: "merge_env C m sh0 L T" and inv: "merge_inv C m sh0 L (visited ids fid (log_len pre)) Os crs cs"
    and f: "(fid, pre @ (k, v, t, ts) # post) \<in> set L" "fid \<notin> ids"
    and dead: "t \<or> \<not> is_live (sh_keydir (cs_sh cs)) fid (of_nat (log_len pre + HEADER_SIZE + length k)) k"
  shows "merge_inv C m sh0 L (visited ids fid (log_len pre + rec_len (k, v, t, ts))) Os crs cs"
proof -
  let ?rs = "pre @ (k, v, t, ts) # post" and ?P = "of_nat (log_len pre + HEADER_SIZE + length k) :: u64"
  have d: "disk C (sh_world sh0) L T" using env by (simp add: merge_env_def)
  have lim: "log_len ?rs < 2 ^ 64" using disk_fileD(2) [OF d f(1)] by simp
  have "visited ids fid (log_len pre) ent = visited ids fid (log_len pre + rec_len (k, v, t, ts)) ent"
    if m0: "index_files L Map.empty k' = Some (ent, v')" for k' ent v'
  proof -
    note st = visited_step [OF diskD(2) [OF d] f(1) indexed_located [OF m0] lim f(2)]
    show ?thesis
    proof (cases "kd_file_id ent = fid \<and> kd_value_pos ent = ?P")
      case True
      then have "k' = k" "\<not> t" using st(2) by simp_all
      then have "visited ids fid (log_len pre) ent"
        using dead True m0 idx_inv_dead [OF merge_inv_idx [OF inv]] by blast
      then show ?thesis using st(1) by simp
    next
      case False
      then show ?thesis using st(1) by blast
    qed
  qed
  then show ?thesis using inv merge_inv_cong by blast
qed

lemma merge_inv_record:
  "merge_inv C m sh0 L D Os crs (cs_record x cs) = merge_inv C m sh0 L D Os crs cs"
  by (simp add: merge_inv_def cs_record_def)

lemma merge_inv_drain:
  assumes "merge_inv C m sh0 L D Os crs cs"
  shows "merge_inv C m sh0 L D Os crs (drain_repoints no_hook cs)"
  using assms idx_inv_drain by (auto simp: merge_inv_def drain_no_hook)

text \<open>A live record becomes the next record of the outputs.\<close>

lemma merge_inv_live:
  assumes env: "merge_env C m sh0 L T" and inv: "merge_inv C m sh0 L (visited ids fid (log_len pre)) Os crs cs"
    and f: "(fid, pre @ (k, v, False, ts) # post) \<in> set L" "fid \<notin> ids"
    and live: "is_live (sh_keydir (cs_sh cs)) fid (of_nat (log_len pre + HEADER_SIZE + length k)) k"
  obtains flushed mw' nid' w' Os' crs' where
    "write_live_entry C m (rec_entry (k, v, False, ts)) (cs_writer cs, sh_next_file_id (cs_sh cs), sh_world (cs_sh cs)) =
      (Inr (current_file_id (cs_writer cs), of_nat (log_len crs + HEADER_SIZE + length k), flushed), (mw', nid', w'))"
    and "current_file_id (cs_writer cs) \<le> current_file_id mw'"
    and "merge_inv C m sh0 L (visited ids fid (log_len pre + rec_len (k, v, False, ts))) Os' crs'
      (copied_live fid (log_len pre) (k, v, False, ts) crs (mw', nid', w') cs)"
proof -
  let ?r = "(k, v, False, ts)" and ?rs = "pre @ (k, v, False, ts) # post"
  let ?P = "of_nat (log_len pre + HEADER_SIZE + length k) :: u64" and ?m0 = "index_files L Map.empty"
  let ?mw = "cs_writer cs" let ?cur = "current_file_id ?mw"
  have d: "disk C (sh_world sh0) L T" and C: "crc32fast_ok C" "unused_from (sh_next_file_id sh0) (sh_world sh0)"
    "unat m \<le> 2 ^ 63" using env by (simp_all add: merge_env_def)
  have lim: "log_len ?rs < 2 ^ 64" using disk_fileD(2) [OF d f(1)] by simp
  have rok: "rec_ok ?r" using disk_fileD(1) [OF d f(1)] by simp
  have out: "out_inv C m (sh_world sh0) Os crs (?mw, sh_next_file_id (cs_sh cs), sh_world (cs_sh cs))"
    and idx: "idx_inv ?m0 (Os @ [(?cur, crs)]) (visited ids fid (log_len pre)) (sh_keydir (cs_sh cs)) (cs_pending cs)"
    using inv by (simp_all add: merge_inv_def)
  have "fid \<in> fst ` set L" using f(1) by force
  then have nf: "\<forall>g \<in> fst ` set (Os @ [(?cur, crs)]). g \<noteq> fid" by (rule merge_inv_outs [OF env inv])
  obtain ent v' where m0: "?m0 k = Some (ent, v')" and e: "kd_file_id ent = fid" "kd_value_pos ent = ?P"
    by (rule idx_inv_live [OF idx live nf])
  have here: "v' = v" "ent = located_entry fid (log_len pre) ?r" "\<not> visited ids fid (log_len pre) ent"
    using visited_step(2) [OF diskD(2) [OF d] f(1) indexed_located [OF m0] lim f(2) e] by blast+
  obtain flushed mw' nid' w' Os' crs' where
    wr: "write_live_entry C m (entry_of k v False ts) (?mw, sh_next_file_id (cs_sh cs), sh_world (cs_sh cs)) =
      (Inr (?cur, of_nat (log_len crs + HEADER_SIZE + length k), flushed), (mw', nid', w'))"
    and out': "out_inv C m (sh_world sh0) Os' crs' (mw', nid', w')"
    and le: "?cur \<le> current_file_id mw'" and nid': "unat nid' + length Os = unat (sh_next_file_id (cs_sh cs)) + length Os'"
    and outs: "Os' @ [(current_file_id mw', crs')] = Os @ [(?cur, crs @ [?r])] \<or>
      Os' @ [(current_file_id mw', crs')] = Os @ [(?cur, crs @ [?r]), (current_file_id mw', [])]"
    by (rule write_live_entry_ok [OF out rok C(1,3) merge_inv_room [OF env inv]])
  let ?new = "located_entry ?cur (log_len crs) ?r" and ?D = "visited ids fid (log_len pre + rec_len ?r)"
  have D': "?D e \<longleftrightarrow> visited ids fid (log_len pre) e \<or> k' = k" if "?m0 k' = Some (e, v'')" for k' e v''
    using visited_step(1) [OF diskD(2) [OF d] f(1) indexed_located [OF that] lim f(2)] that m0 here e by auto
  have idx1: "idx_inv ?m0 (Os @ [(?cur, crs @ [?r])]) ?D (sh_keydir (cs_sh cs)) (cs_pending cs @ [(k, ent, ?new)])"
    and nk: "k \<notin> keys_of (Os @ [(?cur, crs)])"
    using idx_inv_copy(1) [where ts = ts, OF idx m0 here(3) D'] idx_inv_copy(2) [OF idx m0 here(3) D']
    unfolding here(1) by simp_all
  have idx': "idx_inv ?m0 (Os' @ [(current_file_id mw', crs')]) ?D (sh_keydir (cs_sh cs)) (cs_pending cs @ [(k, ent, ?new)])"
    using outs idx1 idx_inv_new_file [of ?m0 "Os @ [(?cur, crs @ [?r])]" "current_file_id mw'"] by auto
  let ?cs1 = "cs\<lparr>cs_writer := mw', cs_sh := (cs_sh cs)\<lparr>sh_next_file_id := nid', sh_world := w'\<rparr>,
    cs_copied := cs_copied cs + 1, cs_pending := cs_pending cs @ [(k, ent, ?new)]\<rparr>"
  have "keys_of (Os' @ [(current_file_id mw', crs')]) = insert k (keys_of (Os @ [(?cur, crs)]))"
    using outs by (auto simp del: keys_of_simps(2)) (auto)
  then have "card (keys_of (Os' @ [(current_file_id mw', crs')])) = Suc (card (keys_of (Os @ [(?cur, crs)])))"
    using nk by simp
  moreover have "length Os' \<le> Suc (length Os)" using outs by (auto dest: arg_cong [of _ _ length])
  moreover have from_n0: "\<forall>f \<in> fst ` set (Os' @ [(current_file_id mw', crs')]). sh_next_file_id sh0 \<le> f"
    using outs
  proof
    assume "Os' @ [(current_file_id mw', crs')] = Os @ [(?cur, crs @ [?r])]"
    then show ?thesis using inv by (simp add: merge_inv_def)
  next
    assume "Os' @ [(current_file_id mw', crs')] = Os @ [(?cur, crs @ [?r]), (current_file_id mw', [])]"
    then show ?thesis using inv le order_trans by (auto simp: merge_inv_def)
  qed
  ultimately have inv1: "merge_inv C m sh0 L ?D Os' crs' ?cs1"
    using inv out' idx' nid' from_n0 by (simp add: merge_inv_def)
  moreover have "?cs1 = copied_live fid (log_len pre) ?r crs (mw', nid', w') cs" by (simp add: copied_live_def here(2))
  ultimately show thesis using that [OF _ le] wr by simp
qed

lemma durable_file_warned [simp]: "durable_file n (warned ws w) = durable_file n w"
  by (simp add: durable_file_def)

lemma out_inv_warned:
  "out_inv C m w0 Os crs (mw, nid, w) \<Longrightarrow> out_inv C m w0 Os crs (mw, nid, warned ws w)"
  by (simp add: out_inv_def mw_ok_def bw_contents_def same_outside_def output_closed_def)

text \<open>At the boundaries of a file the visited entries are those of whole files.\<close>

lemma visited_file:
  assumes "disk C w L T" and "(fid, rs) \<in> set L" and "located L k ent v" and "fid \<notin> ids"
  shows "visited ids fid 0 ent \<longleftrightarrow> kd_file_id ent \<in> ids"
    and "visited ids fid (log_len rs) ent \<longleftrightarrow> kd_file_id ent \<in> insert fid ids"
proof -
  have "0 < unat (kd_value_pos ent) \<and> unat (kd_value_pos ent) \<le> log_len rs" if fid: "kd_file_id ent = fid"
  proof -
    have lim: "log_len rs < 2 ^ 64" using disk_fileD(2) [OF assms(1,2)] by simp
    obtain pre post ts where "rs = pre @ (k, v, False, ts) # post"
      and "unat (kd_value_pos ent) = log_len pre + HEADER_SIZE + length k"
      by (rule index_entry_in_file [OF diskD(2) [OF assms(1)] assms(2,3) fid lim])
    then show ?thesis by (simp add: HEADER_SIZE_def)
  qed
  then show "visited ids fid 0 ent \<longleftrightarrow> kd_file_id ent \<in> ids"
    "visited ids fid (log_len rs) ent \<longleftrightarrow> kd_file_id ent \<in> insert fid ids"
    by (auto simp: visited_def)
qed

section \<open>The loops\<close>

lemma merge_inv_read:
  assumes env: "merge_env C m sh0 L T" and inv: "merge_inv C m sh0 L D Os crs cs" and f: "(fid, rs) \<in> set L"
  shows "\<exists>ws. read_all_entries C fid (sh_world (cs_sh cs)) = (Inr (pos_entries 0 rs), warned ws (sh_world (cs_sh cs))) \<and>
    merge_inv C m sh0 L D Os crs (cs\<lparr>cs_sh := (cs_sh cs)\<lparr>sh_world := warned ws (sh_world (cs_sh cs))\<rparr>\<rparr>)"
proof -
  let ?w = "sh_world (cs_sh cs)"
  have d: "disk C (sh_world sh0) L T" using env by (simp add: merge_env_def)
  note df = disk_fileD [OF d f]
  have out: "out_inv C m (sh_world sh0) Os crs (cs_writer cs, sh_next_file_id (cs_sh cs), ?w)"
    using inv by (simp add: merge_inv_def)
  have "fid \<in> fst ` set L" using f by force
  then have ne: "\<forall>g \<in> fst ` set (Os @ [(current_file_id (cs_writer cs), crs)]). g \<noteq> fid"
    by (rule merge_inv_outs [OF env inv])
  have so: "same_outside (insert (current_file_id (cs_writer cs)) (fst ` set Os)) (sh_world sh0) ?w"
    using out by (simp add: out_inv_def)
  have fb: "file_bytes (data_path fid) ?w = Some (log_bytes C rs @ T fid)"
    using same_outsideD(2) [OF so, of "data_path fid"] ne df(4) by auto
  have o: "w_outs ?w = []" using out by (simp add: out_inv_def)
  obtain ws where rd: "read_all_entries C fid ?w = (Inr (pos_entries 0 rs), warned ws ?w)"
    by (rule read_all_entries_ok [OF o fb df(1,3)])
  have "merge_inv C m sh0 L D Os crs (cs\<lparr>cs_sh := (cs_sh cs)\<lparr>sh_world := warned ws ?w\<rparr>\<rparr>)"
    using inv out_inv_warned by (auto simp: merge_inv_def)
  with rd show ?thesis by blast
qed

lemma merge_inv_bounds:
  assumes env: "merge_env C m sh0 L T" and f: "(fid, rs) \<in> set L" "fid \<notin> ids"
  shows "merge_inv C m sh0 L (\<lambda>e. kd_file_id e \<in> ids) Os crs cs = merge_inv C m sh0 L (visited ids fid 0) Os crs cs"
    and "merge_inv C m sh0 L (\<lambda>e. kd_file_id e \<in> insert fid ids) Os crs cs = merge_inv C m sh0 L (visited ids fid (log_len rs)) Os crs cs"
proof -
  have d: "disk C (sh_world sh0) L T" using env by (simp add: merge_env_def)
  show "merge_inv C m sh0 L (\<lambda>e. kd_file_id e \<in> ids) Os crs cs = merge_inv C m sh0 L (visited ids fid 0) Os crs cs"
    by (rule merge_inv_cong) (rule visited_file(1) [OF d f(1) indexed_located f(2), symmetric])
  show "merge_inv C m sh0 L (\<lambda>e. kd_file_id e \<in> insert fid ids) Os crs cs = merge_inv C m sh0 L (visited ids fid (log_len rs)) Os crs cs"
    by (rule merge_inv_cong) (rule visited_file(2) [OF d f(1) indexed_located f(2), symmetric])
qed

text \<open>So the invariant is one that the copying loops keep.\<close>

interpretation quiet: copying C m no_hook L "\<lambda>D cs. merge_env C m sh0 L T \<and> (\<exists>Os crs. merge_inv C m sh0 L D Os crs cs)"
  for C m L sh0 T
proof
  fix D cs fid rs r
  assume "merge_env C m sh0 L T \<and> (\<exists>Os crs. merge_inv C m sh0 L D Os crs cs)" and f: "(fid, rs) \<in> set L" and r: "r \<in> set rs"
  then have d: "disk C (sh_world sh0) L T" by (simp add: merge_env_def)
  show "rec_ok r" using disk_fileD(1) [OF d f] r by (auto simp: list_all_iff)
next
  fix D cs fid rs
  assume "merge_env C m sh0 L T \<and> (\<exists>Os crs. merge_inv C m sh0 L D Os crs cs)" and "(fid, rs) \<in> set L"
  then show "\<exists>ws. read_all_entries C fid (sh_world (cs_sh cs)) = (Inr (pos_entries 0 rs), warned ws (sh_world (cs_sh cs))) \<and>
      merge_env C m sh0 L T \<and>
      (\<exists>Os crs. merge_inv C m sh0 L D Os crs (cs\<lparr>cs_sh := (cs_sh cs)\<lparr>sh_world := warned ws (sh_world (cs_sh cs))\<rparr>\<rparr>))"
    using merge_inv_read by blast
next
  fix ids cs fid rs
  assume "merge_env C m sh0 L T \<and> (\<exists>Os crs. merge_inv C m sh0 L (\<lambda>e. kd_file_id e \<in> ids) Os crs cs)"
    and "(fid, rs) \<in> set L" "fid \<notin> ids"
  then show "merge_env C m sh0 L T \<and> (\<exists>Os crs. merge_inv C m sh0 L (visited ids fid 0) Os crs cs)"
    using merge_inv_bounds(1) by blast
next
  fix ids fid rs cs
  assume "merge_env C m sh0 L T \<and> (\<exists>Os crs. merge_inv C m sh0 L (visited ids fid (log_len rs)) Os crs cs)"
    and "(fid, rs) \<in> set L" "fid \<notin> ids"
  then show "merge_env C m sh0 L T \<and> (\<exists>Os crs. merge_inv C m sh0 L (\<lambda>e. kd_file_id e \<in> insert fid ids) Os crs cs)"
    using merge_inv_bounds(2) by blast
next
  fix ids fid pre cs k v t ts post
  assume "merge_env C m sh0 L T \<and> (\<exists>Os crs. merge_inv C m sh0 L (visited ids fid (log_len pre)) Os crs cs)"
    and "(fid, pre @ (k, v, t, ts) # post) \<in> set L" "fid \<notin> ids"
    and "t \<or> \<not> is_live (sh_keydir (cs_sh cs)) fid (of_nat (log_len pre + HEADER_SIZE + length k)) k"
  then show "merge_env C m sh0 L T \<and> (\<exists>Os crs. merge_inv C m sh0 L (visited ids fid (log_len pre + rec_len (k, v, t, ts))) Os crs cs)"
    using copy_one_dead by blast
next
  fix ids fid pre cs k v ts post
  assume inv: "merge_env C m sh0 L T \<and> (\<exists>Os crs. merge_inv C m sh0 L (visited ids fid (log_len pre)) Os crs cs)"
    and f: "(fid, pre @ (k, v, False, ts) # post) \<in> set L" "fid \<notin> ids"
    and live: "is_live (sh_keydir (cs_sh cs)) fid (of_nat (log_len pre + HEADER_SIZE + length k)) k"
  then obtain Os crs where env: "merge_env C m sh0 L T" and i: "merge_inv C m sh0 L (visited ids fid (log_len pre)) Os crs cs" by blast
  show "\<exists>crs flushed mw nid w. write_live_entry C m (rec_entry (k, v, False, ts)) (cs_writer cs, sh_next_file_id (cs_sh cs), sh_world (cs_sh cs)) =
        (Inr (current_file_id (cs_writer cs), of_nat (log_len crs + HEADER_SIZE + length k), flushed), (mw, nid, w)) \<and>
      current_file_id (cs_writer cs) \<le> current_file_id mw \<and> merge_env C m sh0 L T \<and>
      (\<exists>Os' crs'. merge_inv C m sh0 L (visited ids fid (log_len pre + rec_len (k, v, False, ts))) Os' crs'
        (copied_live fid (log_len pre) (k, v, False, ts) crs (mw, nid, w) cs))"
    by (rule merge_inv_live [OF env i f live]) (use env in blast)
next
  fix D cs assume "merge_env C m sh0 L T \<and> (\<exists>Os crs. merge_inv C m sh0 L D Os crs cs)"
  moreover have "cs_writer (drain_repoints no_hook cs) = cs_writer cs" by (simp add: drain_no_hook)
  ultimately show "(merge_env C m sh0 L T \<and> (\<exists>Os crs. merge_inv C m sh0 L D Os crs (drain_repoints no_hook cs))) \<and>
      cs_writer (drain_repoints no_hook cs) = cs_writer cs"
    using merge_inv_drain by blast
next
  fix D cs x assume "merge_env C m sh0 L T \<and> (\<exists>Os crs. merge_inv C m sh0 L D Os crs cs)"
  then show "merge_env C m sh0 L T \<and> (\<exists>Os crs. merge_inv C m sh0 L D Os crs (cs_record x cs))"
    by (simp add: merge_inv_record)
qed

lemma copy_all_ok:
  assumes env: "merge_env C m sh0 L T" and "set Lin \<subseteq> set L" and "distinct (map fst Lin)"
    and inv: "merge_inv C m sh0 L (\<lambda>e. kd_file_id e \<in> {}) Os crs cs"
  shows "\<exists>cs' Os' crs'. copy_forward_all_live_entries C m no_hook (map fst Lin) (current_file_id (cs_writer cs)) cs =
      (Inr (current_file_id (cs_writer cs')), cs') \<and>
    merge_inv C m sh0 L (\<lambda>e. kd_file_id e \<in> fst ` set Lin \<union> {}) Os' crs' cs'"
  using quiet.all_ok [of Lin L "{}" C m sh0 T cs] assms by blast

section \<open>Compaction\<close>

text \<open>What compaction leaves: finished outputs beside the old files, and an index of both.\<close>

definition compacted :: "'h crc32fast \<Rightarrow> shared \<Rightarrow> files \<Rightarrow> u32 set \<Rightarrow> files \<Rightarrow> shared \<Rightarrow> bool" where
  "compacted C sh0 L ids outs sh \<longleftrightarrow>
     w_outs (sh_world sh) = [] \<and> world_ok (sh_world sh) \<and> w_locks (sh_world sh) = w_locks (sh_world sh0) \<and>
     same_outside (fst ` set outs) (sh_world sh0) (sh_world sh) \<and>
     (\<forall>(fid, rs) \<in> set outs. output_closed C (sh_world sh) fid rs \<and> log_len rs < 2 ^ 64) \<and>
     sorted_wrt (<) (map fst outs) \<and> outs \<noteq> [] \<and>
     (\<forall>f \<in> fst ` set outs. sh_next_file_id sh0 \<le> f \<and> f < sh_next_file_id sh) \<and>
     unat (sh_next_file_id sh) \<le> unat (sh_next_file_id sh0) + card (dom (index_files L Map.empty)) + 1 \<and>
     sh_files sh = sh_files sh0 \<and> sh_active sh = sh_active sh0 \<and> sh_gc sh = sh_gc sh0 \<and>
     idx_inv (index_files L Map.empty) outs (\<lambda>e. kd_file_id e \<in> ids) (sh_keydir sh) []"

lemma merge_start:
  assumes env: "merge_env C m sh0 L T" and w0: "w_outs (sh_world sh0) = []" "world_ok (sh_world sh0)"
    and kd: "keydir_ok (sh_keydir sh0)" "indexes (sh_keydir sh0) (index_files L Map.empty)"
  obtains i j w1 where "mw_new C (sh_next_file_id sh0, sh_world sh0) =
      (Inr (fresh_writer C (sh_next_file_id sh0) i j), (sh_next_file_id sh0 + 1, w1))"
    and "merge_inv C m sh0 L (\<lambda>e. kd_file_id e \<in> {}) [] []
      \<lparr>cs_sh = sh0\<lparr>sh_next_file_id := sh_next_file_id sh0 + 1, sh_world := w1\<rparr>,
       cs_writer = fresh_writer C (sh_next_file_id sh0) i j, cs_pending = [], cs_copied = 0\<rparr>"
proof -
  let ?n = "sh_next_file_id sh0"
  have un: "unused_from ?n (sh_world sh0)" and n: "unat ?n < 2 ^ 32 - 1" using env by (auto simp: merge_env_def)
  have free: "lookup (data_path ?n) (sh_world sh0) = None" "lookup (hint_path ?n) (sh_world sh0) = None"
    using un by (auto simp: unused_from_def)
  obtain i j w1 where o: "open_output (?n, sh_world sh0) = (Inr (fresh_active ?n i, bw_new j), (?n + 1, w1))"
    and ad: "adds_output ?n (sh_world sh0) w1" and mw: "mw_ok C (fresh_writer C ?n i j) w1 []"
    by (rule open_output_ok [OF w0 free])
  have new: "mw_new C (?n, sh_world sh0) = (Inr (fresh_writer C ?n i j), (?n + 1, w1))"
    by (simp add: mw_new_def bindE_def o fresh_writer_def)
  have "unused_from (?n + 1) (sh_world sh0)"
    by (rule unused_from_mono [OF un]) (simp add: word_le_nat_alt unat_plus_one [OF n])
  moreover have "?n < ?n + 1" by (simp add: word_less_nat_alt unat_plus_one [OF n])
  ultimately have "out_inv C m (sh_world sh0) [] [] (fresh_writer C ?n i j, ?n + 1, w1)"
    using ad mw free
    by (auto simp: out_inv_def adds_output_def same_outside_def fresh_writer_def current_file_id_def fresh_active_def)
  moreover have "current_file_id (fresh_writer C ?n i j) = ?n"
    by (simp add: fresh_writer_def current_file_id_def fresh_active_def)
  ultimately show thesis
    using that [OF new] idx_inv_start [OF kd] unat_plus_one [OF n] by (simp add: merge_inv_def)
qed

lemma bw_drop_buf [simp]: "bw_buf bw = [] \<Longrightarrow> bw_drop bw w = w"
  by simp

lemma compact_ok:
  assumes env: "merge_env C m sh0 L T" and w0: "w_outs (sh_world sh0) = []" "world_ok (sh_world sh0)"
    and kd: "keydir_ok (sh_keydir sh0)" "indexes (sh_keydir sh0) (index_files L Map.empty)"
    and Lin: "set Lin \<subseteq> set L" "distinct (map fst Lin)"
  obtains hi copied sh outs where "compact C m no_hook (map fst Lin) sh0 = (Inr (hi, copied), sh)"
    and "compacted C sh0 L (fst ` set Lin) outs sh" and "hi = fst (last outs)"
proof -
  let ?n = "sh_next_file_id sh0"
  obtain i j w1 where nw: "mw_new C (?n, sh_world sh0) = (Inr (fresh_writer C ?n i j), (?n + 1, w1))"
    and inv0: "merge_inv C m sh0 L (\<lambda>e. kd_file_id e \<in> {}) [] []
      \<lparr>cs_sh = sh0\<lparr>sh_next_file_id := ?n + 1, sh_world := w1\<rparr>,
       cs_writer = fresh_writer C ?n i j, cs_pending = [], cs_copied = 0\<rparr>" (is "merge_inv _ _ _ _ _ _ _ ?cs0")
    by (rule merge_start [OF env w0 kd])
  obtain cs Os crs where cp: "copy_forward_all_live_entries C m no_hook (map fst Lin) (current_file_id (cs_writer ?cs0)) ?cs0 =
      (Inr (current_file_id (cs_writer cs)), cs)"
    and inv: "merge_inv C m sh0 L (\<lambda>e. kd_file_id e \<in> fst ` set Lin \<union> {}) Os crs cs"
    using copy_all_ok [OF env Lin inv0] by auto
  let ?mw = "cs_writer cs" and ?w = "sh_world (cs_sh cs)" let ?cur = "current_file_id ?mw"
  have out: "out_inv C m (sh_world sh0) Os crs (?mw, sh_next_file_id (cs_sh cs), ?w)"
    using inv by (simp add: merge_inv_def)
  then have ok: "mw_ok C ?mw ?w crs" "w_outs ?w = []" "world_ok ?w" and C: "crc32fast_ok C"
    using env by (simp_all add: out_inv_def merge_env_def)
  obtain mw' w' where fin: "mw_finish C (?mw, sh_next_file_id (cs_sh cs), ?w) = (Inr (), (mw', sh_next_file_id (cs_sh cs), w'))"
    and cl: "output_closed C w' ?cur crs" and t: "touches ?cur ?w w'"
    and buf: "bw_buf (af_writer (mw_data mw')) = []" "bw_buf (mw_hint mw') = []"
    by (rule mw_finish_ok [OF ok C])
  let ?outs = "Os @ [(?cur, crs)]"
  let ?cs1 = "cs\<lparr>cs_writer := mw', cs_sh := (cs_sh cs)\<lparr>sh_world := w'\<rparr>\<rparr>"
  define cs2 where "cs2 = drain_repoints no_hook
    (if pq_is_empty (cs_pending ?cs1) then ?cs1
     else cs_record (RecordPendingQueueDepth (pq_len (cs_pending ?cs1))) ?cs1)"
  have f2: "finish_and_apply_pending_repoints C no_hook cs = (Inr (), cs2)"
    by (simp add: finish_and_apply_pending_repoints_def bindE_def on_mw_apply fin cs2_def)
  have cs2: "cs_writer cs2 = mw'" "sh_world (cs_sh cs2) = w'" "sh_next_file_id (cs_sh cs2) = sh_next_file_id (cs_sh cs)"
    "sh_files (cs_sh cs2) = sh_files (cs_sh cs)" "sh_active (cs_sh cs2) = sh_active (cs_sh cs)"
    "sh_gc (cs_sh cs2) = sh_gc (cs_sh cs)"
    "sh_keydir (cs_sh cs2) = repoint_all (cs_pending cs) (sh_keydir (cs_sh cs))"
    by (simp_all add: cs2_def drain_no_hook cs_record_def)
  define sh where "sh = (cs_sh cs2)\<lparr>sh_world := mw_drop mw' w'\<rparr>"
  have w': "mw_drop mw' w' = w'" by (simp add: mw_drop_def buf)
  have cmp: "compact C m no_hook (map fst Lin) sh0 = (Inr (?cur, cs_copied cs2), sh)"
    using cp by (simp add: compact_def nw bindE_def f2 cs2 sh_def Let_def)
  note ids = out_inv_ids [OF out]
  have "\<forall>(fid, rs) \<in> set ?outs. output_closed C w' fid rs \<and> log_len rs < 2 ^ 64"
  proof (intro ballI, clarify)
    fix fid rs assume x: "(fid, rs) \<in> set ?outs"
    have lim: "log_len crs < 2 ^ 64"
      using out env by (auto simp: out_inv_def merge_env_def)
    show "output_closed C w' fid rs \<and> log_len rs < 2 ^ 64"
    proof (cases "(fid, rs) \<in> set Os")
      case True
      then have "fid \<noteq> ?cur" using ids(1) [of fid] by force
      moreover have "output_closed C ?w fid rs \<and> log_len rs < 2 ^ 64" using out True by (auto simp: out_inv_def)
      ultimately show ?thesis using output_closed_touches [OF _ t] by blast
    next
      case False
      then show ?thesis using x cl lim by simp
    qed
  qed
  moreover have "same_outside (fst ` set ?outs) (sh_world sh0) w'"
    using out same_outside_touches [OF _ t, of "insert ?cur (fst ` set Os)"] by (auto simp: out_inv_def)
  moreover have "idx_inv (index_files L Map.empty) ?outs (\<lambda>e. kd_file_id e \<in> fst ` set Lin)
      (repoint_all (cs_pending cs) (sh_keydir (cs_sh cs))) []"
    using inv idx_inv_drain by (simp add: merge_inv_def del: index_files_simps)
  moreover have "unat (sh_next_file_id (cs_sh cs)) \<le> unat ?n + card (dom (index_files L Map.empty)) + 1"
  proof -
    have "keys_of ?outs \<subseteq> dom (index_files L Map.empty)" using inv by (auto simp: merge_inv_def idx_inv_def)
    moreover have "finite (dom (index_files L Map.empty))" using dom_index_files finite_keys_of by (rule finite_subset)
    ultimately have "card (keys_of ?outs) \<le> card (dom (index_files L Map.empty))" by (intro card_mono)
    then show ?thesis using inv out by (simp add: merge_inv_def out_inv_def)
  qed
  moreover have "\<forall>f \<in> fst ` set ?outs. ?n \<le> f \<and> f < sh_next_file_id (cs_sh cs)"
    using ids(4) inv by (simp add: merge_inv_def)
  ultimately have "compacted C sh0 L (fst ` set Lin) ?outs sh"
    using inv t ids(3) out by (simp add: compacted_def sh_def w' cs2 touches_def merge_inv_def out_inv_def)
  then show thesis by (rule that [OF cmp]) simp
qed

end
