(* ===== verification/MergeOps.thy ===== *)
theory MergeOps
  imports MergeProof Lifecycle
begin

text \<open>
  The end of a merge, and the merge of an engine as a whole: old inputs disappear, the active file
  moves past the outputs, and the engine still has the contents it had.
\<close>

section \<open>Removing the inputs\<close>

definition without_file :: "u32 set \<Rightarrow> world \<Rightarrow> world \<Rightarrow> bool" where
  "without_file ids w w' \<longleftrightarrow> world_ok w' \<and> w_outs w' = [] \<and> w_locks w' = w_locks w \<and>
     (\<forall>f \<in> ids. lookup (data_path f) w' = None \<and> lookup (hint_path f) w' = None) \<and> same_outside ids w w'"

lemma remove_name:
  assumes "world_ok w" and "w_outs w = []"
  obtains w' where "snd (remove_file n w) = w'" and "world_ok w'" and "w_outs w' = []" and "w_locks w' = w_locks w"
    and "lookup n w' = None" and "\<And>m. m \<noteq> n \<Longrightarrow> lookup m w' = lookup m w"
    and "\<And>m. m \<noteq> n \<Longrightarrow> file_bytes m w' = file_bytes m w"
    and "\<And>m. m \<noteq> n \<Longrightarrow> durable_file m w \<Longrightarrow> durable_file m w'"
proof (cases "lookup n w")
  case None
  then show thesis using that [of w] assms by (simp add: remove_file_no_fault)
next
  case (Some i)
  let ?w = "w\<lparr>w_dir := AList.delete n (w_dir w)\<rparr>"
  note d = delete_name_facts [OF assms(1), where name = n]
  have "durable_file m ?w" if "m \<noteq> n" "durable_file m w" for m
    using that by (simp add: durable_file_def d(2) d(4))
  then show thesis using that [of ?w] assms(2) Some d by (simp add: remove_file_no_fault)
qed

lemma remove_input:
  assumes "world_ok w" and "w_outs w = []"
  obtains w1 w2 where "snd (remove_file (data_path f) w) = w1" and "snd (remove_file (hint_path f) w1) = w2"
    and "without_file {f} w w2"
proof -
  obtain w1 where w1: "snd (remove_file (data_path f) w) = w1" "world_ok w1" "w_outs w1 = []" "w_locks w1 = w_locks w"
      "lookup (data_path f) w1 = None"
    and l1: "\<And>m. m \<noteq> data_path f \<Longrightarrow> lookup m w1 = lookup m w"
    and b1: "\<And>m. m \<noteq> data_path f \<Longrightarrow> file_bytes m w1 = file_bytes m w"
    and d1: "\<And>m. m \<noteq> data_path f \<Longrightarrow> durable_file m w \<Longrightarrow> durable_file m w1"
    by (rule remove_name [OF assms, of "data_path f"]) blast
  obtain w2 where w2: "snd (remove_file (hint_path f) w1) = w2" "world_ok w2" "w_outs w2 = []" "w_locks w2 = w_locks w1"
      "lookup (hint_path f) w2 = None"
    and l2: "\<And>m. m \<noteq> hint_path f \<Longrightarrow> lookup m w2 = lookup m w1"
    and b2: "\<And>m. m \<noteq> hint_path f \<Longrightarrow> file_bytes m w2 = file_bytes m w1"
    and d2: "\<And>m. m \<noteq> hint_path f \<Longrightarrow> durable_file m w1 \<Longrightarrow> durable_file m w2"
    by (rule remove_name [OF w1(2,3), of "hint_path f"]) blast
  have "same_outside {f} w w2" by (simp add: same_outside_def l1 l2 b1 b2 d1 d2)
  then show thesis using that [OF w1(1) w2(1)] w1 w2 l2 by (simp add: without_file_def)
qed

lemma without_file_trans:
  assumes "without_file ids w w'" and "without_file ids' w' w''"
  shows "without_file (ids \<union> ids') w w''"
proof -
  have "lookup (data_path f) w'' = None \<and> lookup (hint_path f) w'' = None" if "f \<in> ids" for f
  proof (cases "f \<in> ids'")
    case True
    then show ?thesis using assms(2) by (simp add: without_file_def)
  next
    case False
    then have "\<forall>g \<in> ids'. data_path f \<noteq> data_path g" "\<forall>g \<in> ids'. hint_path f \<noteq> hint_path g" by auto
    then show ?thesis using assms that by (simp add: without_file_def same_outside_def)
  qed
  moreover have "same_outside (ids \<union> ids') w w''"
    using assms unfolding without_file_def same_outside_def by (metis UnI1 UnI2)
  ultimately show ?thesis using assms by (auto simp: without_file_def)
qed

lemma without_none: "world_ok w \<Longrightarrow> w_outs w = [] \<Longrightarrow> without_file {} w w"
  by (simp add: without_file_def same_outside_def)

lemma remove_old_input_files_ok:
  assumes "world_ok w" and "w_outs w = []"
  shows "\<exists>w'. remove_old_input_files ids (fs, w) = (fold forget ids fs, w') \<and> without_file (set ids) w w'"
  using assms
proof (induction ids arbitrary: fs w)
  case Nil
  then show ?case using without_none by simp
next
  case (Cons f ids)
  obtain w1 w2 where w: "snd (remove_file (data_path f) w) = w1" "snd (remove_file (hint_path f) w1) = w2"
    and one: "without_file {f} w w2"
    by (rule remove_input [OF Cons.prems])
  then obtain w' where w': "remove_old_input_files ids (forget f fs, w2) = (fold forget ids (forget f fs), w')"
    and rest: "without_file (set ids) w2 w'"
    using Cons.IH [of w2 "forget f fs"] by (auto simp: without_file_def)
  have "remove_old_input_files (f # ids) (fs, w) = (fold forget (f # ids) fs, w')"
    using w w' by (simp add: Let_def case_prod_beta)
  then show ?case using without_file_trans [OF one rest] by auto
qed

lemma readers_ok_forgotten:
  assumes "readers_ok fs w" and "\<And>f. f \<notin> set ids \<Longrightarrow> lookup (data_path f) w \<noteq> None \<Longrightarrow>
    lookup (data_path f) w' = lookup (data_path f) w"
  shows "readers_ok (fold forget ids fs) w'"
proof -
  have m: "map_of (dfs_readers (fold forget ids fs)) = (map_of (dfs_readers fs)) |` (- set ids)"
  proof (induction ids arbitrary: fs)
    case (Cons f ids)
    show ?case by (simp add: Cons.IH) (auto simp: forget_def delete_conv' restrict_map_def)
  qed (simp add: restrict_map_def)
  show ?thesis using assms by (fastforce simp: readers_ok_def m restrict_map_def split: if_splits)
qed

section \<open>The files and the index after a merge\<close>

lemma same_outside_file:
  assumes "same_outside ids w w'" and "f \<notin> ids"
  shows "lookup (data_path f) w' = lookup (data_path f) w" and "lookup (hint_path f) w' = lookup (hint_path f) w"
    and "file_bytes (data_path f) w' = file_bytes (data_path f) w" and "file_bytes (hint_path f) w' = file_bytes (hint_path f) w"
    and "durable_file (data_path f) w \<Longrightarrow> durable_file (data_path f) w'"
proof -
  have ne: "data_path f \<noteq> data_path g \<and> data_path f \<noteq> hint_path g \<and> hint_path f \<noteq> data_path g \<and> hint_path f \<noteq> hint_path g"
    if "g \<in> ids" for g using that assms(2) by auto
  show "lookup (data_path f) w' = lookup (data_path f) w" "file_bytes (data_path f) w' = file_bytes (data_path f) w"
    "durable_file (data_path f) w \<Longrightarrow> durable_file (data_path f) w'"
    using same_outsideD [OF assms(1), of "data_path f"] ne by blast+
  show "lookup (hint_path f) w' = lookup (hint_path f) w" "file_bytes (hint_path f) w' = file_bytes (hint_path f) w"
    using same_outsideD [OF assms(1), of "hint_path f"] ne by blast+
qed

lemma disk_of_outputs:
  assumes d: "disk C w0 (Lin @ [(aid, ars)]) T" and ta: "T aid = []" and ha: "lookup (hint_path aid) w0 = None"
    and un: "unused_from n0 w0" and aid: "aid < n0"
    and so: "same_outside (fst ` set outs) w0 w1" and s: "sorted_wrt (<) (map fst outs)"
    and cl: "\<forall>(fid, rs) \<in> set outs. output_closed C w1 fid rs \<and> log_len rs < 2 ^ 64"
    and ids: "\<forall>f \<in> fst ` set outs. n0 \<le> f"
    and wf: "without_file (fst ` set Lin) w1 w2"
  shows "disk C w2 ((aid, ars) # outs) (\<lambda>_. [])"
proof -
  let ?L = "(aid, ars) # outs"
  have lt: "\<forall>f \<in> fst ` set Lin. f < aid" using diskD(1) [OF d] by (auto simp: sorted_wrt_append)
  have old: "aid \<notin> fst ` set Lin" "aid \<notin> fst ` set outs" using lt ids aid by force+
  have new: "f \<notin> fst ` set Lin" if "f \<in> fst ` set outs" for f using that lt ids aid by force
  have "same_outside (fst ` set Lin) w1 w2" using wf by (simp add: without_file_def)
  note keep = same_outside_file(3,4) [OF this]
  note from0 = same_outside_file(3,4) [OF so]
  have dout: "distinct (map fst outs)" using s by (simp add: strict_sorted_iff)
  have data: "file_bytes (data_path f) w2 = map_option (log_bytes C) (map_of ?L f)" for f
  proof -
    consider "f \<in> fst ` set Lin" | "f = aid" | "f \<in> fst ` set outs"
      | "f \<notin> fst ` set Lin" "f \<noteq> aid" "f \<notin> fst ` set outs" by blast
    then show ?thesis
    proof cases
      case 1
      then have "lookup (data_path f) w2 = None" using wf by (auto simp: without_file_def)
      moreover have "map_of ?L f = None" using 1 lt new by (force simp: map_of_eq_None_iff)
      ultimately show ?thesis by (simp add: file_bytes_def)
    next
      case 2
      have "file_bytes (data_path f) w2 = file_bytes (data_path f) w0"
        using 2 keep(1) from0(1) old by simp
      moreover have "file_bytes (data_path aid) w0 = Some (log_bytes C ars @ T aid)" by (rule disk_fileD(4) [OF d]) simp
      ultimately show ?thesis using 2 ta by simp
    next
      case 3
      then obtain rs where rs: "(f, rs) \<in> set outs" by auto
      then have "map_of outs f = Some rs" using dout by simp
      moreover have "f \<noteq> aid" using 3 old by auto
      moreover have "file_bytes (data_path f) w2 = file_bytes (data_path f) w1"
        using keep(1) new [OF 3] by simp
      ultimately show ?thesis using cl rs by (auto simp: output_closed_def)
    next
      case 4
      then have "file_bytes (data_path f) w2 = file_bytes (data_path f) w0"
        using 4 keep(1) from0(1) by simp
      moreover have "map_of (Lin @ [(aid, ars)]) f = None" using 4 by (auto simp: map_add_def map_of_eq_None_iff split: option.splits)
      moreover have "map_of ?L f = None" using 4 by (auto simp: map_of_eq_None_iff)
      ultimately show ?thesis using diskD(3) [OF d, of f] by simp
    qed
  qed
  have hint: "verify_hint_file C hb = None \<or> hint_valid C rs hb"
    if "(f, rs) \<in> set ?L" "file_bytes (hint_path f) w2 = Some hb" for f rs hb
  proof (cases "f = aid")
    case True
    then have "file_bytes (hint_path f) w2 = file_bytes (hint_path f) w0"
      using True keep(2) from0(2) old by simp
    then show ?thesis using that(2) ha True by (simp add: file_bytes_def)
  next
    case False
    then have o: "(f, rs) \<in> set outs" "f \<in> fst ` set outs" using that(1) by force+
    then have "file_bytes (hint_path f) w2 = file_bytes (hint_path f) w1"
      using keep(2) new [OF o(2)] by simp
    then show ?thesis using cl o(1) that(2) by (auto simp: output_closed_def)
  qed
  have "list_all rec_ok ars" "log_len ars < 2 ^ 64" using disk_fileD(1,2) [OF d, of aid ars] by simp_all
  then have "\<forall>(f, rs) \<in> set ?L. list_all rec_ok rs \<and> log_len rs < 2 ^ 64"
    using cl by (auto simp: output_closed_def)
  moreover have "sorted_wrt (<) (map fst ?L)" using s ids aid by auto
  ultimately show ?thesis using data hint by (auto simp: disk_def torn_def map_option_case split: option.splits)
qed

text \<open>
  Every live entry of the inputs is in the outputs, so the active file and the outputs give the index
  that compaction left.
\<close>

lemma index_of_outputs:
  assumes "idx_inv (index_files (Lin @ [(aid, ars)]) Map.empty) outs (\<lambda>e. kd_file_id e \<in> fst ` set Lin) kd pending"
  shows "index_files ((aid, ars) # outs) Map.empty = index_files outs (index_files (Lin @ [(aid, ars)]) Map.empty)"
proof
  fix k
  let ?m0 = "index_files (Lin @ [(aid, ars)]) Map.empty"
  show "index_files ((aid, ars) # outs) Map.empty k = index_files outs ?m0 k"
  proof (cases "k \<in> keys_of outs")
    case True
    then show ?thesis using index_files_forget [OF True, of "index_files [(aid, ars)] Map.empty" ?m0] by simp
  next
    case out: False
    show ?thesis
    proof (cases "k \<in> keys_of [(aid, ars)]")
      case True
      then have "index_files [(aid, ars)] Map.empty k = index_files [(aid, ars)] (index_files Lin Map.empty) k"
        by (rule index_files_forget)
      then show ?thesis using out by (simp add: index_files_other)
    next
      case False
      then have "?m0 k = index_files Lin Map.empty k" using index_files_other [of k "[(aid, ars)]"] by simp
      moreover have "index_files Lin Map.empty k = None"
      proof (rule ccontr)
        assume "index_files Lin Map.empty k \<noteq> None"
        then obtain ent v where e: "index_files Lin Map.empty k = Some (ent, v)" by auto
        then have "kd_file_id ent \<in> fst ` set Lin" using index_files_located located_id by blast
        then show False using out assms e calculation by (auto simp: idx_inv_def)
      qed
      moreover have "index_files [(aid, ars)] Map.empty k = None" using False index_files_other by fastforce
      ultimately show ?thesis using out by (simp add: index_files_other)
    qed
  qed
qed

section \<open>Merge\<close>

text \<open>Only the active file, so there is nothing to merge.\<close>

lemma merge_nothing:
  assumes "collect_input_ids (af_file_id (sh_active sh)) (sh_world sh) = (Inr [], sh_world sh)"
  shows "merge C m sh = (Inr (), sh)"
  using assms by (simp add: merge_def merge_with_repoint_hook_def map_err_def bindE_def on_sh_world_def zoom_def)

lemma collect_inputs:
  assumes "disk C w (Lin @ [(aid, ars)]) T" and "world_ok w" and "w_outs w = []"
  shows "collect_input_ids aid w = (Inr (map fst Lin), w)"
proof -
  have lt: "\<forall>f \<in> fst ` set Lin. f < aid" using diskD(1) [OF assms(1)] by (auto simp: sorted_wrt_append)
  then have "filter (\<lambda>f. f < aid) (map fst Lin) = map fst Lin" by (simp add: filter_id_conv)
  then show ?thesis using discover_disk [OF assms] by (simp add: collect_input_ids_def bindE_def)
qed

text \<open>What a merge of the fields of an engine keeps and changes.\<close>

definition merged :: "'h crc32fast \<Rightarrow> u64 \<Rightarrow> shared \<Rightarrow> files \<Rightarrow> shared \<Rightarrow> files \<Rightarrow> (u32 \<Rightarrow> bytes) \<Rightarrow> bool" where
  "merged C m sh L sh' L' T' \<longleftrightarrow>
     store_ok C m ((sh_active sh', sh_gc sh', sh_next_file_id sh'), sh_world sh') L' T' \<and>
     keydir_ok (sh_keydir sh') \<and> indexes (sh_keydir sh') (index_files L' Map.empty) \<and>
     readers_ok (sh_files sh') (sh_world sh') \<and>
     (\<forall>l. lookup LOCK_FILE (sh_world sh) = Some l \<longrightarrow> lookup LOCK_FILE (sh_world sh') = Some l) \<and> w_locks (sh_world sh') = w_locks (sh_world sh) \<and>
     contents L' = contents L \<and> gc_pending_writes (sh_gc sh') = gc_pending_writes (sh_gc sh) \<and>
     unat (sh_next_file_id sh') \<le> unat (sh_next_file_id sh) + card (dom (contents L)) + 2 \<and>
     (\<forall>f \<in> fst ` set L'. af_file_id (sh_active sh) \<le> f) \<and>
     (synced_but (af_file_id (sh_active sh)) (sh_world sh) L \<longrightarrow>
        synced_but (af_file_id (sh_active sh')) (sh_world sh') L')"

lemma dom_contents: "dom (contents L) = dom (index_files L Map.empty)"
  by (auto simp: contents_def dom_def)

text \<open>The directory once the inputs are gone, before the active file moves on.\<close>

lemma after_removal:
  assumes st: "store_ok C m ((sh_active sh, gc, sh_next_file_id sh), sh_world sh) (Lin @ [(aid, ars)]) T"
    and aid: "af_file_id (sh_active sh) = aid"
    and cp: "compacted C sh (Lin @ [(aid, ars)]) (fst ` set Lin) outs sh1"
    and wf: "without_file (fst ` set Lin) (sh_world sh1) w2"
  shows "disk C w2 ((aid, ars) # outs) (\<lambda>_. [])" and "world_ok w2" and "w_outs w2 = []"
    and "\<forall>f \<in> fst ` set ((aid, ars) # outs). f < sh_next_file_id sh1"
    and "\<forall>f. lookup (hint_path f) w2 \<noteq> None \<longrightarrow> f < sh_next_file_id sh1"
    and "lookup (data_path aid) w2 = Some (bw_file (af_writer (sh_active sh)))"
proof -
  have d: "disk C (sh_world sh) (Lin @ [(aid, ars)]) T" and a: "active_ok m (sh_active sh) (sh_next_file_id sh) (sh_world sh) (Lin @ [(aid, ars)]) T"
    using st by (simp_all add: store_ok_def)
  have ta: "T aid = []" and lt: "aid < sh_next_file_id sh"
    and lk: "lookup (data_path aid) (sh_world sh) = Some (bw_file (af_writer (sh_active sh)))"
    and h: "\<forall>f. lookup (hint_path f) (sh_world sh) \<noteq> None \<longrightarrow> f < aid"
    using a aid by (auto simp: active_ok_def)
  have ha: "lookup (hint_path aid) (sh_world sh) = None" using h by blast
  have so: "same_outside (fst ` set outs) (sh_world sh) (sh_world sh1)" and s: "sorted_wrt (<) (map fst outs)"
    and cl: "\<forall>(fid, rs) \<in> set outs. output_closed C (sh_world sh1) fid rs \<and> log_len rs < 2 ^ 64"
    and ids: "\<forall>f \<in> fst ` set outs. sh_next_file_id sh \<le> f \<and> f < sh_next_file_id sh1" and ne: "outs \<noteq> []"
    using cp by (simp_all add: compacted_def)
  show "disk C w2 ((aid, ars) # outs) (\<lambda>_. [])"
    by (rule disk_of_outputs [OF d ta ha unused_from_next [OF d a] lt so s cl _ wf]) (use ids in blast)
  show "world_ok w2" "w_outs w2 = []" using wf by (simp_all add: without_file_def)
  have rm: "same_outside (fst ` set Lin) (sh_world sh1) w2" using wf by (simp add: without_file_def)
  obtain f where f: "f \<in> fst ` set outs" using ne by (cases outs) auto
  then have n01: "sh_next_file_id sh < sh_next_file_id sh1" using ids by (meson le_less_trans)
  then show "\<forall>f \<in> fst ` set ((aid, ars) # outs). f < sh_next_file_id sh1" using ids lt by auto
  show "\<forall>f. lookup (hint_path f) w2 \<noteq> None \<longrightarrow> f < sh_next_file_id sh1"
  proof (intro allI impI)
    fix f assume f: "lookup (hint_path f) w2 \<noteq> None"
    then have "f \<notin> fst ` set Lin" using wf by (auto simp: without_file_def)
    then have f1: "lookup (hint_path f) (sh_world sh1) \<noteq> None"
      using f same_outside_file(2) [OF rm] by simp
    show "f < sh_next_file_id sh1"
    proof (cases "f \<in> fst ` set outs")
      case False
      then have "lookup (hint_path f) (sh_world sh) \<noteq> None"
        using f1 same_outside_file(2) [OF so] by simp
      then have "f < aid" using h by blast
      then show ?thesis using lt n01 by simp
    qed (use ids in blast)
  qed
  have "aid \<notin> fst ` set outs" using ids lt by force
  then have "lookup (data_path aid) (sh_world sh1) = lookup (data_path aid) (sh_world sh)"
    by (rule same_outside_file(1) [OF so])
  moreover have "aid \<notin> fst ` set Lin" using diskD(1) [OF d] by (auto simp: sorted_wrt_append)
  then have "lookup (data_path aid) w2 = lookup (data_path aid) (sh_world sh1)"
    by (rule same_outside_file(1) [OF rm])
  ultimately show "lookup (data_path aid) w2 = Some (bw_file (af_writer (sh_active sh)))" using lk by simp
qed

lemma restore_active_file_ok:
  assumes d: "disk C w2 L2 T2" "world_ok w2" "w_outs w2 = []" and b: "bw_buf (af_writer af) = []"
    and ids: "\<forall>f \<in> fst ` set L2. f < nid" "\<forall>f. lookup (hint_path f) w2 \<noteq> None \<longrightarrow> f < nid"
    and n: "unat nid < 2 ^ 32 - 1" "gc_ok gc" and lk: "lookup (data_path (af_file_id af)) w2 = Some (bw_file (af_writer af))"
    and hi: "af_file_id af \<le> hi" and sh: "sh_active sh = af" "sh_gc sh = gc" "sh_next_file_id sh = nid" "sh_world sh = w2"
  obtains j w3 where "restore_active_file hi sh = (Inr (), sh\<lparr>sh_active := fresh_active nid j, sh_gc := mark_all_durable gc,
      sh_next_file_id := nid + 1, sh_world := w3\<rparr>)"
    and "store_ok C m ((fresh_active nid j, mark_all_durable gc, nid + 1), w3) (L2 @ [(nid, [])]) (T2(nid := []))"
    and "extends w2 w3" and "synced_but (af_file_id af) w2 L2 \<Longrightarrow> synced_but nid w3 (L2 @ [(nid, [])])"
proof -
  obtain j w3 where r: "rotate_active ((af, gc, nid), w2) = (Inr (), ((fresh_active nid j, mark_all_durable gc, nid + 1), w3))"
    and st: "store_ok C m ((fresh_active nid j, mark_all_durable gc, nid + 1), w3) (L2 @ [(nid, [])]) (T2(nid := []))"
    and ex: "extends w2 w3" and sy: "synced_but (af_file_id af) w2 L2 \<Longrightarrow> synced_but nid w3 (L2 @ [(nid, [])])"
    using rotate_active_ok [OF d b ids n lk, of m] by blast
  have "restore_active_file hi sh = (Inr (), sh\<lparr>sh_active := fresh_active nid j, sh_gc := mark_all_durable gc,
      sh_next_file_id := nid + 1, sh_world := w3\<rparr>)"
    using hi by (simp add: restore_active_file_def zoom_def sh r)
  then show thesis using st ex sy by (rule that)
qed

lemma compacted_facts:
  assumes "compacted C sh L ids outs sh1"
  shows "sh_files sh1 = sh_files sh" "sh_active sh1 = sh_active sh" "sh_gc sh1 = sh_gc sh"
    and "w_locks (sh_world sh1) = w_locks (sh_world sh)" "w_outs (sh_world sh1) = []" "world_ok (sh_world sh1)"
    and "unat (sh_next_file_id sh1) \<le> unat (sh_next_file_id sh) + card (dom (contents L)) + 1"
    and "sh_next_file_id sh \<le> fst (last outs)" "\<forall>f \<in> fst ` set outs. sh_next_file_id sh \<le> f"
    and "idx_inv (index_files L Map.empty) outs (\<lambda>e. kd_file_id e \<in> ids) (sh_keydir sh1) []"
    and "same_outside (fst ` set outs) (sh_world sh) (sh_world sh1)"
    and "\<forall>(fid, rs) \<in> set outs. output_closed C (sh_world sh1) fid rs"
  using assms by (auto simp: compacted_def dom_contents)

lemma merge_ok:
  assumes C: "crc32fast_ok C" and m: "unat m \<le> 2 ^ 63"
    and st: "store_ok C m ((sh_active sh, sh_gc sh, sh_next_file_id sh), sh_world sh) L T"
    and kd: "keydir_ok (sh_keydir sh)" "indexes (sh_keydir sh) (index_files L Map.empty)"
    and r: "readers_ok (sh_files sh) (sh_world sh)"
    and room: "unat (sh_next_file_id sh) + card (dom (contents L)) + 4 \<le> 2 ^ 32"
  obtains sh' L' T' where "merge C m sh = (Inr (), sh')" and "merged C m sh L sh' L' T'"
proof -
  let ?af = "sh_active sh" and ?aid = "af_file_id (sh_active sh)" and ?nid = "sh_next_file_id sh" and ?w = "sh_world sh"
  obtain Lin ars where L: "L = Lin @ [(?aid, ars)]" using st by (auto simp: store_ok_def active_ok_def)
  have d: "disk C ?w L T" "world_ok ?w" "w_outs ?w = []" and a: "active_ok m ?af ?nid ?w L T" and gc: "gc_ok (sh_gc sh)"
    using st by (simp_all add: store_ok_def)
  have in_ids: "collect_input_ids ?aid ?w = (Inr (map fst Lin), ?w)" by (rule collect_inputs [OF d [unfolded L]])
  show thesis
  proof (cases "Lin = []")
    case True
    then have "merge C m sh = (Inr (), sh)" using in_ids by (intro merge_nothing) simp
    moreover have "merged C m sh L sh L T" using st kd r True L by (auto simp: merged_def)
    ultimately show thesis by (rule that)
  next
    case False
    have env: "merge_env C m sh L T"
      using C m d(1) unused_from_next [OF d(1) a] room by (simp add: merge_env_def dom_contents)
    have Lin: "set Lin \<subseteq> set L" "distinct (map fst Lin)" using diskD(2) [OF d(1)] by (auto simp: L)
    obtain hi copied sh1 outs where c: "compact C m no_hook (map fst Lin) sh = (Inr (hi, copied), sh1)"
      and cp: "compacted C sh L (fst ` set Lin) outs sh1" and hi: "hi = fst (last outs)"
      by (rule compact_ok [OF env d(3,2) kd Lin])
    note cf = compacted_facts [OF cp]
    obtain w2 where rm: "remove_old_input_files (map fst Lin) (sh_files sh1, sh_world sh1) =
        (fold forget (map fst Lin) (sh_files sh1), w2)" and wf: "without_file (fst ` set Lin) (sh_world sh1) w2"
      using remove_old_input_files_ok [OF cf(6,5), of "map fst Lin" "sh_files sh1"] by auto
    have gone: "same_outside (fst ` set Lin) (sh_world sh1) w2" using wf by (simp add: without_file_def)
    let ?L2 = "(?aid, ars) # outs" and ?fs = "fold forget (map fst Lin) (sh_files sh1)"
    note ar = after_removal [OF st [unfolded L] refl cp [unfolded L] wf]
    have "?aid < ?nid" using a by (simp add: active_ok_def word_less_nat_alt)
    then have le: "?aid \<le> hi" using cf(8) hi by (auto intro: order_trans less_imp_le)
    have buf: "bw_buf (af_writer ?af) = []" using a by (simp add: active_ok_def)
    have n1: "unat (sh_next_file_id sh1) < 2 ^ 32 - 1" using cf(7) room by simp
    let ?sh2 = "sh1\<lparr>sh_files := ?fs, sh_world := w2\<rparr>"
    obtain j w3 where re: "restore_active_file hi ?sh2 = (Inr (), ?sh2\<lparr>sh_active := fresh_active (sh_next_file_id sh1) j,
          sh_gc := mark_all_durable (sh_gc sh), sh_next_file_id := sh_next_file_id sh1 + 1, sh_world := w3\<rparr>)"
      and st3: "store_ok C m ((fresh_active (sh_next_file_id sh1) j, mark_all_durable (sh_gc sh), sh_next_file_id sh1 + 1), w3)
          (?L2 @ [(sh_next_file_id sh1, [])]) ((\<lambda>_. [])(sh_next_file_id sh1 := []))"
      and ex: "extends w2 w3"
      and sy: "synced_but ?aid w2 ?L2 \<Longrightarrow> synced_but (sh_next_file_id sh1) w3 (?L2 @ [(sh_next_file_id sh1, [])])"
      by (rule restore_active_file_ok [OF ar(1-3) buf ar(4,5) n1 gc ar(6) le, of ?sh2 m]) (simp_all add: cf)
    let ?L3 = "?L2 @ [(sh_next_file_id sh1, [])]"
    let ?sh3 = "?sh2\<lparr>sh_active := fresh_active (sh_next_file_id sh1) j, sh_gc := mark_all_durable (sh_gc sh),
      sh_next_file_id := sh_next_file_id sh1 + 1, sh_world := w3,
      sh_metrics := record_metric (RecordMergeSummary (length Lin) copied) (sh_metrics sh1)\<rparr>"
    have "merge C m sh = (Inr (), ?sh3)"
      using False by (simp add: merge_def merge_with_repoint_hook_def map_err_def bindE_def on_sh_world_def zoom_def
          in_ids c rm re)
    moreover have "merged C m sh L ?sh3 ?L3 ((\<lambda>_. [])(sh_next_file_id sh1 := []))"
    proof -
      have ix: "index_files ?L3 Map.empty = index_files outs (index_files L Map.empty)"
        using index_of_outputs [OF cf(10) [unfolded L]] by (simp add: L)
      have "keydir_ok (sh_keydir sh1)" "indexes (sh_keydir sh1) (index_files ?L3 Map.empty)"
        using cf(10) unfolding ix idx_inv_def by simp_all
      moreover have "contents ?L3 = contents L"
        unfolding contents_def fun_eq_iff ix using cf(10) unfolding idx_inv_def by blast
      moreover have "readers_ok ?fs w3" unfolding cf(1)
      proof (rule readers_ok_forgotten [OF r])
        fix f assume f: "f \<notin> set (map fst Lin)" "lookup (data_path f) ?w \<noteq> None"
        then have "f < ?nid" using unused_from_next [OF d(1) a] unfolding unused_from_def by (metis not_le)
        then have "f \<notin> fst ` set outs" using cf(9) by force
        then have "lookup (data_path f) w2 = lookup (data_path f) ?w"
          using same_outside_file(1) [OF cf(11)] same_outside_file(1) [OF gone] f(1) by simp
        then show "lookup (data_path f) w3 = lookup (data_path f) ?w" using f(2) ex by (auto simp: extends_def)
      qed
      moreover have "lookup LOCK_FILE w3 = Some l" if "lookup LOCK_FILE ?w = Some l" for l
        using that same_outsideD(1) [OF cf(11), of LOCK_FILE] same_outsideD(1) [OF gone, of LOCK_FILE] ex
        by (simp add: extends_def)
      moreover have "w_locks w3 = w_locks ?w" using ex wf cf(4) by (simp add: extends_def without_file_def)
      moreover have "synced_but (sh_next_file_id sh1) w3 ?L3"
      proof (rule sy)
        have "durable_file (data_path f) w2" if f: "(f, rs) \<in> set outs" for f rs
        proof (rule same_outside_file(5) [OF gone])
          have "?nid \<le> f" using f cf(9) by force
          moreover have "g < ?nid" if "g \<in> fst ` set Lin" for g
            using unused_ids [OF d(1) unused_from_next [OF d(1) a], of g] that L by auto
          ultimately show "f \<notin> fst ` set Lin" using leD by blast
          show "durable_file (data_path f) (sh_world sh1)" using cf(12) f by (auto simp: output_closed_def)
        qed
        then show "synced_but ?aid w2 ?L2" by (auto simp: synced_but_def)
      qed
      moreover have "\<forall>f \<in> fst ` set ?L3. ?aid \<le> f"
        using cf(9) ar(4) \<open>?aid < ?nid\<close> by (auto intro: order_trans less_imp_le)
      moreover have "unat (sh_next_file_id sh1 + 1) \<le> unat ?nid + card (dom (contents L)) + 2"
        using unat_plus_one [OF n1] cf(7) by simp
      ultimately show ?thesis using st3 by (simp add: merged_def fresh_active_def mark_all_durable_def)
    qed
    ultimately show thesis by (rule that)
  qed
qed

text \<open>Merging an engine.\<close>

lemma engine_merge_inv:
  assumes inv: "eng_inv C (eg, w) L T" and C: "crc32fast_ok C"
    and room: "unat (eg_next_file_id eg) + card (dom (contents L)) + 4 \<le> 2 ^ 32"
  obtains eg' w' L' T' where "engine_merge C (eg, w) = (Inr (), (eg', w'))" and "eng_inv C (eg', w') L' T'"
    and "contents L' = contents L" and "eg_opts eg' = eg_opts eg"
    and "gc_pending_writes (eg_gc eg') = gc_pending_writes (eg_gc eg)"
    and "unat (eg_next_file_id eg') \<le> unat (eg_next_file_id eg) + card (dom (contents L)) + 2"
    and "\<And>af f. eg_active eg = Some af \<Longrightarrow> f \<in> fst ` set L' \<Longrightarrow> af_file_id af \<le> f"
    and "\<And>af. eg_active eg = Some af \<Longrightarrow> synced_but (af_file_id af) w L \<Longrightarrow>
      \<exists>af'. eg_active eg' = Some af' \<and> synced_but (af_file_id af') w' L'"
proof -
  obtain af where af: "eg_active eg = Some af" and rw: "o_is_read_write (eg_opts eg)"
    and m: "unat (o_max_file_size (eg_opts eg)) \<le> 2 ^ 63"
    and st: "store_ok C (o_max_file_size (eg_opts eg)) ((af, eg_gc eg, eg_next_file_id eg), w) L T"
    and kd: "keydir_ok (eg_keydir eg)" "indexes (eg_keydir eg) (index_files L Map.empty)" and r: "readers_ok (eg_files eg) w"
    using inv by (auto simp: eng_inv_def)
  let ?m = "o_max_file_size (eg_opts eg)" and ?sh = "eg_share eg af w"
  have sh: "sh_active ?sh = af" "sh_gc ?sh = eg_gc eg" "sh_next_file_id ?sh = eg_next_file_id eg" "sh_world ?sh = w"
    "sh_keydir ?sh = eg_keydir eg" "sh_files ?sh = eg_files eg" by (simp_all add: eg_share_def)
  obtain sh' L' T' where mg: "merge C ?m ?sh = (Inr (), sh')" and post: "merged C ?m ?sh L sh' L' T'"
    by (rule merge_ok [OF C m, of ?sh L T]) (use st kd r room in \<open>simp_all add: sh\<close>)
  note post = post [unfolded merged_def sh]
  obtain eg1 w1 where us: "eg_unshare eg sh' = (eg1, w1)" by fastforce
  then have eg1: "eg1 = eg\<lparr>eg_keydir := sh_keydir sh', eg_files := sh_files sh', eg_active := Some (sh_active sh'),
      eg_gc := sh_gc sh', eg_next_file_id := sh_next_file_id sh', eg_metrics := sh_metrics sh'\<rparr>" "w1 = sh_world sh'"
    by (simp_all add: eg_unshare_def)
  have "engine_merge C (eg, w) = (Inr (), (eg_record RecordMerge eg1, w1))"
    by (simp add: engine_merge_def require_write_def rw af mg us)
  moreover have "eng_inv C (eg_record RecordMerge eg1, w1) L' T'"
    using inv post m rw unfolding eng_inv_record by (auto simp: eng_inv_def eg1)
  ultimately show thesis
    by (rule that) (use post af in \<open>auto simp: eg1 eg_record_def\<close>)
qed

end
