(* ===== verification/Refinement.thy ===== *)
theory Refinement
  imports MergeOps "HOL-Library.List_Lexorder"
begin

text \<open>
  The engine as a map: an engine represents a map from keys to values, with a budget for the ids and
  generations it still has, and every operation of the trait does to that map what its
  documentation says. The test driver of \<open>tests/model.rs\<close>, which runs an engine beside a
  \<open>HashMap\<close>, is modelled over an interface of which the engine is an instance.
\<close>

section \<open>The interface\<close>

text \<open>\<open>rep n s m\<close>: the store \<open>s\<close> holds \<open>m\<close> and has a budget of \<open>n\<close>.\<close>

type_synonym kv = "bytes \<Rightarrow> bytes option"

definition valid_key :: "bytes \<Rightarrow> bool" where
  "valid_key k \<longleftrightarrow> k \<noteq> [] \<and> length k < 2 ^ 31"

text \<open>The operations of a handle as the driver calls them, with \<open>None\<close> for an error or a call that never returns.\<close>

record 's bitcask =
  db_put :: "bytes \<Rightarrow> bytes \<Rightarrow> u32 \<Rightarrow> 's \<Rightarrow> 's option"
  db_delete :: "bytes \<Rightarrow> u32 \<Rightarrow> 's \<Rightarrow> 's option"
  db_get :: "bytes \<Rightarrow> 's \<Rightarrow> (bytes option \<times> 's) option"
  db_reopen :: "'s \<Rightarrow> 's option"
  db_merge :: "'s \<Rightarrow> 's option"
  db_keys :: "'s \<Rightarrow> bytes list option"

locale kv_store =
  fixes rep :: "nat \<Rightarrow> 's \<Rightarrow> kv \<Rightarrow> bool" and api :: "'s bitcask"
  assumes put: "rep (Suc n) s m \<Longrightarrow> valid_key k \<Longrightarrow> sizes_ok k v \<Longrightarrow> \<exists>s'. db_put api k v ts s = Some s' \<and> rep n s' (m(k \<mapsto> v))"
    and delete: "rep (Suc n) s m \<Longrightarrow> valid_key k \<Longrightarrow> \<exists>s'. db_delete api k ts s = Some s' \<and> rep n s' (m(k := None))"
    and get: "rep n s m \<Longrightarrow> \<exists>s'. db_get api k s = Some (m k, s') \<and> rep n s' m"
    and reopen: "rep (Suc n) s m \<Longrightarrow> \<exists>s'. db_reopen api s = Some s' \<and> rep n s' m"
    and merge: "rep (n + card (dom m) + 2) s m \<Longrightarrow> \<exists>s'. db_merge api s = Some s' \<and> rep n s' m"
    and weaken: "rep n s m \<Longrightarrow> n' \<le> n \<Longrightarrow> rep n' s m"
    and keys: "rep n s m \<Longrightarrow> \<exists>ks. db_keys api s = Some ks \<and> distinct ks \<and> set ks = dom m"

section \<open>The test driver\<close>

datatype op = Put bytes bytes | Delete bytes | Get bytes | Reopen | Merge

type_synonym hash_map = "(bytes \<times> bytes) list"

text \<open>
  One step of \<open>run_model\<close>, on the handle and the \<open>HashMap\<close>; \<open>None\<close> is a panic: an \<open>unwrap\<close> of an
  error or an assertion that fails. \<open>now\<close> is what the clock says.
\<close>

fun run_op :: "'s bitcask \<Rightarrow> op \<Rightarrow> u32 \<Rightarrow> 's \<times> hash_map \<Rightarrow> ('s \<times> hash_map) option" where
  "run_op api (Put k v) now (db, model) =
     map_option (\<lambda>db. (db, AList.update k v model)) (db_put api k v now db)"
| "run_op api (Delete k) now (db, model) =
     map_option (\<lambda>db. (db, AList.delete k model)) (db_delete api k now db)"
| "run_op api (Get k) now (db, model) =
     Option.bind (db_get api k db) (\<lambda>(v, db). if v = map_of model k then Some (db, model) else None)"
| "run_op api Reopen now (db, model) = map_option (\<lambda>db. (db, model)) (db_reopen api db)"
| "run_op api Merge now (db, model) = map_option (\<lambda>db. (db, model)) (db_merge api db)"

fun run_ops :: "'s bitcask \<Rightarrow> (op \<times> u32) list \<Rightarrow> 's \<times> hash_map \<Rightarrow> ('s \<times> hash_map) option" where
  "run_ops api [] s = Some s"
| "run_ops api ((op, now) # ops) s =
     Option.bind (run_op api op now s) (run_ops api ops)"

text \<open>The comparison at the end; \<open>ord\<close> is the order in which the \<open>HashMap\<close> yields its keys.\<close>

fun check_keys :: "'s bitcask \<Rightarrow> hash_map \<Rightarrow> bytes list \<Rightarrow> 's \<Rightarrow> bool" where
  "check_keys api model [] db = True"
| "check_keys api model (k # ks) db =
     (case db_get api k db of None \<Rightarrow> False | Some (v, db) \<Rightarrow> v = map_of model k \<and> check_keys api model ks db)"

definition final_check :: "'s bitcask \<Rightarrow> (bytes list \<Rightarrow> bytes list) \<Rightarrow> 's \<times> hash_map \<Rightarrow> bool" where
  "final_check api ord = (\<lambda>(db, model).
     case db_keys api db of
       None \<Rightarrow> False
     | Some ks \<Rightarrow> sort ks = sort (ord (map fst model)) \<and> check_keys api model (sort ks) db)"

definition run_model :: "'s bitcask \<Rightarrow> (bytes list \<Rightarrow> bytes list) \<Rightarrow> (op \<times> u32) list \<Rightarrow> 's \<Rightarrow> bool" where
  "run_model api ord ops db =
     (case run_ops api ops (db, []) of
        None \<Rightarrow> False | Some s \<Rightarrow> final_check api ord s)"

section \<open>Every store passes\<close>

fun op_ok :: "op \<Rightarrow> bool" where
  "op_ok (Put k v) \<longleftrightarrow> valid_key k \<and> sizes_ok k v"
| "op_ok (Delete k) \<longleftrightarrow> valid_key k"
| "op_ok _ \<longleftrightarrow> True"

text \<open>
  What the operations need, when the map has at most \<open>b\<close> keys at the start: a merge may write one
  output for each key.
\<close>

fun cost :: "nat \<Rightarrow> (op \<times> u32) list \<Rightarrow> nat" where
  "cost b [] = 0"
| "cost b ((Put k v, now) # ops) = Suc (cost (Suc b) ops)"
| "cost b ((Delete k, now) # ops) = Suc (cost b ops)"
| "cost b ((Get k, now) # ops) = cost b ops"
| "cost b ((Reopen, now) # ops) = Suc (cost b ops)"
| "cost b ((Merge, now) # ops) = cost b ops + b + 2"

lemma cost_bound: "cost b ops \<le> length ops * (b + length ops + 2)"
proof (induction b ops rule: cost.induct)
qed (auto simp: algebra_simps)

lemma card_dom_map_of: "card (dom (map_of xs)) \<le> length xs"
  using card_length [of "map fst xs"] by (simp add: dom_map_of_conv_image_fst)

lemma length_update_le: "length (AList.update k v xs) \<le> Suc (length xs)"
  by (induction xs) auto

lemma length_delete_le: "length (AList.delete k xs) \<le> length xs"
  by (induction xs) auto

context kv_store
begin

lemma run_ops_ok:
  assumes "rep (n + cost b ops) db (map_of model)" and "\<forall>(op, now) \<in> set ops. op_ok op" and "length model \<le> b"
    and "distinct (map fst model)"
  shows "\<exists>db' model'. run_ops api ops (db, model) = Some (db', model') \<and> rep n db' (map_of model') \<and>
    distinct (map fst model')"
  using assms
proof (induction b ops arbitrary: db model rule: cost.induct)
  case (2 b k v now ops)
  obtain db' where "db_put api k v now db = Some db'" "rep (n + cost (Suc b) ops) db' (map_of (AList.update k v model))"
    using put [of "n + cost (Suc b) ops" db "map_of model" k v now] "2.prems"
    unfolding update_conv' [abs_def, symmetric] by auto
  then show ?case
    using "2.IH" [of db' "AList.update k v model"] "2.prems" length_update_le [of k v model]
    by (simp add: distinct_update)
next
  case (3 b k now ops)
  obtain db' where "db_delete api k now db = Some db'" "rep (n + cost b ops) db' (map_of (AList.delete k model))"
    using delete [of "n + cost b ops" db "map_of model" k now] "3.prems"
    unfolding delete_conv' [abs_def, symmetric] by auto
  then show ?case
    using 3 "3.IH" [of db' "AList.delete k model"] length_delete_le [of k model] by (simp add: distinct_delete)
next
  case (4 b k now ops)
  obtain db' where "db_get api k db = Some (map_of model k, db')" "rep (n + cost b ops) db' (map_of model)"
    using get [of "n + cost b ops" db "map_of model" k] 4 by auto
  then show ?case using 4 "4.IH" [of db' model] by simp
next
  case (5 b now ops)
  obtain db' where "db_reopen api db = Some db'" "rep (n + cost b ops) db' (map_of model)"
    using reopen [of "n + cost b ops" db "map_of model"] 5 by auto
  then show ?case using 5 "5.IH" [of db' model] by simp
next
  case (6 b now ops)
  have "rep (n + cost b ops + card (dom (map_of model)) + 2) db (map_of model)"
    by (rule weaken [OF "6.prems"(1)]) (use card_dom_map_of [of model] "6.prems"(3) in simp)
  then obtain db' where "db_merge api db = Some db'" "rep (n + cost b ops) db' (map_of model)"
    using merge by blast
  then show ?case using 6 "6.IH" [of db' model] by simp
qed simp

lemma check_keys_ok: "rep n db (map_of model) \<Longrightarrow> check_keys api model ks db"
proof (induction ks arbitrary: db)
  case (Cons k ks)
  then show ?case using get [OF Cons.prems, of k] by auto
qed simp

lemma final_check_ok:
  assumes "rep n db (map_of model)" and "distinct (map fst model)" and "iteration_order ord"
  shows "final_check api ord (db, model)"
proof -
  obtain ks where ks: "db_keys api db = Some ks" "distinct ks" "set ks = dom (map_of model)"
    using keys [OF assms(1)] by auto
  have "distinct (ord (map fst model))" "set (ord (map fst model)) = set (map fst model)"
    using assms(2,3) unfolding iteration_order_def by blast+
  then have "sort ks = sort (ord (map fst model))"
    using ks(2,3) by (intro sorted_distinct_set_unique) (auto simp: dom_map_of_conv_image_fst)
  then show ?thesis using ks check_keys_ok [OF assms(1)] by (simp add: final_check_def)
qed

theorem passes_run_model:
  assumes "rep (cost 0 ops) db Map.empty" and "\<forall>(op, now) \<in> set ops. op_ok op" and "iteration_order ord"
  shows "run_model api ord ops db"
proof -
  obtain db' model where "run_ops api ops (db, []) = Some (db', model)" "rep 0 db' (map_of model)" "distinct (map fst model)"
    using run_ops_ok [of 0 0 ops db "[]"] assms(1,2) by auto
  then show ?thesis using final_check_ok assms(3) by (simp add: run_model_def)
qed

end

section \<open>The engine is such a store\<close>

text \<open>The handle of the driver: an engine and the world, its results unwrapped.\<close>

definition unwrap :: "((error + 'a) \<times> 's) \<Rightarrow> ('a \<times> 's) option" where
  "unwrap = (\<lambda>(res, s). case res of Inl _ \<Rightarrow> None | Inr x \<Rightarrow> Some (x, s))"

text \<open>\<open>Op::Reopen\<close>: the handle is dropped without \<open>close\<close>, and the directory opened again.\<close>

definition engine_api :: "'h crc32fast \<Rightarrow> flock \<Rightarrow> options \<Rightarrow> iter_order \<Rightarrow> (engine \<times> world) bitcask" where
  "engine_api C flk opts kord =
     \<lparr>db_put = (\<lambda>k v now s. map_option snd (Option.bind (engine_put C k v now s) unwrap)),
      db_delete = (\<lambda>k now s. map_option snd (Option.bind (engine_delete C k now s) unwrap)),
      db_get = (\<lambda>k s. unwrap (engine_get k s)),
      db_reopen = (\<lambda>s. unwrap (engine_open C flk opts (engine_drop s))),
      db_merge = (\<lambda>s. map_option snd (unwrap (engine_merge C s))),
      db_keys = (\<lambda>s. map_option fst (unwrap (list_keys kord s)))\<rparr>"

definition engine_rep :: "'h crc32fast \<Rightarrow> options \<Rightarrow> nat \<Rightarrow> engine \<times> world \<Rightarrow> kv \<Rightarrow> bool" where
  "engine_rep C opts n = (\<lambda>(eg, w) m.
     (\<exists>L T. eng_inv C (eg, w) L T \<and> contents L = m) \<and> room (Suc n) eg \<and> eg_opts eg = opts)"

lemma engine_repI:
  "eng_inv C (eg, w) L T \<Longrightarrow> contents L = m \<Longrightarrow> room (Suc n) eg \<Longrightarrow> eg_opts eg = opts \<Longrightarrow> engine_rep C opts n (eg, w) m"
  by (auto simp: engine_rep_def)

lemma engine_repE:
  assumes "engine_rep C opts n s m"
  obtains eg w L T where "s = (eg, w)" and "eng_inv C (eg, w) L T" and "contents L = m" and "room (Suc n) eg"
    and "eg_opts eg = opts"
  using assms by (cases s) (auto simp: engine_rep_def)

lemma room_weaken: "room n eg \<Longrightarrow> n' \<le> n \<Longrightarrow> room n' eg"
  by (simp add: room_def)

lemma put_refines:
  assumes "engine_rep C opts (Suc n) s m" and "valid_key k" and "sizes_ok k v"
  shows "\<exists>s'. engine_put C k v ts s = Some (Inr (), s') \<and> engine_rep C opts n s' (m(k \<mapsto> v))"
proof -
  obtain eg w L T where s: "s = (eg, w)" and inv: "eng_inv C (eg, w) L T" and m: "contents L = m"
    and r: "room (Suc (Suc n)) eg" and o: "eg_opts eg = opts"
    using assms(1) by (rule engine_repE)
  have "k \<noteq> []" "room 2 eg" using assms(2) r by (auto simp: valid_key_def room_def)
  then obtain eg' w' L' T' where "engine_put C k v ts (eg, w) = Some (Inr (), (eg', w'))"
    and "written C k (Some v) (eg, w) L (eg', w') L' T'"
    using engine_put_inv [OF inv _ assms(3)] by blast
  then show ?thesis using s m r o by (auto simp: written_def intro!: engine_repI)
qed

lemma delete_refines:
  assumes "engine_rep C opts (Suc n) s m" and "valid_key k"
  shows "\<exists>s'. engine_delete C k ts s = Some (Inr (), s') \<and> engine_rep C opts n s' (m(k := None))"
proof -
  obtain eg w L T where s: "s = (eg, w)" and inv: "eng_inv C (eg, w) L T" and m: "contents L = m"
    and r: "room (Suc (Suc n)) eg" and o: "eg_opts eg = opts"
    using assms(1) by (rule engine_repE)
  have "k \<noteq> []" "length k < 2 ^ 31" "room 2 eg" using assms(2) r by (auto simp: valid_key_def room_def)
  then obtain eg' w' L' T' where "engine_delete C k ts (eg, w) = Some (Inr (), (eg', w'))"
    and "written C k None (eg, w) L (eg', w') L' T'"
    using engine_delete_inv [OF inv] by blast
  then show ?thesis using s m r o by (auto simp: written_def intro!: engine_repI)
qed

lemma get_refines:
  assumes "engine_rep C opts n s m"
  shows "\<exists>s'. engine_get k s = (Inr (m k), s') \<and> engine_rep C opts n s' m"
proof -
  obtain eg w L T where s: "s = (eg, w)" and inv: "eng_inv C (eg, w) L T" and m: "contents L = m"
    and r: "room (Suc n) eg" and o: "eg_opts eg = opts"
    using assms(1) by (rule engine_repE)
  obtain eg' where g: "engine_get k (eg, w) = (Inr (contents L k), (eg', w))" and i: "eg_read_inv C (eg', w) L T"
    and same: "same_but_reads eg eg'"
    by (rule engine_get_inv [OF eng_inv_read [OF inv]])
  have "eng_inv C (eg', w) L T"
    by (rule eng_inv_same_but_reads [OF inv same]) (use i in \<open>simp add: eg_read_inv_def read_inv_def\<close>)
  then have "engine_rep C opts n (eg', w) m"
    by (rule engine_repI) (use m r o same in \<open>simp_all add: same_but_reads_def room_def\<close>)
  then show ?thesis using g s m by auto
qed

lemma merge_refines:
  assumes "engine_rep C opts (n + card (dom m) + 2) s m" and C: "crc32fast_ok C"
  shows "\<exists>s'. engine_merge C s = (Inr (), s') \<and> engine_rep C opts n s' m"
proof -
  obtain eg w L T where s: "s = (eg, w)" and inv: "eng_inv C (eg, w) L T" and m: "contents L = m"
    and r: "room (Suc (n + card (dom m) + 2)) eg" and o: "eg_opts eg = opts"
    using assms(1) by (rule engine_repE)
  have rm: "unat (eg_next_file_id eg) + card (dom (contents L)) + 4 \<le> 2 ^ 32" using r m by (simp add: room_def)
  obtain eg' w' L' T' where g: "engine_merge C (eg, w) = (Inr (), (eg', w'))" and i: "eng_inv C (eg', w') L' T'"
    and c: "contents L' = contents L" "eg_opts eg' = eg_opts eg"
      "gc_pending_writes (eg_gc eg') = gc_pending_writes (eg_gc eg)"
      "unat (eg_next_file_id eg') \<le> unat (eg_next_file_id eg) + card (dom (contents L)) + 2"
    by (rule engine_merge_inv [OF inv C rm]) blast
  have "engine_rep C opts n (eg', w') m"
    by (rule engine_repI [OF i]) (use c m r o in \<open>simp_all add: room_def\<close>)
  then show ?thesis using g s by auto
qed

lemma sync_refines:
  assumes "engine_rep C opts n s m"
  shows "\<exists>s'. engine_sync s = (Inr (), s') \<and> engine_rep C opts n s' m"
proof -
  obtain eg w L T where s: "s = (eg, w)" and inv: "eng_inv C (eg, w) L T" and m: "contents L = m"
    and r: "room (Suc n) eg" and o: "eg_opts eg = opts"
    using assms by (rule engine_repE)
  obtain eg' w' where "engine_sync (eg, w) = (Inr (), (eg', w'))" and i: "eng_inv C (eg', w') L T"
    and "\<And>n. room n eg' = room n eg" and "eg_opts eg' = eg_opts eg"
    by (rule engine_sync_inv [OF inv]) blast
  then show ?thesis using engine_repI [OF i m] r o s by auto
qed

lemma engine_rep_weaken: "engine_rep C opts n s m \<Longrightarrow> n' \<le> n \<Longrightarrow> engine_rep C opts n' s m"
  unfolding engine_rep_def split_beta by (auto intro: room_weaken)

lemma list_keys_refines:
  assumes "engine_rep C opts n s m" and "iteration_order ord"
  shows "\<exists>ks. list_keys ord s = (Inr ks, s) \<and> distinct ks \<and> set ks = dom m"
proof -
  obtain eg w L T where s: "s = (eg, w)" and inv: "eng_inv C (eg, w) L T" and m: "contents L = m"
    using assms(1) by (rule engine_repE)
  obtain ks where "list_keys ord (eg, w) = (Inr ks, (eg, w))" "distinct ks" "set ks = {k. contents L k \<noteq> None}"
    by (rule list_keys_inv [OF eng_inv_read [OF inv] assms(2)])
  then show ?thesis using s m by (auto simp: dom_def)
qed

lemma fold_refines:
  assumes "engine_rep C opts n s m" and "iteration_order ord"
  shows "\<exists>ks s'. list_keys ord s = (Inr ks, s) \<and> distinct ks \<and> set ks = dom m \<and>
    engine_fold ord f init s = (Inr (fold (\<lambda>k. f k (the (m k))) ks init), s') \<and> engine_rep C opts n s' m"
proof -
  obtain eg w L T where s: "s = (eg, w)" and inv: "eng_inv C (eg, w) L T" and m: "contents L = m"
    and r: "room (Suc n) eg" and o: "eg_opts eg = opts"
    using assms(1) by (rule engine_repE)
  have ok: "keydir_ok (eg_keydir eg)" using inv by (auto simp: eng_inv_def)
  let ?items = "snapshot ord (eg_keydir eg)"
  obtain eg' where g: "fold_loop f ?items init (eg, w) =
      (Inr (fold (\<lambda>(k, _). f k (the (contents L k))) ?items init), (eg', w))"
    and i: "eg_read_inv C (eg', w) L T" and same: "same_but_reads eg eg'"
    using fold_loop_inv [OF eng_inv_read [OF inv], of ?items f init] in_snapshot [OF assms(2) ok] by auto
  have "eng_inv C (eg', w) L T"
    by (rule eng_inv_same_but_reads [OF inv same]) (use i in \<open>simp add: eg_read_inv_def read_inv_def\<close>)
  then have "engine_rep C opts n (eg', w) m"
    by (rule engine_repI) (use m r o same in \<open>simp_all add: same_but_reads_def room_def\<close>)
  moreover have "engine_fold ord f init s =
      (Inr (fold (\<lambda>k. f k (the (m k))) (map fst ?items) init), (eg', w))"
    by (simp add: engine_fold_def s g m fold_map comp_def case_prod_unfold)
  moreover have "list_keys ord s = (Inr (map fst ?items), s)" by (simp add: list_keys_def s)
  moreover have "distinct (map fst ?items) \<and> set (map fst ?items) = dom m"
    using list_keys_refines [OF assms] by (simp add: list_keys_def s)
  ultimately show ?thesis by blast
qed

text \<open>Dropping a handle leaves a directory that can be opened again.\<close>

lemma engine_drop_inv:
  assumes "eng_inv C (eg, w) L T"
  shows "closed_ok C (engine_drop (eg, w)) L T" and "L \<noteq> []" and "fst (last L) < eg_next_file_id eg"
proof -
  obtain af l where af: "eg_active eg = Some af" "eg_write_lock eg = Some l" "w_locks w = [l]"
    and o: "w_outs w = []" "world_ok w" "disk C w L T" and b: "bw_buf (af_writer af) = []"
    and h: "\<forall>fid. lookup (hint_path fid) w \<noteq> None \<longrightarrow> fid < af_file_id af"
    and L: "L \<noteq> []" "fst (last L) = af_file_id af" "af_file_id af < eg_next_file_id eg"
    using assms by (auto simp: eng_inv_def store_ok_def active_ok_def)
  have "engine_drop (eg, w) = w\<lparr>w_locks := []\<rparr>" by (simp add: engine_drop_def dirlock_drop_def af b)
  moreover have "closed_ok C (w\<lparr>w_locks := []\<rparr>) L T"
    using o L h disk_cong [of "w\<lparr>w_locks := []\<rparr>" w C L T] by (auto simp: closed_ok_def intro: less_imp_le)
  ultimately show "closed_ok C (engine_drop (eg, w)) L T" by simp
  show "L \<noteq> []" "fst (last L) < eg_next_file_id eg" using L by simp_all
qed

lemma open_refines:
  assumes "closed_ok C w L T" and "next_id L + n + 2 < 2 ^ 32" and "n + 1 < 2 ^ 64" and "flock_ok flk"
    and "o_is_read_write opts" and "unat (o_max_file_size opts) \<le> 2 ^ 63"
  shows "\<exists>s'. engine_open C flk opts w = (Inr (fst s'), snd s') \<and> engine_rep C opts n s' (contents L)"
proof -
  have "next_id L < 2 ^ 32 - 1" using assms(2) by simp
  then obtain eg w' fid where g: "engine_open C flk opts w = (Inr eg, w')"
    and i: "eng_inv C (eg, w') (L @ [(fid, [])]) (T(fid := []))" and e: "eg_opts eg = opts"
      "unat (eg_next_file_id eg) = Suc (next_id L)" "gc_pending_writes (eg_gc eg) = 0"
    using engine_open_inv [OF assms(1) _ assms(4-6)] by blast
  have "engine_rep C opts n (eg, w') (contents L)"
    by (rule engine_repI [OF i]) (use e assms(2,3) in \<open>simp_all add: room_def\<close>)
  then show ?thesis using g by auto
qed

lemma reopen_refines:
  assumes "engine_rep C opts (Suc n) s m" and "flock_ok flk"
  shows "\<exists>s'. engine_open C flk opts (engine_drop s) = (Inr (fst s'), snd s') \<and> engine_rep C opts n s' m"
proof -
  obtain eg w L T where s: "s = (eg, w)" and inv: "eng_inv C (eg, w) L T" and m: "contents L = m"
    and r: "room (Suc (Suc n)) eg" and o: "eg_opts eg = opts"
    using assms(1) by (rule engine_repE)
  note d = engine_drop_inv [OF inv]
  have opts: "o_is_read_write opts" "unat (o_max_file_size opts) \<le> 2 ^ 63"
    using inv o by (auto simp: eng_inv_def)
  have "next_id L + n + 2 < 2 ^ 32" "n + 1 < 2 ^ 64" using r d(2,3) by (simp_all add: room_def next_id_def word_less_nat_alt)
  from open_refines [OF d(1) this assms(2) opts] show ?thesis by (simp add: s m)
qed

text \<open>
  The store of the driver, together with what it relies on of the code that is not in the
  repository: the checksum, the file lock and the iteration order of a \<open>HashMap\<close>.
\<close>

definition engine_store :: "'h crc32fast \<Rightarrow> flock \<Rightarrow> options \<Rightarrow> iter_order \<Rightarrow> nat \<Rightarrow> engine \<times> world \<Rightarrow> kv \<Rightarrow> bool" where
  "engine_store C flk opts kord n s m \<longleftrightarrow>
     crc32fast_ok C \<and> flock_ok flk \<and> iteration_order kord \<and> engine_rep C opts n s m"

interpretation eng: kv_store "engine_store C flk opts kord" "engine_api C flk opts kord" for C flk opts kord
proof
  fix n n' s m k v ts
  note [simp] = engine_api_def unwrap_def engine_store_def
  show "engine_store C flk opts kord (Suc n) s m \<Longrightarrow> valid_key k \<Longrightarrow> sizes_ok k v \<Longrightarrow>
      \<exists>s'. db_put (engine_api C flk opts kord) k v ts s = Some s' \<and> engine_store C flk opts kord n s' (m(k \<mapsto> v))"
    using put_refines [of C opts n s m k v ts] by auto
  show "engine_store C flk opts kord (Suc n) s m \<Longrightarrow> valid_key k \<Longrightarrow>
      \<exists>s'. db_delete (engine_api C flk opts kord) k ts s = Some s' \<and> engine_store C flk opts kord n s' (m(k := None))"
    using delete_refines [of C opts n s m k ts] by auto
  show "engine_store C flk opts kord n s m \<Longrightarrow>
      \<exists>s'. db_get (engine_api C flk opts kord) k s = Some (m k, s') \<and> engine_store C flk opts kord n s' m"
    using get_refines [of C opts n s m k] by auto
  show "engine_store C flk opts kord (Suc n) s m \<Longrightarrow>
      \<exists>s'. db_reopen (engine_api C flk opts kord) s = Some s' \<and> engine_store C flk opts kord n s' m"
    using reopen_refines [of C opts n s m flk] by auto
  show "engine_store C flk opts kord (n + card (dom m) + 2) s m \<Longrightarrow>
      \<exists>s'. db_merge (engine_api C flk opts kord) s = Some s' \<and> engine_store C flk opts kord n s' m"
    using merge_refines [of C opts n m s] by auto
  show "engine_store C flk opts kord n s m \<Longrightarrow> n' \<le> n \<Longrightarrow> engine_store C flk opts kord n' s m"
    by (auto simp: engine_rep_def intro: room_weaken)
  show "engine_store C flk opts kord n s m \<Longrightarrow>
      \<exists>ks. db_keys (engine_api C flk opts kord) s = Some ks \<and> distinct ks \<and> set ks = dom m"
    using list_keys_refines [of C opts n s m kord] by auto
qed

section \<open>The driver passes\<close>

text \<open>\<open>small_file_options\<close>, and the driver from an empty directory on.\<close>

definition small_file_options :: options where
  "small_file_options = default_options\<lparr>o_max_file_size := 200\<rparr>"

definition run_engine_model :: "'h crc32fast \<Rightarrow> flock \<Rightarrow> options \<Rightarrow> iter_order \<Rightarrow> (bytes list \<Rightarrow> bytes list) \<Rightarrow>
    (op \<times> u32) list \<Rightarrow> bool" where
  "run_engine_model C flk opts kord ord ops =
     (case unwrap (engine_open C flk opts empty_world) of
        None \<Rightarrow> False
      | Some db \<Rightarrow> run_model (engine_api C flk opts kord) ord ops db)"

lemma contents_Nil [simp]: "contents [] = Map.empty"
  by (simp add: contents_def fun_eq_iff)

end
