(* ===== verification/Interleave.thy ===== *)
theory Interleave
  imports Engine Refinement
begin

text \<open>
  Threads that call one engine at the same time (\<open>src/engine.rs\<close>): the calls of \<open>put\<close>, \<open>delete\<close> and \<open>get\<close>, cut
  where another thread can get in, which is after every section that holds a lock. The index changes only some
  time after the record has been appended, and a value is read only some time after its place was looked up.
\<close>

section \<open>Calls in stages\<close>

datatype wcall = PutW bytes bytes u32 | DeleteW bytes u32

datatype call = Write wcall | GetCall bytes

text \<open>
  What a thread will do next. \<open>Appending\<close>: a delete that has found its key in the index. \<open>Committing\<close>: has
  appended and waits for the fsync. \<open>Publishing\<close>: will change the index. \<open>Reading\<close>: has looked up its key.
\<close>

datatype stage =
    Called call
  | Appending wcall
  | Committing wcall "u32 \<times> u64" u64
  | Publishing wcall "u32 \<times> u64"
  | Reading bytes kd_entry
  | Answered call "error + bytes option"

fun write_key :: "wcall \<Rightarrow> bytes" where
  "write_key (PutW k v ts) = k"
| "write_key (DeleteW k ts) = k"

fun write_encoded :: "'h crc32fast \<Rightarrow> wcall \<Rightarrow> encoded_entry" where
  "write_encoded C (PutW k v ts) = encode_entry C k v False ts"
| "write_encoded C (DeleteW k ts) = encode_entry C k [] True ts"

definition append_stage :: "'h crc32fast \<Rightarrow> wcall \<Rightarrow> engine \<times> world \<Rightarrow> stage \<times> engine \<times> world" where
  "append_stage C wr = (\<lambda>(eg, w).
     case eg_active eg of
       None \<Rightarrow> (Answered (Write wr) (Inl ReadOnly), (eg, w))
     | Some af \<Rightarrow>
         (case append_locked (o_max_file_size (eg_opts eg)) (write_encoded C wr)
                 ((af, eg_gc eg, eg_next_file_id eg), w) of
            (res, ((af, gc, nid), w)) \<Rightarrow>
              (case res of
                 Inl e \<Rightarrow> Answered (Write wr) (Inl (Io e))
               | Inr (file_id, value_pos, target_gen) \<Rightarrow>
                   (if o_should_sync_on_put (eg_opts eg) then Committing wr (file_id, value_pos) target_gen
                    else Publishing wr (file_id, value_pos)),
               (eg\<lparr>eg_active := Some af, eg_gc := gc, eg_next_file_id := nid\<rparr>, w))))"

text \<open>
  The whole of \<open>commit\<close> is one step: a thread that would wait for the fsync of another thread runs its own here. What
  a call answers and what the store holds do not depend on who runs the fsync; how long a call waits for one does, and
  that is the subject of \<open>CommitSteps\<close>, where the sections of \<open>commit\<close> are steps of their own.
\<close>

definition commit_stage :: "wcall \<Rightarrow> u32 \<times> u64 \<Rightarrow> u64 \<Rightarrow> engine \<times> world \<Rightarrow> (stage \<times> engine \<times> world) option" where
  "commit_stage wr loc target_gen = (\<lambda>(eg, w).
     case eg_active eg of
       None \<Rightarrow> Some (Answered (Write wr) (Inl ReadOnly), (eg, w))
     | Some af \<Rightarrow>
         map_option (\<lambda>(res, (gc, (af, w))).
             (case res of Inl e \<Rightarrow> Answered (Write wr) (Inl (Io e)) | Inr _ \<Rightarrow> Publishing wr loc,
              (eg\<lparr>eg_active := Some af, eg_gc := gc\<rparr>, w)))
           (gc_commit target_gen fsync_active (eg_gc eg, (af, w))))"

fun publish :: "wcall \<Rightarrow> u32 \<times> u64 \<Rightarrow> engine \<Rightarrow> engine" where
  "publish (PutW k v ts) (file_id, value_pos) eg =
     eg_record RecordPut (eg\<lparr>eg_keydir := keydir_insert k
       \<lparr>kd_file_id = file_id, kd_value_size = of_nat (length v), kd_value_pos = value_pos, kd_timestamp = ts\<rparr> (eg_keydir eg)\<rparr>)"
| "publish (DeleteW k ts) loc eg = eg_record RecordDelete (eg\<lparr>eg_keydir := snd (keydir_remove k (eg_keydir eg))\<rparr>)"

definition read_stage :: "bytes \<Rightarrow> kd_entry \<Rightarrow> engine \<times> world \<Rightarrow> stage \<times> engine \<times> world" where
  "read_stage k ent s =
     (case read_value ent s of
        (Inl e, s) \<Rightarrow> (Answered (GetCall k) (Inl e), s)
      | (Inr v, (eg, w)) \<Rightarrow> (Answered (GetCall k) (Inr (Some v)), (eg_record RecordGet eg, w)))"

text \<open>The next step of a thread; \<open>None\<close> if it never returns.\<close>

fun thread_step :: "'h crc32fast \<Rightarrow> stage \<Rightarrow> engine \<times> world \<Rightarrow> (stage \<times> engine \<times> world) option" where
  "thread_step C (Called (Write wr)) (eg, w) =
     (if write_key wr = [] then Some (Answered (Write wr) (Inl EmptyKey), (eg, w))
      else case require_write eg of
        Inl e \<Rightarrow> Some (Answered (Write wr) (Inl e), (eg, w))
      | Inr _ \<Rightarrow>
          (case wr of
             PutW k v ts \<Rightarrow> Some (append_stage C wr (eg, w))
           | DeleteW k ts \<Rightarrow>
               (if keydir_get k (eg_keydir eg) = None
                then Some (Answered (Write wr) (Inr None), (eg_record RecordDelete eg, w))
                else Some (Appending wr, (eg, w)))))"
| "thread_step C (Called (GetCall k)) (eg, w) =
     Some (case keydir_get k (eg_keydir eg) of
       None \<Rightarrow> (Answered (GetCall k) (Inr None), (eg_record RecordGet eg, w))
     | Some ent \<Rightarrow> (Reading k ent, (eg, w)))"
| "thread_step C (Appending wr) s = Some (append_stage C wr s)"
| "thread_step C (Committing wr loc target_gen) s = commit_stage wr loc target_gen s"
| "thread_step C (Publishing wr loc) (eg, w) = Some (Answered (Write wr) (Inr None), (publish wr loc eg, w))"
| "thread_step C (Reading k ent) s = Some (read_stage k ent s)"
| "thread_step C (Answered c r) s = Some (Answered c r, s)"

section \<open>A thread that is alone\<close>

fun thread_run :: "'h crc32fast \<Rightarrow> nat \<Rightarrow> stage \<times> engine \<times> world \<Rightarrow> (stage \<times> engine \<times> world) option" where
  "thread_run C 0 s = Some s"
| "thread_run C (Suc n) (th, s) = Option.bind (thread_step C th s) (thread_run C n)"

text \<open>The calls as the engine defines them, with their results in one type.\<close>

fun engine_call :: "'h crc32fast \<Rightarrow> call \<Rightarrow> engine \<times> world \<Rightarrow> ((error + bytes option) \<times> engine \<times> world) option" where
  "engine_call C (Write (PutW k v ts)) s = map_option (map_prod (map_sum (\<lambda>e. e) (\<lambda>_. None)) (\<lambda>s. s)) (engine_put C k v ts s)"
| "engine_call C (Write (DeleteW k ts)) s = map_option (map_prod (map_sum (\<lambda>e. e) (\<lambda>_. None)) (\<lambda>s. s)) (engine_delete C k ts s)"
| "engine_call C (GetCall k) s = Some (engine_get k s)"

text \<open>Appending, committing and publishing without an interruption.\<close>

lemma run_answered: "thread_run C n (Answered c r, s) = Some (Answered c r, s)"
  by (induction n) simp_all

lemma append_rest:
  "thread_run C (Suc (Suc n)) (append_stage C wr (eg, w)) =
     (case engine_append (write_encoded C wr) (eg, w) of
        None \<Rightarrow> None
      | Some (Inl e, s) \<Rightarrow> Some (Answered (Write wr) (Inl e), s)
      | Some (Inr loc, (eg, w)) \<Rightarrow> Some (Answered (Write wr) (Inr None), (publish wr loc eg, w)))"
proof (cases "eg_active eg")
  case None
  then show ?thesis by (simp add: append_stage_def engine_append_def run_answered)
next
  case (Some af)
  obtain res af1 gc1 nid1 w1 where a: "append_locked (o_max_file_size (eg_opts eg)) (write_encoded C wr)
      ((af, eg_gc eg, eg_next_file_id eg), w) = (res, ((af1, gc1, nid1), w1))"
    by (metis prod.collapse)
  show ?thesis
  proof (cases res)
    case (Inl e)
    then show ?thesis using Some a by (simp add: append_stage_def engine_append_def run_answered Let_def)
  next
    case (Inr x)
    obtain fid pos t where x: "x = (fid, pos, t)" by (cases x) auto
    show ?thesis
    proof (cases "o_should_sync_on_put (eg_opts eg)")
      case False
      then show ?thesis using Some a Inr x by (simp add: append_stage_def engine_append_def run_answered Let_def)
    next
      case True
      note st = Some a Inr x True append_stage_def engine_append_def commit_stage_def run_answered Let_def
      show ?thesis
      proof (cases "gc_commit t fsync_active (gc1, (af1, w1))")
        case None
        then show ?thesis by (simp add: st)
      next
        case c: (Some y)
        obtain res2 gc2 af2 w2 where y: "y = (res2, (gc2, (af2, w2)))" by (metis prod.collapse)
        show ?thesis by (cases res2) (simp_all add: st c y)
      qed
    qed
  qed
qed

text \<open>
  The stages are the calls of the engine: a thread that is not interrupted does exactly what the engine's own
  definition of its call does, with the same result and the same final state, whatever system calls fail.
\<close>

theorem lone_thread_is_engine_call:
  "thread_run C 4 (Called c, s) = map_option (\<lambda>(r, s). (Answered c r, s)) (engine_call C c s)"
proof -
  obtain eg w where s: "s = (eg, w)" by fastforce
  have four: "thread_run C 4 x = thread_run C (Suc (Suc (Suc (Suc 0)))) x" for x by (simp add: eval_nat_numeral)
  show ?thesis
  proof (cases c)
    case (GetCall k)
    show ?thesis
    proof (cases "keydir_get k (eg_keydir eg)")
      case None
      then show ?thesis by (simp add: s GetCall four engine_get_def bindE_def)
    next
      case (Some ent)
      obtain r eg1 w1 where r: "read_value ent (eg, w) = (r, (eg1, w1))" by (metis prod.collapse)
      show ?thesis using Some r by (cases r) (simp_all add: s GetCall four engine_get_def bindE_def read_stage_def)
    qed
  next
    case (Write wr)
    have run: "thread_run C (Suc (Suc n)) (append_stage C wr (eg, w)) = map_option (\<lambda>(r, s). (Answered c r, s))
        (case engine_append (write_encoded C wr) (eg, w) of
           None \<Rightarrow> None
         | Some (Inl e, s) \<Rightarrow> Some (Inl e, s)
         | Some (Inr loc, (eg, w)) \<Rightarrow> Some (Inr None, (publish wr loc eg, w)))" for n
      unfolding append_rest Write by (simp split: option.splits sum.splits prod.splits)
    show ?thesis
    proof (cases "write_key wr = [] \<or> \<not> o_is_read_write (eg_opts eg)")
      case True
      then show ?thesis
        by (cases wr) (auto simp: s Write four require_write_def engine_put_def engine_delete_def)
    next
      case ok: False
      show ?thesis
      proof (cases wr)
        case (PutW k v ts)
        have "thread_run C 4 (Called c, s) = thread_run C (Suc (Suc (Suc 0))) (append_stage C wr (eg, w))"
          using ok by (simp add: s Write PutW four require_write_def)
        also have "\<dots> = map_option (\<lambda>(r, s). (Answered c r, s)) (engine_call C c s)"
          unfolding run using ok
          by (simp add: s Write PutW engine_put_def require_write_def split: option.splits sum.splits prod.splits)
        finally show ?thesis .
      next
        case (DeleteW k ts)
        show ?thesis
        proof (cases "keydir_get k (eg_keydir eg) = None")
          case True
          then show ?thesis using ok by (simp add: s Write DeleteW four require_write_def engine_delete_def)
        next
          case False
          then obtain ent where ent: "keydir_get k (eg_keydir eg) = Some ent" by blast
          then have "thread_run C 4 (Called c, s) = thread_run C (Suc (Suc 0)) (append_stage C wr (eg, w))"
            using ok by (simp add: s Write DeleteW four require_write_def)
          also have "\<dots> = map_option (\<lambda>(r, s). (Answered c r, s)) (engine_call C c s)"
            unfolding run using ok ent
            by (simp add: s Write DeleteW engine_delete_def require_write_def split: option.splits sum.splits prod.splits)
          finally show ?thesis .
        qed
      qed
    qed
  qed
qed

section \<open>Schedules\<close>

text \<open>
  The threads and the engine they share. Two lists that the code does not have record the order in which the
  calls took effect in memory, and the order in which the writes got into the log.
\<close>

record system =
  sy_threads :: "stage list"
  sy_store :: "engine \<times> world"
  sy_order :: "nat list"
  sy_log :: "nat list"

text \<open>
  A put takes effect when it is published; so does a delete, unless it finds nothing to delete; a get takes
  effect when it looks up its key.
\<close>

fun takes_effect :: "stage \<Rightarrow> stage \<Rightarrow> bool" where
  "takes_effect (Called c) (Answered c' (Inr r)) = True"
| "takes_effect (Called c) (Reading k ent) = True"
| "takes_effect (Publishing wr loc) th = True"
| "takes_effect th th' = False"

fun is_logged :: "stage \<Rightarrow> bool" where
  "is_logged (Committing wr loc t) = True"
| "is_logged (Publishing wr loc) = True"
| "is_logged _ = False"

definition system_step :: "'h crc32fast \<Rightarrow> nat \<Rightarrow> system \<Rightarrow> system option" where
  "system_step C i sy =
     (if i < length (sy_threads sy) then
        map_option (\<lambda>(th, s). sy\<lparr>sy_threads := (sy_threads sy)[i := th], sy_store := s,
            sy_order := sy_order sy @ (if takes_effect (sy_threads sy ! i) th then [i] else []),
            sy_log := sy_log sy @ (if is_logged th \<and> \<not> is_logged (sy_threads sy ! i) then [i] else [])\<rparr>)
          (thread_step C (sy_threads sy ! i) (sy_store sy))
      else Some sy)"

fun run_schedule :: "'h crc32fast \<Rightarrow> nat list \<Rightarrow> system \<Rightarrow> system option" where
  "run_schedule C [] sy = Some sy"
| "run_schedule C (i # sched) sy = Option.bind (system_step C i sy) (run_schedule C sched)"

definition start_calls :: "call list \<Rightarrow> engine \<times> world \<Rightarrow> system" where
  "start_calls calls s = \<lparr>sy_threads = map Called calls, sy_store = s, sy_order = [], sy_log = []\<rparr>"

section \<open>Calls of a map\<close>

text \<open>What a call answers and does when the calls take effect one after the other.\<close>

fun call_answer :: "call \<Rightarrow> kv \<Rightarrow> bytes option" where
  "call_answer (Write wr) m = None"
| "call_answer (GetCall k) m = m k"

fun call_effect :: "call \<Rightarrow> kv \<Rightarrow> kv" where
  "call_effect (Write (PutW k v ts)) m = m(k \<mapsto> v)"
| "call_effect (Write (DeleteW k ts)) m = m(k := None)"
| "call_effect (GetCall k) m = m"

definition after_calls :: "call list \<Rightarrow> nat list \<Rightarrow> kv \<Rightarrow> kv" where
  "after_calls calls order m = fold (\<lambda>i. call_effect (calls ! i)) order m"

fun answers :: "call list \<Rightarrow> nat list \<Rightarrow> kv \<Rightarrow> (nat \<times> bytes option) list" where
  "answers calls [] m = []"
| "answers calls (i # order) m = (i, call_answer (calls ! i) m) # answers calls order (call_effect (calls ! i) m)"

lemma after_calls_snoc [simp]:
  "after_calls calls [] m = m" "after_calls calls (order @ [i]) m = call_effect (calls ! i) (after_calls calls order m)"
  by (simp_all add: after_calls_def)

lemma answers_snoc [simp]:
  "answers calls (order @ [i]) m = answers calls order m @ [(i, call_answer (calls ! i) (after_calls calls order m))]"
  by (induction order arbitrary: m) (simp_all add: after_calls_def)

lemma fst_answers [simp]: "map fst (answers calls order m) = order"
  by (induction order arbitrary: m) simp_all

end
