(* ===== verification/Crash.thy ===== *)
theory Crash
  imports Refinement
begin

text \<open>
  A crash of the machine, between two calls of the engine: of every file a prefix survives that contains what has
  been synced; buffers and locks are gone. What becomes of the names is a separate matter: \<open>fsync\<close> on a file does not
  promise that its entry in the directory survives, and the code never syncs a directory. The results on what \<open>open\<close>
  recovers assume that the names survive (\<open>directory_kept\<close>); the last section shows what happens without that.
\<close>

section \<open>Crashes\<close>

text \<open>The directory after a crash is any consistent one.\<close>

definition crashed :: "world \<Rightarrow> world \<Rightarrow> bool" where
  "crashed w w' \<longleftrightarrow> world_ok w' \<and> w_locks w' = [] \<and> w_outs w' = [] \<and>
     length (w_inodes w') = length (w_inodes w) \<and>
     (\<forall>i < length (w_inodes w). \<exists>n \<ge> i_durable (w_inodes w ! i). data_of i w' = take n (data_of i w))"

text \<open>The assumption that the names survive. Neither \<open>fsync\<close> nor the code secures it.\<close>

definition directory_kept :: "world \<Rightarrow> world \<Rightarrow> bool" where
  "directory_kept w w' \<longleftrightarrow> w_dir w' = w_dir w"

text \<open>
  The assumption that a hint file that has lost bytes fails its checksum: it is not synced, so this is what
  protects it.
\<close>

definition hint_damage_detected :: "'h crc32fast \<Rightarrow> world \<Rightarrow> world \<Rightarrow> bool" where
  "hint_damage_detected C w w' \<longleftrightarrow> (\<forall>fid hb. file_bytes (hint_path fid) w' = Some hb \<longrightarrow>
     file_bytes (hint_path fid) w = Some hb \<or> verify_hint_file C hb = None)"

text \<open>
  The assumption that a data file with a hint file is synced. A merge syncs an output before it completes the hint
  file (\<open>mw_finish\<close>, \<open>mw_rotate\<close>; \<open>output_closed\<close> in \<open>mw_finish_ok\<close>), and the output is not written again.
\<close>

definition hinted_files_synced :: "world \<Rightarrow> bool" where
  "hinted_files_synced w \<longleftrightarrow>
     (\<forall>fid. lookup (hint_path fid) w \<noteq> None \<longrightarrow> lookup (data_path fid) w \<noteq> None \<longrightarrow> durable_file (data_path fid) w)"

lemma crashed_file:
  assumes "crashed w w'" and "directory_kept w w'" and "world_ok w"
  shows "lookup n w' = lookup n w"
    and "file_bytes n w = Some bs \<Longrightarrow> \<exists>k. file_bytes n w' = Some (take k bs)"
    and "durable_file n w \<Longrightarrow> file_bytes n w' = file_bytes n w"
    and "file_bytes n w = None \<Longrightarrow> file_bytes n w' = None"
proof -
  show l: "lookup n w' = lookup n w" for n using assms(2) by (simp add: directory_kept_def lookup_def)
  have cut: "\<exists>k \<ge> i_durable (w_inodes w ! i). data_of i w' = take k (data_of i w)" if "lookup n w = Some i" for n i
    using assms(1) lookup_bound [OF assms(3) that] by (simp add: crashed_def)
  show "\<exists>k. file_bytes n w' = Some (take k bs)" if "file_bytes n w = Some bs"
    using that cut [of n] by (auto simp: file_bytes_def l)
  show "file_bytes n w' = file_bytes n w" if "durable_file n w"
    using that cut [of n] by (auto simp: file_bytes_def durable_file_def l)
  show "file_bytes n w' = None" if "file_bytes n w = None" using that by (simp add: file_bytes_def l)
qed

section \<open>A prefix of a log\<close>

lemma torn_prefix:
  assumes "rec_ok r" and "n < rec_len r"
  shows "torn C (take n (rec_bytes C r))"
proof -
  obtain k v t ts where r: "r = (k, v, t, ts)" by (cases r) auto
  show ?thesis
  proof (cases "n = 0")
    case False
    then have "fst (parse_entry C (take n (ee_bytes (encode_entry C k v t ts)))) = Some EntryTruncated"
      using assms by (intro parse_entry_truncated) (auto simp: r length_encode_entry)
    then show ?thesis by (simp add: torn_def r)
  qed simp
qed

lemma log_prefix:
  assumes "list_all rec_ok rs"
  shows "\<exists>k tail. take n (log_bytes C rs) = log_bytes C (take k rs) @ tail \<and> torn C tail \<and>
    log_len (take k rs) + length tail \<le> log_len rs \<and>
    (log_len rs \<le> n \<longrightarrow> take k rs = rs \<and> tail = [])"
  using assms
proof (induction rs arbitrary: n)
  case Nil
  then show ?case by simp
next
  case (Cons r rs)
  show ?case
  proof (cases "n < rec_len r")
    case True
    let ?tail = "take n (rec_bytes C r)"
    have "take n (log_bytes C (r # rs)) = log_bytes C (take 0 (r # rs)) @ ?tail" using True by simp
    moreover have "torn C ?tail" using Cons.prems True by (intro torn_prefix) simp_all
    moreover have "log_len (take 0 (r # rs)) + length ?tail \<le> log_len (r # rs)" using True by simp
    moreover have "\<not> log_len (r # rs) \<le> n" using True by simp
    ultimately show ?thesis by blast
  next
    case False
    obtain k tail where p: "take (n - rec_len r) (log_bytes C rs) = log_bytes C (take k rs) @ tail" "torn C tail"
      "log_len (take k rs) + length tail \<le> log_len rs" "log_len rs \<le> n - rec_len r \<longrightarrow> take k rs = rs \<and> tail = []"
      using Cons.IH [of "n - rec_len r"] Cons.prems by auto
    have "take n (log_bytes C (r # rs)) = log_bytes C (take (Suc k) (r # rs)) @ tail" using False p(1) by simp
    moreover have "log_len (take (Suc k) (r # rs)) + length tail \<le> log_len (r # rs)" using p(3) by simp
    moreover have "log_len (r # rs) \<le> n \<longrightarrow> take (Suc k) (r # rs) = r # rs \<and> tail = []" using p(4) by auto
    ultimately show ?thesis using p(2) by blast
  qed
qed

text \<open>A prefix of a torn record is torn.\<close>

lemma torn_take:
  assumes "torn C tail"
  shows "torn C (take n tail)"
proof (cases "length (take n tail) < HEADER_SIZE")
  case True
  then show ?thesis unfolding torn_def by (auto simp: parse_entry_def)
next
  case False
  have h: "take HEADER_SIZE (take n tail) = take HEADER_SIZE tail" using False by (auto simp: min_def split: if_splits)
  have "tail \<noteq> []" "\<not> length tail < HEADER_SIZE" using False by (auto simp: HEADER_SIZE_def)
  moreover obtain crc hdr where d: "decode_entry_header (take HEADER_SIZE tail) = (crc, hdr)" by fastforce
  ultimately have "length (drop HEADER_SIZE tail) < unat (eh_key_size hdr) + unat (eh_value_size hdr)"
    using assms unfolding torn_def by (auto simp: parse_entry_def Let_def split: if_splits)
  then have "length (drop HEADER_SIZE (take n tail)) < unat (eh_key_size hdr) + unat (eh_value_size hdr)" by simp
  then show ?thesis using False unfolding torn_def parse_entry_def Let_def h d by simp
qed

text \<open>A prefix of a file: some of its records, and a torn one.\<close>

lemma torn_log_prefix:
  assumes "list_all rec_ok rs" and "torn C tail"
  shows "\<exists>k tail'. take n (log_bytes C rs @ tail) = log_bytes C (take k rs) @ tail' \<and> torn C tail' \<and>
    log_len (take k rs) + length tail' \<le> log_len rs + length tail \<and> (log_len rs \<le> n \<longrightarrow> take k rs = rs)"
proof (cases "log_len rs \<le> n")
  case True
  then have "take n (log_bytes C rs @ tail) = log_bytes C (take (length rs) rs) @ take (n - log_len rs) tail"
    by (simp add: length_log_bytes)
  then show ?thesis using torn_take [OF assms(2)] by (intro exI [of _ "length rs"] exI) auto
next
  case False
  obtain k tail' where "take n (log_bytes C rs) = log_bytes C (take k rs) @ tail'" "torn C tail'"
    "log_len (take k rs) + length tail' \<le> log_len rs"
    using log_prefix [OF assms(1), of n C] by blast
  then show ?thesis using False by (intro exI [of _ k] exI [of _ tail']) (auto simp: length_log_bytes)
qed

section \<open>The directory after a crash\<close>

text \<open>The files of \<open>L\<close>, each cut after some of its records.\<close>

definition cut_files :: "(u32 \<Rightarrow> nat) \<Rightarrow> files \<Rightarrow> files" where
  "cut_files kept_recs L = map (\<lambda>(fid, rs). (fid, take (kept_recs fid) rs)) L"

lemma cut_files_fst [simp]: "map fst (cut_files kept_recs L) = map fst L"
  by (induction L) (auto simp: cut_files_def)

lemma map_of_cut_files: "map_of (cut_files kept_recs L) fid = map_option (take (kept_recs fid)) (map_of L fid)"
  by (induction L) (auto simp: cut_files_def)

lemma cut_files_Nil [simp]: "cut_files kept_recs L = [] \<longleftrightarrow> L = []"
  by (simp add: cut_files_def)

lemma cut_files_last: "L \<noteq> [] \<Longrightarrow> fst (last (cut_files kept_recs L)) = fst (last L)"
  by (simp add: cut_files_def last_map case_prod_beta)

lemma cut_files_all:
  assumes "\<And>fid rs. (fid, rs) \<in> set L \<Longrightarrow> take (kept_recs fid) rs = rs"
  shows "cut_files kept_recs L = L"
  unfolding cut_files_def by (rule map_idI) (use assms in auto)

lemma crashed_data_file:
  assumes d: "disk C w L T" and w: "world_ok w" and cr: "crashed w w'" "directory_kept w w'" and f: "(fid, rs) \<in> set L"
  shows "\<exists>k tail. file_bytes (data_path fid) w' = Some (log_bytes C (take k rs) @ tail) \<and> torn C tail \<and>
    log_len (take k rs) + length tail < 2 ^ 64 \<and> (durable_file (data_path fid) w \<longrightarrow> take k rs = rs)"
proof -
  note fd = disk_fileD(1-4) [OF d f]
  obtain n where n: "file_bytes (data_path fid) w' = Some (take n (log_bytes C rs @ T fid))"
    using crashed_file(2) [OF cr w fd(4)] by blast
  obtain k tail where p: "take n (log_bytes C rs @ T fid) = log_bytes C (take k rs) @ tail" "torn C tail"
    "log_len (take k rs) + length tail \<le> log_len rs + length (T fid)" "log_len rs \<le> n \<longrightarrow> take k rs = rs"
    using torn_log_prefix [OF fd(1,3), of n] by blast
  have "take k rs = rs" if "durable_file (data_path fid) w"
  proof -
    have "take n (log_bytes C rs @ T fid) = log_bytes C rs @ T fid"
      using crashed_file(3) [OF cr w that] n fd(4) by simp
    then have "length (take n (log_bytes C rs @ T fid)) = log_len rs + length (T fid)" by (simp add: length_log_bytes)
    then have "log_len rs \<le> n" by (simp add: length_log_bytes)
    then show ?thesis using p(4) by blast
  qed
  then show ?thesis using n p(1-3) fd(2) by (intro exI [of _ k] exI [of _ tail]) auto
qed

lemma crashed_disk:
  assumes d: "disk C w L T" and w: "world_ok w" and cr: "crashed w w'" "directory_kept w w'"
    and hd: "hint_damage_detected C w w'" and hs: "hinted_files_synced w"
  obtains kept_recs T' where "disk C w' (cut_files kept_recs L) T'"
    and "\<forall>(fid, rs) \<in> set L. durable_file (data_path fid) w \<longrightarrow> take (kept_recs fid) rs = rs"
proof -
  note cf = crashed_file [OF cr w]
  define good where "good fid k tail \<longleftrightarrow> (\<forall>rs. map_of L fid = Some rs \<longrightarrow>
    file_bytes (data_path fid) w' = Some (log_bytes C (take k rs) @ tail) \<and> torn C tail \<and>
    log_len (take k rs) + length tail < 2 ^ 64 \<and> (durable_file (data_path fid) w \<longrightarrow> take k rs = rs))" for fid k tail
  have "\<exists>k tail. good fid k tail" for fid
    using crashed_data_file [OF d w cr] unfolding good_def by (cases "map_of L fid") (auto dest: map_of_SomeD)
  then obtain kept_recs T' where g: "good fid (kept_recs fid) (T' fid)" for fid by metis
  have m: "map_of L fid = Some rs" if "(fid, rs) \<in> set L" for fid rs using that diskD(2) [OF d] by simp
  have "disk C w' (cut_files kept_recs L) T'"
    unfolding disk_def
  proof (intro conjI allI ballI)
    show "sorted_wrt (<) (map fst (cut_files kept_recs L))" using diskD(1) [OF d] by simp
  next
    fix fid
    show "file_bytes (data_path fid) w' = map_option (\<lambda>rs. log_bytes C rs @ T' fid) (map_of (cut_files kept_recs L) fid)"
      using g [of fid] diskD(3) [OF d, of fid] cf(4) by (cases "map_of L fid") (simp_all add: map_of_cut_files good_def)
  next
    fix x assume "x \<in> set (cut_files kept_recs L)"
    then obtain fid rs where x: "x = (fid, take (kept_recs fid) rs)" and f: "(fid, rs) \<in> set L" by (auto simp: cut_files_def)
    note gf = g [of fid, unfolded good_def, rule_format, OF m [OF f]]
    have "verify_hint_file C hb = None \<or> hint_valid C (take (kept_recs fid) rs) hb" if h: "file_bytes (hint_path fid) w' = Some hb" for hb
    proof (cases "verify_hint_file C hb")
      case (Some b)
      then have h0: "file_bytes (hint_path fid) w = Some hb" using hd h unfolding hint_damage_detected_def by fastforce
      then have "durable_file (data_path fid) w"
        using hs disk_fileD(4) [OF d f] unfolding hinted_files_synced_def by (metis file_bytes_None option.distinct(1))
      then show ?thesis using disk_fileD(5) [OF d f h0] gf by simp
    qed simp
    moreover have "list_all rec_ok (take (kept_recs fid) rs)"
      using disk_fileD(1) [OF d f] by (auto simp: list_all_iff dest: in_set_takeD)
    ultimately show "case x of (fid, rs) \<Rightarrow> list_all rec_ok rs \<and> log_len rs + length (T' fid) < 2 ^ 64 \<and>
        torn C (T' fid) \<and> (\<forall>hb. file_bytes (hint_path fid) w' = Some hb \<longrightarrow> verify_hint_file C hb = None \<or> hint_valid C rs hb)"
      using gf by (simp add: x)
  qed
  moreover have "\<forall>(fid, rs) \<in> set L. durable_file (data_path fid) w \<longrightarrow> take (kept_recs fid) rs = rs"
    using g m unfolding good_def by fastforce
  ultimately show thesis by (rule that)
qed

lemma crashed_closed:
  assumes inv: "eng_inv C (eg, w) L T" and cr: "crashed w w'" "directory_kept w w'"
    and hd: "hint_damage_detected C w w'" and hs: "hinted_files_synced w"
  obtains kept_recs T' where "closed_ok C w' (cut_files kept_recs L) T'"
    and "\<forall>(fid, rs) \<in> set L. durable_file (data_path fid) w \<longrightarrow> take (kept_recs fid) rs = rs"
proof -
  obtain aid where L: "L \<noteq> []" "fst (last L) = aid" and h: "\<forall>fid. lookup (hint_path fid) w \<noteq> None \<longrightarrow> fid < aid"
    and d: "disk C w L T" "world_ok w"
    using inv by (auto simp: eng_inv_def store_ok_def active_ok_def)
  obtain kept_recs T' where "disk C w' (cut_files kept_recs L) T'"
    and k: "\<forall>(fid, rs) \<in> set L. durable_file (data_path fid) w \<longrightarrow> take (kept_recs fid) rs = rs"
    by (rule crashed_disk [OF d cr hd hs]) blast
  moreover have "\<forall>fid. lookup (hint_path fid) w' \<noteq> None \<longrightarrow> fid \<le> fst (last (cut_files kept_recs L))"
    using h crashed_file(1) [OF cr d(2)] L by (auto simp: cut_files_last intro: less_imp_le)
  ultimately have "closed_ok C w' (cut_files kept_recs L) T'"
    using cr(1) L(1) by (simp add: closed_ok_def crashed_def)
  then show thesis using k by (rule that)
qed

section \<open>What survives\<close>

text \<open>
  A store all of whose data files are synced: what opening an empty directory gives (\<open>demo_rep\<close>), and what puts and
  deletes with \<open>sync_on_put\<close> keep (\<open>synced_put\<close>, \<open>synced_delete\<close>). A handle that is dropped without \<open>close\<close> can leave a
  file that is not synced, and no later put syncs it.
\<close>

definition synced_store :: "'h crc32fast \<Rightarrow> options \<Rightarrow> nat \<Rightarrow> engine \<times> world \<Rightarrow> kv \<Rightarrow> bool" where
  "synced_store C opts n = (\<lambda>(eg, w) m.
     (\<exists>L T af. eng_inv C (eg, w) L T \<and> contents L = m \<and> eg_active eg = Some af \<and>
        (\<forall>f \<in> fst ` set L. durable_file (data_path f) w)) \<and> room (Suc n) eg \<and> eg_opts eg = opts)"

lemma active_in_log: "eng_inv C (eg, w) L T \<Longrightarrow> eg_active eg = Some af \<Longrightarrow> af_file_id af \<in> fst ` set L"
  by (auto simp: eng_inv_def store_ok_def active_ok_def)

lemma synced_all:
  assumes "eng_inv C (eg, w) L T" and "eg_active eg = Some af"
  shows "(\<forall>f \<in> fst ` set L. durable_file (data_path f) w) \<longleftrightarrow>
     synced_but (af_file_id af) w L \<and> durable_file (data_path (af_file_id af)) w"
proof
  show "synced_but (af_file_id af) w L \<and> durable_file (data_path (af_file_id af)) w"
    if "\<forall>f \<in> fst ` set L. durable_file (data_path f) w"
    unfolding synced_but_def using bspec [OF that] active_in_log [OF assms] by blast
  show "\<forall>f \<in> fst ` set L. durable_file (data_path f) w"
    if "synced_but (af_file_id af) w L \<and> durable_file (data_path (af_file_id af)) w"
  proof
    fix f assume "f \<in> fst ` set L"
    then show "durable_file (data_path f) w" using that unfolding synced_but_def by metis
  qed
qed

lemma synced_written:
  assumes w: "written C k v (eg, w) L (eg', w') L' T'" and d: "\<forall>f \<in> fst ` set L. durable_file (data_path f) w"
    and inv: "eng_inv C (eg, w) L T" and o: "o_should_sync_on_put (eg_opts eg)"
  shows "\<forall>f \<in> fst ` set L'. durable_file (data_path f) w'"
proof -
  obtain af where af: "eg_active eg = Some af" using inv by (auto simp: eng_inv_def)
  then have "synced_but (af_file_id af) w L" "durable_file (data_path (af_file_id af)) w"
    using d inv synced_all by blast+
  then obtain af' where af': "eg_active eg' = Some af'" and s: "synced_but (af_file_id af') w' L'"
    and du: "durable_file (data_path (af_file_id af')) w'"
    using w af o unfolding written_def by auto
  have "eng_inv C (eg', w') L' T'" using w by (simp add: written_def)
  then show ?thesis using s du synced_all [OF _ af'] by blast
qed

lemma synced_storeE:
  assumes "synced_store C opts n s m"
  obtains eg w L T where "s = (eg, w)" and "eng_inv C (eg, w) L T" and "contents L = m" and "room (Suc n) eg"
    and "eg_opts eg = opts" and "\<forall>f \<in> fst ` set L. durable_file (data_path f) w"
  using assms unfolding synced_store_def by (cases s) auto

lemma synced_storeI:
  assumes "eng_inv C (eg, w) L T" and "contents L = m" and "room (Suc n) eg" and "eg_opts eg = opts"
    and "\<forall>f \<in> fst ` set L. durable_file (data_path f) w"
  shows "synced_store C opts n (eg, w) m"
proof -
  obtain af where "eg_active eg = Some af" using assms(1) by (auto simp: eng_inv_def)
  then show ?thesis unfolding synced_store_def split_conv using assms by blast
qed

lemma synced_write:
  assumes "written C k val (eg, w) L (eg', w') L' T'" and "eng_inv C (eg, w) L T" and "contents L = m"
    and "room (Suc (Suc n)) eg" and "eg_opts eg = opts" and "\<forall>f \<in> fst ` set L. durable_file (data_path f) w"
    and "o_should_sync_on_put opts"
  shows "synced_store C opts n (eg', w') (m(k := val))"
  by (rule synced_storeI [of _ _ _ L' T'])
    (use assms synced_written [OF assms(1,6,2)] in \<open>simp_all add: written_def\<close>)

lemma synced_put:
  assumes "synced_store C opts (Suc n) s m" and "o_should_sync_on_put opts" and "valid_key k" and "sizes_ok k v"
  shows "\<exists>s'. engine_put C k v ts s = Some (Inr (), s') \<and> synced_store C opts n s' (m(k \<mapsto> v))"
proof -
  obtain eg w L T where s: "s = (eg, w)" and h: "eng_inv C (eg, w) L T" "contents L = m" "room (Suc (Suc n)) eg"
    "eg_opts eg = opts" "\<forall>f \<in> fst ` set L. durable_file (data_path f) w"
    using assms(1) by (rule synced_storeE)
  have "k \<noteq> []" "room 2 eg" using assms(3) h(3) by (auto simp: valid_key_def room_def)
  then obtain eg' w' L' T' where "engine_put C k v ts (eg, w) = Some (Inr (), (eg', w'))"
    and "written C k (Some v) (eg, w) L (eg', w') L' T'"
    using engine_put_inv [OF h(1) _ assms(4)] by blast
  then show ?thesis using synced_write [OF _ h assms(2)] s by auto
qed

lemma synced_delete:
  assumes "synced_store C opts (Suc n) s m" and "o_should_sync_on_put opts" and "valid_key k"
  shows "\<exists>s'. engine_delete C k ts s = Some (Inr (), s') \<and> synced_store C opts n s' (m(k := None))"
proof -
  obtain eg w L T where s: "s = (eg, w)" and h: "eng_inv C (eg, w) L T" "contents L = m" "room (Suc (Suc n)) eg"
    "eg_opts eg = opts" "\<forall>f \<in> fst ` set L. durable_file (data_path f) w"
    using assms(1) by (rule synced_storeE)
  have "k \<noteq> []" "length k < 2 ^ 31" "room 2 eg" using assms(3) h(3) by (auto simp: valid_key_def room_def)
  then obtain eg' w' L' T' where "engine_delete C k ts (eg, w) = Some (Inr (), (eg', w'))"
    and "written C k None (eg, w) L (eg', w') L' T'"
    using engine_delete_inv [OF h(1)] by blast
  then show ?thesis using synced_write [OF _ h assms(2)] s by auto
qed

lemma hinted_if_synced: "eng_inv C (eg, w) L T \<Longrightarrow> \<forall>f \<in> fst ` set L. durable_file (data_path f) w \<Longrightarrow> hinted_files_synced w"
proof -
  assume i: "eng_inv C (eg, w) L T" and s: "\<forall>f \<in> fst ` set L. durable_file (data_path f) w"
  have d: "disk C w L T" using i by (auto simp: eng_inv_def store_ok_def)
  have "f \<in> fst ` set L" if "lookup (data_path f) w \<noteq> None" for f
    using that diskD(3) [OF d, of f] by (cases "map_of L f") (force simp: file_bytes_None dest: map_of_SomeD)+
  then show ?thesis using s unfolding hinted_files_synced_def by blast
qed

lemma crash_reopen:
  assumes inv: "eng_inv C (eg, w) L T" and cr: "crashed w w'" "directory_kept w w'"
    and hd: "hint_damage_detected C w w'" and hs: "hinted_files_synced w" and r: "room (n + 2) eg" and flk: "flock_ok flk"
  obtains kept_recs s' where "engine_open C flk (eg_opts eg) w' = (Inr (fst s'), snd s')"
    and "engine_rep C (eg_opts eg) n s' (contents (cut_files kept_recs L))"
    and "\<forall>(fid, rs) \<in> set L. durable_file (data_path fid) w \<longrightarrow> take (kept_recs fid) rs = rs"
proof -
  obtain kept_recs T' where cl: "closed_ok C w' (cut_files kept_recs L) T'"
    and k: "\<forall>(fid, rs) \<in> set L. durable_file (data_path fid) w \<longrightarrow> take (kept_recs fid) rs = rs"
    by (rule crashed_closed [OF inv cr hd hs]) blast
  have L: "L \<noteq> []" "fst (last L) < eg_next_file_id eg" and o: "o_is_read_write (eg_opts eg)"
    "unat (o_max_file_size (eg_opts eg)) \<le> 2 ^ 63"
    using inv by (auto simp: eng_inv_def store_ok_def active_ok_def)
  then have b: "next_id (cut_files kept_recs L) + n + 2 < 2 ^ 32" "n + 1 < 2 ^ 64"
    using r by (simp_all add: next_id_def room_def word_less_nat_alt cut_files_last)
  show thesis using open_refines [OF cl b flk o] that k by blast
qed

section \<open>A crash that loses names\<close>

text \<open>The world without the data files that were not there in \<open>w0\<close>; not a byte of any file is lost.\<close>

definition lose_new_names :: "world \<Rightarrow> world \<Rightarrow> world" where
  "lose_new_names w0 w = w\<lparr>w_dir := filter (\<lambda>(name, _). (\<forall>fid. name \<noteq> data_path fid) \<or> lookup name w0 \<noteq> None) (w_dir w),
     w_locks := []\<rparr>"

lemma map_of_filter_names: "map_of (filter (\<lambda>(k, _). P k) xs) k = (if P k then map_of xs k else None)"
  by (induction xs) auto

lemma lookup_lose: "lookup name (lose_new_names w0 w) =
    (if (\<forall>fid. name \<noteq> data_path fid) \<or> lookup name w0 \<noteq> None then lookup name w else None)"
  using map_of_filter_names [of "\<lambda>name. (\<forall>fid. name \<noteq> data_path fid) \<or> lookup name w0 \<noteq> None" "w_dir w" name]
  by (simp only: lose_new_names_def lookup_def [of name "w\<lparr>w_dir := _, w_locks := _\<rparr>"] lookup_def [of name w]
      world.select_convs world.update_convs) simp

lemma data_of_lose [simp]: "data_of i (lose_new_names w0 w) = data_of i w"
  by (simp add: lose_new_names_def data_of_def)

lemma lose_crashed:
  assumes "world_ok w" and "w_outs w = []"
  shows "crashed w (lose_new_names w0 w)"
proof -
  have "\<exists>n \<ge> d. bs = take n bs" for d and bs :: bytes by (intro exI [of _ "max d (length bs)"]) simp
  moreover have "world_ok (lose_new_names w0 w)"
    using assms(1) by (auto simp: world_ok_def lose_new_names_def intro: distinct_map_filter)
  ultimately show ?thesis using assms(2) by (simp add: crashed_def) (simp add: lose_new_names_def)
qed

lemma lose_closed:
  assumes cl: "closed_ok C w0 L T" and inv: "eng_inv C (eg, w) L' T'" and sub: "set L \<subseteq> set L'"
    and h: "\<forall>fid. lookup (hint_path fid) w \<noteq> None \<longrightarrow> L \<noteq> [] \<and> fid \<le> fst (last L)"
  shows "closed_ok C (lose_new_names w0 w) L T'"
proof -
  let ?w = "lose_new_names w0 w"
  have d0: "disk C w0 L T" using cl by (simp add: closed_ok_def)
  have d: "disk C w L' T'" and w: "world_ok w" "w_outs w = []"
    using inv by (auto simp: eng_inv_def store_ok_def)
  have fb: "file_bytes (hint_path f) ?w = file_bytes (hint_path f) w" for f
    by (simp add: file_bytes_def lookup_lose)
  have df: "file_bytes (data_path f) ?w = (if map_of L f = None then None else file_bytes (data_path f) w)" for f
    using diskD(3) [OF d0, of f] by (auto simp: file_bytes_def lookup_lose split: option.splits)
  have "disk C ?w L T'"
    unfolding disk_def
  proof (intro conjI allI ballI)
    show "sorted_wrt (<) (map fst L)" by (rule diskD(1) [OF d0])
  next
    fix f
    show "file_bytes (data_path f) ?w = map_option (\<lambda>rs. log_bytes C rs @ T' f) (map_of L f)"
    proof (cases "map_of L f")
      case (Some rs)
      then have "(f, rs) \<in> set L'" using sub by (auto dest: map_of_SomeD)
      then show ?thesis using disk_fileD(4) [OF d] Some by (simp add: df)
    qed (simp add: df)
  next
    fix x assume "x \<in> set L"
    then have "x \<in> set L'" using sub by blast
    moreover obtain f rs where x: "x = (f, rs)" by fastforce
    ultimately have f: "(f, rs) \<in> set L'" by simp
    show "case x of (f, rs) \<Rightarrow> list_all rec_ok rs \<and> log_len rs + length (T' f) < 2 ^ 64 \<and> torn C (T' f) \<and>
        (\<forall>hb. file_bytes (hint_path f) ?w = Some hb \<longrightarrow> verify_hint_file C hb = None \<or> hint_valid C rs hb)"
      using disk_fileD(1-3,5) [OF d f] by (simp add: x fb)
  qed
  moreover have "world_ok ?w" "w_outs ?w = []" "w_locks ?w = []"
    using lose_crashed [OF w, of w0] by (simp_all add: crashed_def)
  ultimately show ?thesis using h by (simp add: closed_ok_def lookup_lose)
qed

lemma put_then_lose:
  assumes cl: "closed_ok C w0 L T" and b: "next_id L + n + 3 < 2 ^ 32" and flk: "flock_ok flk"
    and o: "o_is_read_write opts" "unat (o_max_file_size opts) \<le> 2 ^ 63" and k: "k \<noteq> []" "sizes_ok k v"
  obtains s s' s'' where "engine_open C flk opts w0 = (Inr (fst s), snd s)"
    and "engine_put C k v ts s = Some (Inr (), s')" and "crashed (snd s') (lose_new_names w0 (snd s'))"
    and "engine_open C flk opts (lose_new_names w0 (snd s')) = (Inr (fst s''), snd s'')"
    and "engine_rep C opts n s'' (contents L)"
proof -
  have n: "next_id L < 2 ^ 32 - 1" using b by simp
  obtain eg w fid where op: "engine_open C flk opts w0 = (Inr eg, w)" and fid: "unat fid = next_id L"
    and inv: "eng_inv C (eg, w) (L @ [(fid, [])]) (T(fid := []))" and e: "unat (eg_next_file_id eg) = Suc (next_id L)"
    "gc_pending_writes (eg_gc eg) = 0" and lt: "fst ` set L \<subseteq> {f. f < fid}"
    by (rule engine_open_inv [OF cl n flk o]) blast
  obtain af where af: "eg_active eg = Some af" "af_file_id af = fid"
    and h: "\<forall>f. lookup (hint_path f) w \<noteq> None \<longrightarrow> f < fid"
    using inv by (auto simp: eng_inv_def store_ok_def active_ok_def)
  have "room 2 eg" using e b by (simp add: room_def)
  then obtain eg' w' L' T' where put: "engine_put C k v ts (eg, w) = Some (Inr (), (eg', w'))"
    and wr: "written C k (Some v) (eg, w) (L @ [(fid, [])]) (eg', w') L' T'" and ex: "extends w w'"
    and sub: "\<And>af x. eg_active eg = Some af \<Longrightarrow> x \<in> set (L @ [(fid, [])]) \<Longrightarrow> fst x < af_file_id af \<Longrightarrow> x \<in> set L'"
    using engine_put_appended [OF inv k] by blast
  have inv': "eng_inv C (eg', w') L' T'" using wr by (simp add: written_def)
  have L': "set L \<subseteq> set L'" using sub [OF af(1)] lt af(2) by force
  have "L \<noteq> [] \<and> f \<le> fst (last L)" if f: "lookup (hint_path f) w' \<noteq> None" for f
  proof -
    have "lookup (hint_path f) w' = lookup (hint_path f) w" using ex by (simp add: extends_def)
    then have "f < fid" using h f by simp
    then have "unat f < next_id L" using fid by (simp add: word_less_nat_alt)
    then show ?thesis by (auto simp: next_id_def word_le_nat_alt split: if_splits)
  qed
  then have cl': "closed_ok C (lose_new_names w0 w') L T'" by (intro lose_closed [OF cl inv' L']) blast
  have "next_id L + n + 2 < 2 ^ 32" "n + 1 < 2 ^ 64" using b by simp_all
  then obtain s'' where "engine_open C flk opts (lose_new_names w0 w') = (Inr (fst s''), snd s'')"
    and "engine_rep C opts n s'' (contents L)"
    using open_refines [OF cl' _ _ flk o] by blast
  moreover have "crashed w' (lose_new_names w0 w')"
    using inv' by (intro lose_crashed) (auto simp: eng_inv_def store_ok_def)
  ultimately show thesis using that [of "(eg, w)" "(eg', w')" s''] op put by simp
qed

end
