(* ===== verification/Demo.thy ===== *)
theory Demo
  imports Crash
begin

text \<open>
  Concrete parameters and a concrete store, on which the properties are instantiated: the checksum
  \<open>byte_sum\<close>, a lock table, and the engine that opening an empty directory gives.
\<close>

definition toy_flock :: flock where
  "toy_flock i L = (if i \<in> set L then None else Some (i # L))"

lemma toy_flock_ok: "flock_ok toy_flock"
  by (simp add: flock_ok_def toy_flock_def)

lemma id_order: "iteration_order (\<lambda>xs. xs)" "iteration_order rev"
  by (simp_all add: iteration_order_def)

definition sync_options :: options where
  "sync_options = default_options\<lparr>o_should_sync_on_put := True\<rparr>"

definition demo_db :: "engine \<times> world" where
  "demo_db = the (unwrap (engine_open byte_sum toy_flock sync_options empty_world))"

lemma demo_inv:
  obtains eg w where "demo_db = (eg, w)" and "eng_inv byte_sum (eg, w) [(0, [])] (\<lambda>_. [])" and "eg_opts eg = sync_options"
    and "eg_next_file_id eg = 1" and "gc_pending_writes (eg_gc eg) = 0" and "durable_file (data_path 0) w"
proof -
  have n: "next_id [] < 2 ^ 32 - 1" by (simp add: next_id_def)
  have o: "o_is_read_write sync_options" "unat (o_max_file_size sync_options) \<le> 2 ^ 63"
    by (simp_all add: sync_options_def default_options_def)
  obtain eg w fid where e: "engine_open byte_sum toy_flock sync_options empty_world = (Inr eg, w)"
    and f: "unat fid = next_id []" and i: "eng_inv byte_sum (eg, w) ([] @ [(fid, [])]) ((\<lambda>_. [])(fid := []))"
    and p: "eg_opts eg = sync_options" "unat (eg_next_file_id eg) = Suc (next_id [])" "gc_pending_writes (eg_gc eg) = 0"
    and sy: "\<And>f. synced_but f empty_world [] \<Longrightarrow> synced_but f w ([] @ [(fid, [])])"
    by (rule engine_open_inv [OF closed_empty n toy_flock_ok o, of byte_sum]) blast
  have fid: "fid = 0" using f by (simp add: next_id_def word_unat_eq_iff)
  have "eg_next_file_id eg = 1" using p(2) by (simp add: next_id_def word_unat_eq_iff)
  moreover have "durable_file (data_path 0) w" using sy [of 1] fid by (simp add: synced_but_def)
  moreover have "demo_db = (eg, w)" by (simp add: demo_db_def e unwrap_def)
  moreover have "(\<lambda>_. [])(fid := []) = (\<lambda>_ :: u32. [] :: bytes)" by auto
  ultimately show thesis using that [of eg w] i p fid by simp
qed

lemma demo_rep:
  assumes "n < 2 ^ 31"
  shows "engine_rep byte_sum sync_options n demo_db Map.empty" and "synced_store byte_sum sync_options n demo_db Map.empty"
proof -
  obtain eg w where e: "demo_db = (eg, w)" and i: "eng_inv byte_sum (eg, w) [(0, [])] (\<lambda>_. [])"
    and p: "eg_opts eg = sync_options" "eg_next_file_id eg = 1" "gc_pending_writes (eg_gc eg) = 0"
    and d: "durable_file (data_path 0) w"
    by (rule demo_inv)
  have c: "contents [(0, [])] = Map.empty" by (simp add: contents_def fun_eq_iff)
  have r: "room (Suc n) eg" using assms p by (simp add: room_def)
  show "engine_rep byte_sum sync_options n demo_db Map.empty" unfolding e by (rule engine_repI [OF i c r p(1)])
  show "synced_store byte_sum sync_options n demo_db Map.empty"
    unfolding e by (rule synced_storeI [OF i c r p(1)]) (use d in simp)
qed

text \<open>The same with the default options, under which a put is not synced.\<close>

definition default_db :: "engine \<times> world" where
  "default_db = the (unwrap (engine_open byte_sum toy_flock default_options empty_world))"

lemma default_rep:
  assumes "n < 2 ^ 31"
  shows "engine_rep byte_sum default_options n default_db Map.empty"
proof -
  have b: "next_id [] + n + 2 < 2 ^ 32" "n + 1 < 2 ^ 64" using assms by (simp_all add: next_id_def)
  have o: "o_is_read_write default_options" "unat (o_max_file_size default_options) \<le> 2 ^ 63"
    by (simp_all add: default_options_def)
  obtain s where "engine_open byte_sum toy_flock default_options empty_world = (Inr (fst s), snd s)"
    and "engine_rep byte_sum default_options n s (contents [])"
    using open_refines [OF closed_empty b toy_flock_ok o] by blast
  moreover have "contents [] = Map.empty" by (simp add: contents_def fun_eq_iff)
  ultimately show ?thesis by (simp add: default_db_def unwrap_def)
qed

text \<open>The mildest crash: everything is still there, but the handle is gone.\<close>

lemma crashed_dropped:
  assumes "eng_inv C (eg, w) L T"
  shows "crashed w (engine_drop (eg, w))" and "directory_kept w (engine_drop (eg, w))"
    and "hint_damage_detected C w (engine_drop (eg, w))"
proof -
  obtain l where d: "engine_drop (eg, w) = w\<lparr>w_locks := []\<rparr>" and w: "w_outs w = []" "world_ok w"
    using assms by (auto simp: eng_inv_def store_ok_def active_ok_def engine_drop_def dirlock_drop_def)
  have "\<exists>n \<ge> d. bs = take n bs" for d and bs :: bytes
    by (intro exI [of _ "max d (length bs)"]) simp
  moreover have "world_ok (w\<lparr>w_locks := []\<rparr>)" using w(2) by (subst world_ok_cong [of _ w]) simp_all
  ultimately show "crashed w (engine_drop (eg, w))" using w(1) by (simp add: crashed_def d)
  show "directory_kept w (engine_drop (eg, w))" "hint_damage_detected C w (engine_drop (eg, w))"
    by (simp_all add: directory_kept_def hint_damage_detected_def d)
qed

end
