(* ===== verification/Linearize.thy ===== *)
theory Linearize
  imports Interleave Demo CommitSteps
begin

text \<open>
  Concurrent puts, deletes and gets are atomic, whatever the schedule, and all return. What a restart finds is the
  order of the log, which can differ from the order in memory.
\<close>

section \<open>The invariant\<close>

text \<open>
  The engine between the steps of its threads: the index need not be what the log says, but every entry is the
  place of the value that is current.
\<close>

definition entries_at :: "files \<Rightarrow> keydir \<Rightarrow> kv \<Rightarrow> bool" where
  "entries_at L kd V \<longleftrightarrow> (\<forall>k. keydir_get k kd = None \<and> V k = None \<or>
     (\<exists>ent v. keydir_get k kd = Some ent \<and> V k = Some v \<and> located L k ent v))"

lemma entries_at_cases:
  assumes "entries_at L kd V"
  obtains "keydir_get k kd = None" "V k = None"
  | ent v where "keydir_get k kd = Some ent" "V k = Some v" "located L k ent v"
  using assms spec [OF assms [unfolded entries_at_def], of k] by metis

lemma entries_at_mono: "entries_at L kd V \<Longrightarrow> (\<And>k ent v. located L k ent v \<Longrightarrow> located L' k ent v) \<Longrightarrow> entries_at L' kd V"
  unfolding entries_at_def by meson

lemma entries_at_write:
  assumes "entries_at L kd V"
  shows "located L k ent v \<Longrightarrow> entries_at L (keydir_insert k ent kd) (V(k \<mapsto> v))"
    and "entries_at L (snd (keydir_remove k kd)) (V(k := None))"
  using assms by (simp_all add: entries_at_def)

definition live :: "'h crc32fast \<Rightarrow> engine \<times> world \<Rightarrow> files \<Rightarrow> (u32 \<Rightarrow> bytes) \<Rightarrow> kv \<Rightarrow> bool" where
  "live C = (\<lambda>(eg, w) L T V.
     (\<exists>af l. eg_active eg = Some af \<and> eg_write_lock eg = Some l \<and> w_locks w = [l] \<and> lookup LOCK_FILE w = Some l \<and>
        store_ok C (o_max_file_size (eg_opts eg)) ((af, eg_gc eg, eg_next_file_id eg), w) L T) \<and>
     o_is_read_write (eg_opts eg) \<and> unat (o_max_file_size (eg_opts eg)) \<le> 2 ^ 63 \<and>
     keydir_ok (eg_keydir eg) \<and> readers_ok (eg_files eg) w \<and>
     entries_at L (eg_keydir eg) V)"

lemma live_of_inv:
  assumes "eng_inv C (eg, w) L T"
  shows "live C (eg, w) L T (contents L)"
proof -
  have r: "read_inv C (eg_keydir eg) (eg_files eg) w L T"
    using eng_inv_read [OF assms] by (simp add: eg_read_inv_def)
  have "entries_at L (eg_keydir eg) (contents L)"
    unfolding entries_at_def
  proof (intro allI)
    fix k
    show "keydir_get k (eg_keydir eg) = None \<and> contents L k = None \<or>
      (\<exists>ent v. keydir_get k (eg_keydir eg) = Some ent \<and> contents L k = Some v \<and> located L k ent v)"
    proof (cases "keydir_get k (eg_keydir eg)")
      case None
      then show ?thesis using r index_contents [of "eg_keydir eg" L k] by (simp add: read_inv_def)
    next
      case (Some ent)
      then show ?thesis using read_inv_located [OF r Some] by auto
    qed
  qed
  then show ?thesis using assms unfolding live_def eng_inv_def by auto
qed

lemma live_record [simp]: "live C (eg_record x eg, w) L T V = live C (eg, w) L T V"
  by (simp add: live_def eg_record_def)

text \<open>What a call needs in order to succeed.\<close>

fun call_ok :: "call \<Rightarrow> bool" where
  "call_ok (Write (PutW k v ts)) \<longleftrightarrow> valid_key k \<and> sizes_ok k v"
| "call_ok (Write (DeleteW k ts)) \<longleftrightarrow> valid_key k"
| "call_ok (GetCall k) \<longleftrightarrow> True"

fun at_loc :: "files \<Rightarrow> wcall \<Rightarrow> u32 \<times> u64 \<Rightarrow> bool" where
  "at_loc L (PutW k v ts) (fid, pos) \<longleftrightarrow>
     located L k \<lparr>kd_file_id = fid, kd_value_size = of_nat (length v), kd_value_pos = pos, kd_timestamp = ts\<rparr> v"
| "at_loc L (DeleteW k ts) loc \<longleftrightarrow> True"

fun to_append :: "stage \<Rightarrow> bool" where
  "to_append (Called (Write wr)) = True"
| "to_append (Appending wr) = True"
| "to_append _ = False"

section \<open>Every stage keeps it\<close>

lemma live_append:
  assumes live: "live C (eg, w) L T V" and r: "rec_ok (k, v, t, ts)" and room: "room 2 eg"
    and enc: "write_encoded C wr = encode_entry C k v t ts"
  obtains fid pos eg' w' L' T' where
    "append_stage C wr (eg, w) = (if o_should_sync_on_put (eg_opts eg) then Committing wr (fid, pos) (gc_pending_writes (eg_gc eg'))
       else Publishing wr (fid, pos), (eg', w'))"
    and "live C (eg', w') L' T' V" and "\<And>k ent v. located L k ent v \<Longrightarrow> located L' k ent v"
    and "contents L' = (contents L)(k := if t then None else Some v)"
    and "\<not> t \<Longrightarrow> located L' k \<lparr>kd_file_id = fid, kd_value_size = of_nat (length v), kd_value_pos = pos, kd_timestamp = ts\<rparr> v"
    and "gc_pending_writes (eg_gc eg) \<le> gc_pending_writes (eg_gc eg')"
    and "\<And>n. room (Suc n) eg \<Longrightarrow> room n eg'" and "eg_opts eg' = eg_opts eg"
proof -
  let ?m = "o_max_file_size (eg_opts eg)" and ?gc = "eg_gc eg" and ?nid = "eg_next_file_id eg"
  obtain af l where af: "eg_active eg = Some af" "eg_write_lock eg = Some l" "w_locks w = [l]" "lookup LOCK_FILE w = Some l"
    and st: "store_ok C ?m ((af, ?gc, ?nid), w) L T" and m: "unat ?m \<le> 2 ^ 63"
    using live by (auto simp: live_def)
  have nid: "unat ?nid < 2 ^ 32 - 1" and gcb: "unat (gc_pending_writes ?gc) < 2 ^ 64 - 1" using room by (simp_all add: room_def)
  obtain fid pos af1 gc1 nid1 w1 L1 T1 where
    ap: "append_locked ?m (encode_entry C k v t ts) ((af, ?gc, ?nid), w) =
      (Inr (fid, pos, gc_pending_writes ?gc + 1), ((af1, gc1, nid1), w1))"
    and st1: "store_ok C ?m ((af1, gc1, nid1), w1) L1 T1"
    and ix: "\<And>m0. index_files L1 m0 = (index_files L m0)(k := if t then None else
      Some (\<lparr>kd_file_id = fid, kd_value_size = of_nat (length v), kd_value_pos = pos, kd_timestamp = ts\<rparr>, v))"
    and ex: "extends w w1" and "?nid \<le> nid1" and n1: "unat nid1 \<le> Suc (unat ?nid)"
    and p1: "gc_pending_writes gc1 = gc_pending_writes ?gc + 1"
    and "synced_but (af_file_id af) w L \<Longrightarrow> synced_but (af_file_id af1) w1 L1"
    and "gc_max_durable_generation gc1 = gc_pending_writes gc1 \<Longrightarrow> durable_file (data_path (af_file_id af1)) w1"
    and gr: "grows (af_file_id af) L (af_file_id af1) L1" and "fid = af_file_id af"
    by (rule append_locked_ok [OF st r m nid gcb]) blast
  note loc = growsD(3) [OF gr]
  let ?eg = "eg\<lparr>eg_active := Some af1, eg_gc := gc1, eg_next_file_id := nid1\<rparr>"
  have p: "unat (gc_pending_writes gc1) = Suc (unat (gc_pending_writes ?gc))"
    using unat_add_lem [of "gc_pending_writes ?gc" 1] gcb by (simp add: p1)
  have st2: "append_stage C wr (eg, w) = (if o_should_sync_on_put (eg_opts eg) then Committing wr (fid, pos) (gc_pending_writes (eg_gc ?eg))
       else Publishing wr (fid, pos), (?eg, w1))"
    by (simp add: append_stage_def af enc ap p1)
  have "readers_ok (eg_files eg) w1" using live ex by (auto simp: live_def intro: readers_ok_extends)
  moreover have "entries_at L1 (eg_keydir eg) V"
  proof (rule entries_at_mono)
    show "entries_at L (eg_keydir eg) V" using live by (simp add: live_def)
  qed (rule loc)
  ultimately have lv: "live C (?eg, w1) L1 T1 V" using live st1 ex af by (auto simp: live_def extends_def)
  have here: "located L1 k \<lparr>kd_file_id = fid, kd_value_size = of_nat (length v), kd_value_pos = pos, kd_timestamp = ts\<rparr> v"
    if "\<not> t"
  proof -
    have "index_files L1 Map.empty k = Some (\<lparr>kd_file_id = fid, kd_value_size = of_nat (length v), kd_value_pos = pos, kd_timestamp = ts\<rparr>, v)"
      using that by (simp add: ix)
    from index_files_located [OF this] show ?thesis by simp
  qed
  show thesis
  proof (rule that [OF st2 lv loc contents_upd [OF ix] here])
    show "gc_pending_writes (eg_gc eg) \<le> gc_pending_writes (eg_gc ?eg)" using p by (simp add: word_le_nat_alt)
    show "room n ?eg" if "room (Suc n) eg" for n using that n1 p by (simp add: room_def)
  qed simp_all
qed

lemma live_commit:
  assumes live: "live C (eg, w) L T V" and t: "t \<le> gc_pending_writes (eg_gc eg)"
  obtains eg' w' where "commit_stage wr loc t (eg, w) = Some (Publishing wr loc, (eg', w'))"
    and "live C (eg', w') L T V" and "gc_pending_writes (eg_gc eg') = gc_pending_writes (eg_gc eg)"
    and "\<And>n. room n eg' = room n eg" and "eg_opts eg' = eg_opts eg"
proof -
  let ?m = "o_max_file_size (eg_opts eg)" and ?gc = "eg_gc eg"
  obtain af l where af: "eg_active eg = Some af" "eg_write_lock eg = Some l" "w_locks w = [l]" "lookup LOCK_FILE w = Some l"
    and st: "store_ok C ?m ((af, ?gc, eg_next_file_id eg), w) L T"
    using live by (auto simp: live_def)
  have f: "fsync_active (af, w) = (Inr (), (af, mark_durable (bw_file (af_writer af)) w))"
    by (rule fsync_active_ok) (use st in \<open>simp_all add: store_ok_def active_ok_def\<close>)
  have ok: "gc_ok ?gc" using st by (simp add: store_ok_def)
  show thesis
  proof (cases "t \<le> gc_max_durable_generation ?gc")
    case True
    then have "commit_stage wr loc t (eg, w) = Some (Publishing wr loc, (eg\<lparr>eg_active := Some af, eg_gc := ?gc\<rparr>, w))"
      by (simp add: commit_stage_def af gc_commit_returns [OF ok t])
    moreover have "eg\<lparr>eg_active := Some af, eg_gc := ?gc\<rparr> = eg" using af(1) by simp
    ultimately show thesis using that live by simp
  next
    case False
    let ?gc' = "end_sync (gc_pending_writes ?gc) True (snd (begin_sync ?gc))"
    let ?eg = "eg\<lparr>eg_active := Some af, eg_gc := ?gc'\<rparr>" and ?w = "mark_durable (bw_file (af_writer af)) w"
    have c: "commit_stage wr loc t (eg, w) = Some (Publishing wr loc, (?eg, ?w))"
      using False by (simp add: commit_stage_def af gc_commit_returns [OF ok t] f)
    have "extends w ?w" by (rule extends_mark_durable)
    then have "live C (?eg, ?w) L T V"
      using live st store_ok_commit [OF st, of True "bw_file (af_writer af)"] af
      by (auto simp: live_def extends_def intro: readers_ok_extends)
    with c show thesis by (rule that) (simp_all add: room_def)
  qed
qed

lemma live_publish:
  assumes live: "live C (eg, w) L T V" and loc: "at_loc L wr loc"
  shows "live C (publish wr loc eg, w) L T (call_effect (Write wr) V)"
proof -
  have ent: "entries_at L (eg_keydir eg) V" using live by (simp add: live_def)
  show ?thesis
  proof (cases wr)
    case (PutW k v ts)
    obtain fid pos where "loc = (fid, pos)" by fastforce
    then show ?thesis using live loc PutW entries_at_write(1) [OF ent] by (auto simp: live_def eg_record_def)
  next
    case (DeleteW k ts)
    then show ?thesis using live entries_at_write(2) [OF ent, of k] by (auto simp: live_def eg_record_def)
  qed
qed

lemma live_read:
  assumes live: "live C (eg, w) L T V" and loc: "located L k ent v"
  obtains eg' where "read_stage k ent (eg, w) = (Answered (GetCall k) (Inr (Some v)), (eg', w))" and "live C (eg', w) L T V"
    and "eg_gc eg' = eg_gc eg" and "\<And>n. room n eg' = room n eg" and "eg_opts eg' = eg_opts eg"
proof -
  have "disk C w L T" "w_outs w = []" "readers_ok (eg_files eg) w" using live by (auto simp: live_def store_ok_def)
  then obtain fs' where "dfs_read_at (kd_file_id ent) (kd_value_pos ent) (kd_value_size ent) (eg_files eg, w) = (Inr v, (fs', w))"
    and fs': "readers_ok fs' w"
    using dfs_read_located [OF _ _ loc] by blast
  then have "read_value ent (eg, w) = (Inr v, (eg\<lparr>eg_files := fs'\<rparr>, w))"
    by (simp add: read_value_def map_err_def zoom_def)
  then have "read_stage k ent (eg, w) = (Answered (GetCall k) (Inr (Some v)), (eg_record RecordGet (eg\<lparr>eg_files := fs'\<rparr>), w))"
    by (simp add: read_stage_def)
  moreover have "live C (eg\<lparr>eg_files := fs'\<rparr>, w) L T V" using live fs' by (auto simp: live_def)
  ultimately show thesis using that by (simp add: room_def eg_record_def live_def)
qed

section \<open>The invariant of a system\<close>

text \<open>
  What holds of thread \<open>i\<close>, which runs the call \<open>c\<close>: \<open>a\<close> is what the call answers if it has taken effect.
\<close>

fun thread_inv :: "files \<Rightarrow> u64 \<Rightarrow> bytes option option \<Rightarrow> call \<Rightarrow> stage \<Rightarrow> bool" where
  "thread_inv L p a c (Called c') \<longleftrightarrow> c' = c \<and> call_ok c \<and> a = None"
| "thread_inv L p a c (Appending wr) \<longleftrightarrow> c = Write wr \<and> (\<exists>k ts. wr = DeleteW k ts) \<and> call_ok c \<and> a = None"
| "thread_inv L p a c (Committing wr loc t) \<longleftrightarrow> c = Write wr \<and> at_loc L wr loc \<and> t \<le> p \<and> a = None"
| "thread_inv L p a c (Publishing wr loc) \<longleftrightarrow> c = Write wr \<and> at_loc L wr loc \<and> a = None"
| "thread_inv L p a c (Reading k ent) \<longleftrightarrow> c = GetCall k \<and> (\<exists>v. located L k ent v \<and> a = Some (Some v))"
| "thread_inv L p a c (Answered c' r) \<longleftrightarrow> c' = c \<and> (\<exists>x. r = Inr x \<and> a = Some x)"

lemma at_loc_mono: "at_loc L wr loc \<Longrightarrow> (\<And>k ent v. located L k ent v \<Longrightarrow> located L' k ent v) \<Longrightarrow> at_loc L' wr loc"
  by (cases wr; cases loc) auto

lemma thread_inv_mono:
  assumes "thread_inv L p a c th" and "\<And>k ent v. located L k ent v \<Longrightarrow> located L' k ent v" and "p \<le> p'"
  shows "thread_inv L' p' a c th"
  using assms at_loc_mono [of L _ _ L'] by (cases th) (auto intro: order_trans)

text \<open>What one step of a thread leaves, for everybody and for itself.\<close>

definition stepped :: "'h crc32fast \<Rightarrow> call \<Rightarrow> stage \<Rightarrow> engine \<times> world \<Rightarrow> files \<Rightarrow> kv \<Rightarrow> bytes option option \<Rightarrow>
    stage \<Rightarrow> engine \<times> world \<Rightarrow> files \<Rightarrow> (u32 \<Rightarrow> bytes) \<Rightarrow> bool" where
  "stepped C c th = (\<lambda>(eg, w) L V a th' (eg', w') L' T'.
     live C (eg', w') L' T' (if takes_effect th th' then call_effect c V else V) \<and>
     (\<forall>k ent v. located L k ent v \<longrightarrow> located L' k ent v) \<and>
     contents L' = (if is_logged th' \<and> \<not> is_logged th then call_effect c (contents L) else contents L) \<and>
     (takes_effect th th' \<longrightarrow> a = None) \<and>
     thread_inv L' (gc_pending_writes (eg_gc eg')) (if takes_effect th th' then Some (call_answer c V) else a) c th' \<and>
     gc_pending_writes (eg_gc eg) \<le> gc_pending_writes (eg_gc eg') \<and>
     (\<forall>n. room (n + of_bool (to_append th)) eg \<longrightarrow> room (n + of_bool (to_append th')) eg') \<and> eg_opts eg' = eg_opts eg)"

lemma step_append:
  assumes live: "live C (eg, w) L T V" and c: "call_ok (Write wr)" and room: "room 2 eg"
    and th: "th = Called (Write wr) \<or> th = Appending wr"
  shows "\<exists>th' s' L' T'. append_stage C wr (eg, w) = (th', s') \<and> stepped C (Write wr) th (eg, w) L V None th' s' L' T'"
proof -
  obtain k v t ts where wr: "write_encoded C wr = encode_entry C k v t ts" "rec_ok (k, v, t, ts)"
    and eff: "\<And>m. call_effect (Write wr) m = m(k := if t then None else Some v)"
    and here: "\<And>L fid pos. (\<not> t \<Longrightarrow> located L k \<lparr>kd_file_id = fid, kd_value_size = of_nat (length v), kd_value_pos = pos,
        kd_timestamp = ts\<rparr> v) \<Longrightarrow> at_loc L wr (fid, pos)"
  proof (cases wr)
    case (PutW k v ts)
    then show thesis using that [of k v False ts] c by simp
  next
    case (DeleteW k ts)
    then show thesis using that [of k "[]" True ts] c by (simp add: valid_key_def sizes_ok_def)
  qed
  obtain fid pos eg' w' L' T' where
    a: "append_stage C wr (eg, w) = (if o_should_sync_on_put (eg_opts eg) then Committing wr (fid, pos) (gc_pending_writes (eg_gc eg'))
       else Publishing wr (fid, pos), (eg', w'))"
    and lv: "live C (eg', w') L' T' V" and mono: "\<And>k ent v. located L k ent v \<Longrightarrow> located L' k ent v"
    and ct: "contents L' = (contents L)(k := if t then None else Some v)"
    and loc: "\<not> t \<Longrightarrow> located L' k \<lparr>kd_file_id = fid, kd_value_size = of_nat (length v), kd_value_pos = pos, kd_timestamp = ts\<rparr> v"
    and gc: "gc_pending_writes (eg_gc eg) \<le> gc_pending_writes (eg_gc eg')"
    and rm: "\<And>n. room (Suc n) eg \<Longrightarrow> room n eg'" and o: "eg_opts eg' = eg_opts eg"
    by (rule live_append [OF live wr(2) room wr(1)]) blast
  let ?th = "if o_should_sync_on_put (eg_opts eg) then Committing wr (fid, pos) (gc_pending_writes (eg_gc eg')) else Publishing wr (fid, pos)"
  have "\<not> takes_effect th ?th" "is_logged ?th" "\<not> is_logged th" "to_append th" "\<not> to_append ?th" using th by auto
  moreover have "thread_inv L' (gc_pending_writes (eg_gc eg')) None (Write wr) ?th" using here [OF loc] by simp
  ultimately have "stepped C (Write wr) th (eg, w) L V None ?th (eg', w') L' T'"
    using lv mono ct eff gc rm o unfolding stepped_def by simp
  then show ?thesis using a by blast
qed

lemma thread_step_ok:
  assumes live: "live C (eg, w) L T V" and inv: "thread_inv L (gc_pending_writes (eg_gc eg)) a c th"
    and room: "to_append th \<Longrightarrow> room 2 eg"
  shows "\<exists>th' s' L' T'. thread_step C th (eg, w) = Some (th', s') \<and> stepped C c th (eg, w) L V a th' s' L' T'"
proof -
  have rw: "require_write eg = Inr ()" using live by (simp add: live_def require_write_def)
  have ent: "entries_at L (eg_keydir eg) V" using live by (simp add: live_def)
  show ?thesis
  proof (cases th)
    case (Called c')
    then have c: "c' = c" "call_ok c" "a = None" using inv by simp_all
    show ?thesis
    proof (cases c)
      case (Write wr)
      have wr: "write_key wr \<noteq> []" using c(2) Write by (cases wr) (simp_all add: valid_key_def)
      have ap: "\<exists>th' s' L' T'. append_stage C wr (eg, w) = (th', s') \<and> stepped C (Write wr) (Called (Write wr)) (eg, w) L V None th' s' L' T'"
        by (rule step_append [OF live]) (use c Write Called room in auto)
      show ?thesis
      proof (cases wr)
        case (PutW k v ts)
        then have "thread_step C th (eg, w) = Some (append_stage C wr (eg, w))"
          using Called c Write wr rw by simp
        then show ?thesis using ap Called c Write by auto
      next
        case (DeleteW k ts)
        show ?thesis
        proof (cases "keydir_get k (eg_keydir eg)")
          case None
          have V: "V(k := None) = V" using entries_at_cases [OF ent, of k] None by (metis fun_upd_triv option.distinct(1))
          have "stepped C c th (eg, w) L V a (Answered (Write wr) (Inr None)) (eg_record RecordDelete eg, w) L T"
            using live c Write DeleteW Called V by (simp add: stepped_def) (simp add: room_def eg_record_def)
          then show ?thesis using None wr rw Called c Write DeleteW by auto
        next
          case (Some e)
          have "stepped C c th (eg, w) L V a (Appending wr) (eg, w) L T"
            using live c Write DeleteW Called by (simp add: stepped_def)
          then show ?thesis using Some wr rw Called c Write DeleteW by auto
        qed
      qed
    next
      case (GetCall k)
      show ?thesis
      proof (rule entries_at_cases [OF ent, of k])
        assume none: "keydir_get k (eg_keydir eg) = None" "V k = None"
        have "stepped C c th (eg, w) L V a (Answered (GetCall k) (Inr None)) (eg_record RecordGet eg, w) L T"
          using live c GetCall Called none by (simp add: stepped_def) (simp add: room_def eg_record_def)
        then show ?thesis using none Called c GetCall by auto
      next
        fix e v assume some: "keydir_get k (eg_keydir eg) = Some e" "V k = Some v" "located L k e v"
        have "stepped C c th (eg, w) L V a (Reading k e) (eg, w) L T"
          using live c GetCall Called some by (simp add: stepped_def)
        then show ?thesis using some Called c GetCall by auto
      qed
    qed
  next
    case (Appending wr)
    then have c: "c = Write wr" "call_ok c" "a = None" using inv by auto
    have "\<exists>th' s' L' T'. append_stage C wr (eg, w) = (th', s') \<and> stepped C (Write wr) (Appending wr) (eg, w) L V None th' s' L' T'"
      by (rule step_append [OF live]) (use c Appending room in auto)
    then show ?thesis using Appending c by auto
  next
    case (Committing wr loc t)
    then have c: "c = Write wr" "at_loc L wr loc" "t \<le> gc_pending_writes (eg_gc eg)" "a = None" using inv by simp_all
    obtain eg' w' where s: "commit_stage wr loc t (eg, w) = Some (Publishing wr loc, (eg', w'))"
      and l: "live C (eg', w') L T V" and g: "gc_pending_writes (eg_gc eg') = gc_pending_writes (eg_gc eg)"
      and r: "\<And>n. room n eg' = room n eg" and o: "eg_opts eg' = eg_opts eg"
      by (rule live_commit [OF live c(3)]) blast
    have "stepped C c th (eg, w) L V a (Publishing wr loc) (eg', w') L T"
      using l g r o c Committing by (simp add: stepped_def)
    then show ?thesis using s Committing by auto
  next
    case (Publishing wr loc)
    then have c: "c = Write wr" "at_loc L wr loc" "a = None" using inv by simp_all
    have p: "eg_gc (publish wr loc eg) = eg_gc eg" "room n (publish wr loc eg) = room n eg" "eg_opts (publish wr loc eg) = eg_opts eg" for n
      by (cases wr; cases loc; simp add: eg_record_def room_def)+
    have "stepped C c th (eg, w) L V a (Answered (Write wr) (Inr None)) (publish wr loc eg, w) L T"
      using live_publish [OF live c(2)] c p Publishing by (simp add: stepped_def)
    then show ?thesis using Publishing by auto
  next
    case (Reading k e)
    then obtain v where c: "c = GetCall k" "located L k e v" "a = Some (Some v)" using inv by auto
    obtain eg' where s: "read_stage k e (eg, w) = (Answered (GetCall k) (Inr (Some v)), (eg', w))" and l: "live C (eg', w) L T V"
      and g: "eg_gc eg' = eg_gc eg" and r: "\<And>n. room n eg' = room n eg" and o: "eg_opts eg' = eg_opts eg"
      by (rule live_read [OF live c(2)]) blast
    have "stepped C c th (eg, w) L V a (Answered (GetCall k) (Inr (Some v))) (eg', w) L T"
      using l g r o c Reading by (simp add: stepped_def)
    then show ?thesis using s Reading by auto
  next
    case (Answered c' r)
    have "stepped C c th (eg, w) L V a th (eg, w) L T"
      using live inv Answered by (simp add: stepped_def)
    then show ?thesis using Answered by auto
  qed
qed

text \<open>The whole system, started with the calls \<open>calls\<close> on a store that holds \<open>m\<close>.\<close>

definition system_inv :: "'h crc32fast \<Rightarrow> options \<Rightarrow> nat \<Rightarrow> call list \<Rightarrow> kv \<Rightarrow> system \<Rightarrow> bool" where
  "system_inv C opts n calls m sy \<longleftrightarrow> (\<exists>eg w L T. sy_store sy = (eg, w) \<and>
     live C (eg, w) L T (after_calls calls (sy_order sy) m) \<and> contents L = after_calls calls (sy_log sy) m \<and>
     length (sy_threads sy) = length calls \<and>
     distinct (sy_order sy) \<and> set (sy_order sy) \<subseteq> {..<length calls} \<and>
     room (Suc n + count to_append (sy_threads sy)) eg \<and> eg_opts eg = opts \<and>
     (\<forall>i < length calls. thread_inv L (gc_pending_writes (eg_gc eg)) (map_of (answers calls (sy_order sy) m) i) (calls ! i) (sy_threads sy ! i)))"

lemma system_invE:
  assumes "system_inv C opts n calls m sy"
  obtains eg w L T where "sy_store sy = (eg, w)" and "live C (eg, w) L T (after_calls calls (sy_order sy) m)"
    and "contents L = after_calls calls (sy_log sy) m" and "length (sy_threads sy) = length calls"
    and "distinct (sy_order sy)" and "set (sy_order sy) \<subseteq> {..<length calls}"
    and "room (Suc n + count to_append (sy_threads sy)) eg" and "eg_opts eg = opts"
    and "\<And>i. i < length calls \<Longrightarrow> thread_inv L (gc_pending_writes (eg_gc eg)) (map_of (answers calls (sy_order sy) m) i)
      (calls ! i) (sy_threads sy ! i)"
  using assms unfolding system_inv_def by blast

lemma map_of_answers_None: "map_of (answers calls order m) i = None \<longleftrightarrow> i \<notin> set order"
  by (simp add: map_of_eq_None_iff flip: set_map)

lemma room_step:
  assumes "\<forall>n. room (n + of_bool a) eg \<longrightarrow> room (n + of_bool b) eg'" and "room (Suc n + c) eg"
    and "c' + of_bool a = c + of_bool b" and "a \<Longrightarrow> 0 < c"
  shows "room (Suc n + c') eg'"
  using assms(1) [rule_format, of "Suc n + c - of_bool a"] assms(2-4) by (cases a; cases b) auto

lemma system_step_inv:
  assumes inv: "system_inv C opts n calls m sy"
  shows "\<exists>sy'. system_step C i sy = Some sy' \<and> system_inv C opts n calls m sy'"
proof (cases "i < length (sy_threads sy)")
  case False
  then show ?thesis using inv by (simp add: system_step_def)
next
  case True
  let ?ths = "sy_threads sy" and ?order = "sy_order sy"
  let ?th = "?ths ! i" and ?V = "after_calls calls ?order m" and ?ans = "answers calls ?order m"
  obtain eg w L T where s: "sy_store sy = (eg, w)" and live: "live C (eg, w) L T ?V"
    and log: "contents L = after_calls calls (sy_log sy) m" and len: "length ?ths = length calls"
    and order: "distinct ?order" "set ?order \<subseteq> {..<length calls}"
    and room: "room (Suc n + count to_append ?ths) eg" and o: "eg_opts eg = opts"
    and ths: "\<And>j. j < length calls \<Longrightarrow> thread_inv L (gc_pending_writes (eg_gc eg)) (map_of ?ans j) (calls ! j) (?ths ! j)"
    by (rule system_invE [OF inv]) blast
  have i: "i < length calls" using True len by simp
  have pos: "0 < count to_append ?ths" if "to_append ?th"
    using count_pos [of ?th ?ths to_append] that True by simp
  then have "room 2 eg" if "to_append ?th" using room that by (auto intro: room_weaken)
  then obtain th' eg' w' L' T' where st: "thread_step C ?th (eg, w) = Some (th', (eg', w'))"
    and sd: "stepped C (calls ! i) ?th (eg, w) L ?V (map_of ?ans i) th' (eg', w') L' T'"
    using thread_step_ok [OF live, of "map_of ?ans i" "calls ! i" ?th] ths i by force
  note sd = sd [unfolded stepped_def split_conv]
  let ?eff = "takes_effect ?th th'"
  let ?sy = "sy\<lparr>sy_threads := ?ths[i := th'], sy_store := (eg', w'), sy_order := ?order @ (if ?eff then [i] else []),
      sy_log := sy_log sy @ (if is_logged th' \<and> \<not> is_logged ?th then [i] else [])\<rparr>"
  have step: "system_step C i sy = Some ?sy" using True by (simp add: system_step_def s st)
  have none: "map_of ?ans i = None" if ?eff using that sd by simp
  then have new: "i \<notin> set ?order" if ?eff using that map_of_answers_None by blast
  have cnt: "count to_append (?ths[i := th']) + of_bool (to_append ?th) = count to_append ?ths + of_bool (to_append th')"
    by (rule count_update [OF True])
  have room': "room (Suc n + count to_append (?ths[i := th'])) eg'"
    by (rule room_step [OF _ room cnt pos]) (use sd in blast)
  have others: "thread_inv L' (gc_pending_writes (eg_gc eg')) (map_of (answers calls (sy_order ?sy) m) j) (calls ! j) (sy_threads ?sy ! j)"
    if j: "j < length calls" for j
  proof (cases "j = i")
    case True
    have "map_of (answers calls (sy_order ?sy) m) i = (if ?eff then Some (call_answer (calls ! i) ?V) else map_of ?ans i)"
      using none by (auto simp: map_add_def split: option.splits)
    then show ?thesis using True sd i len by simp
  next
    case False
    have "map_of (answers calls (sy_order ?sy) m) j = map_of ?ans j"
      using False by (auto simp: map_add_def split: option.splits)
    moreover have "thread_inv L' (gc_pending_writes (eg_gc eg')) (map_of ?ans j) (calls ! j) (?ths ! j)"
      by (rule thread_inv_mono [of L "gc_pending_writes (eg_gc eg)"]) (use ths j sd in auto)
    ultimately show ?thesis using False by simp
  qed
  have "system_inv C opts n calls m ?sy"
    unfolding system_inv_def
    by (intro exI [of _ eg'] exI [of _ w'] exI [of _ L'] exI [of _ T'])
      (use sd others room' order new i len o log in \<open>auto simp del: count_update\<close>)
  then show ?thesis using step by blast
qed

lemma run_schedule_inv:
  "system_inv C opts n calls m sy \<Longrightarrow> \<exists>sy'. run_schedule C sched sy = Some sy' \<and> system_inv C opts n calls m sy'"
proof (induction sched arbitrary: sy)
  case (Cons i sched)
  obtain sy1 where "system_step C i sy = Some sy1" "system_inv C opts n calls m sy1"
    using system_step_inv [OF Cons.prems] by blast
  then show ?case using Cons.IH [of sy1] by simp
qed simp

lemma start_calls_inv:
  assumes "engine_rep C opts (n + length calls) s m" and "list_all call_ok calls"
  shows "system_inv C opts n calls m (start_calls calls s)"
proof -
  obtain eg w L T where s: "s = (eg, w)" and inv: "eng_inv C (eg, w) L T" and m: "contents L = m"
    and r: "room (Suc (n + length calls)) eg" and o: "eg_opts eg = opts"
    using assms(1) by (rule engine_repE)
  have "count to_append (map Called calls) \<le> length calls"
    using length_filter_le [of to_append "map Called calls"] by (simp add: count_def)
  then have "room (Suc n + count to_append (map Called calls)) eg" using r by (rule_tac room_weaken) auto
  then show ?thesis
    using live_of_inv [OF inv] m o s assms(2)
    by (auto simp: system_inv_def start_calls_def list_all_length intro!: exI [of _ L] exI [of _ T])
qed

lemma run_schedule_append:
  "run_schedule C (sched @ sched') sy = Option.bind (run_schedule C sched sy) (run_schedule C sched')"
  by (induction sched arbitrary: sy) (auto simp: bind_eq_None_conv split: Option.bind_splits)

lemma run_schedule_order: "run_schedule C sched sy = Some sy' \<Longrightarrow> \<exists>later. sy_order sy' = sy_order sy @ later"
proof (induction sched arbitrary: sy)
  case (Cons i sched)
  then obtain sy1 where s: "system_step C i sy = Some sy1" "run_schedule C sched sy1 = Some sy'" by (auto simp: bind_eq_Some_conv)
  have "\<exists>now. sy_order sy1 = sy_order sy @ now" using s(1) by (auto simp: system_step_def split: if_splits)
  then show ?case using Cons.IH [OF s(2)] by auto
qed simp

section \<open>Calls are atomic\<close>

lemma live_get:
  assumes "live C s L T V"
  shows "fst (engine_get k s) = Inr (V k)"
proof -
  obtain eg w where s: "s = (eg, w)" by fastforce
  have ent: "entries_at L (eg_keydir eg) V" using assms s by (simp add: live_def)
  show ?thesis
  proof (rule entries_at_cases [OF ent, of k])
    assume "keydir_get k (eg_keydir eg) = None" "V k = None"
    then show ?thesis by (simp add: s engine_get_def bindE_def)
  next
    fix e v assume e: "keydir_get k (eg_keydir eg) = Some e" "V k = Some v" "located L k e v"
    obtain eg' where "read_stage k e (eg, w) = (Answered (GetCall k) (Inr (Some v)), (eg', w))"
      by (rule live_read [OF assms [unfolded s] e(3)]) blast
    moreover obtain r eg1 w1 where r: "read_value e (eg, w) = (r, (eg1, w1))" by (metis prod.collapse)
    ultimately have "r = Inr v" by (cases r) (simp_all add: read_stage_def)
    then show ?thesis using e r by (simp add: s engine_get_def bindE_def)
  qed
qed

text \<open>
  C14: Concurrent puts, deletes and gets are linearizable, under every schedule: nothing fails or blocks, each call
  takes effect at one moment between its first step and its return, the answers are those of a map on which the
  calls act one after the other in that order, and the store then answers every get as that map does.
\<close>

theorem concurrent_calls_linearizable:
  assumes "engine_rep C opts (n + length calls) s m" and "list_all call_ok calls"
  shows "\<exists>sy1 sy later. run_schedule C sched1 (start_calls calls s) = Some sy1 \<and> run_schedule C sched2 sy1 = Some sy \<and>
    sy_order sy = sy_order sy1 @ later \<and> distinct (sy_order sy) \<and>
    (\<forall>i < length calls. case sy_threads sy ! i of
       Called c \<Rightarrow> i \<notin> set (sy_order sy)
     | Answered c r \<Rightarrow> \<exists>x. r = Inr x \<and> (i, x) \<in> set (answers calls (sy_order sy) m)
     | _ \<Rightarrow> True) \<and>
    (\<forall>k. fst (engine_get k (sy_store sy)) = Inr (after_calls calls (sy_order sy) m k))"
proof -
  obtain sy1 where r1: "run_schedule C sched1 (start_calls calls s) = Some sy1" and i1: "system_inv C opts n calls m sy1"
    using run_schedule_inv [OF start_calls_inv [OF assms]] by blast
  obtain sy where r2: "run_schedule C sched2 sy1 = Some sy" and i2: "system_inv C opts n calls m sy"
    using run_schedule_inv [OF i1] by blast
  obtain later where l: "sy_order sy = sy_order sy1 @ later" using run_schedule_order [OF r2] by blast
  obtain eg w L T where st: "sy_store sy = (eg, w)" and lv: "live C (eg, w) L T (after_calls calls (sy_order sy) m)"
    and d: "distinct (sy_order sy)"
    and ths: "\<And>i. i < length calls \<Longrightarrow> thread_inv L (gc_pending_writes (eg_gc eg)) (map_of (answers calls (sy_order sy) m) i)
      (calls ! i) (sy_threads sy ! i)"
    by (rule system_invE [OF i2]) blast
  have "case sy_threads sy ! i of
       Called c \<Rightarrow> i \<notin> set (sy_order sy)
     | Answered c r \<Rightarrow> \<exists>x. r = Inr x \<and> (i, x) \<in> set (answers calls (sy_order sy) m)
     | _ \<Rightarrow> True" if "i < length calls" for i
    using ths [OF that] map_of_answers_None [of calls "sy_order sy" m i]
    by (auto split: stage.splits dest: map_of_SomeD)
  then have all: "\<forall>i < length calls. case sy_threads sy ! i of
       Called c \<Rightarrow> i \<notin> set (sy_order sy)
     | Answered c r \<Rightarrow> \<exists>x. r = Inr x \<and> (i, x) \<in> set (answers calls (sy_order sy) m)
     | _ \<Rightarrow> True" by blast
  have "\<forall>k. fst (engine_get k (sy_store sy)) = Inr (after_calls calls (sy_order sy) m k)"
    using live_get [OF lv] st by simp
  then show ?thesis using r1 r2 l d all by (intro exI conjI)
qed

section \<open>Calls return\<close>

fun stages_left :: "stage \<Rightarrow> nat" where
  "stages_left (Called c) = 3"
| "stages_left (Appending wr) = 2"
| "stages_left (Committing wr loc t) = 2"
| "stages_left (Publishing wr loc) = 1"
| "stages_left (Reading k ent) = 1"
| "stages_left (Answered c r) = 0"

lemma append_stage_left:
  "append_stage C wr s = (th, s') \<Longrightarrow> \<not> o_should_sync_on_put (eg_opts (fst s)) \<Longrightarrow> stages_left th \<le> 1"
  by (auto simp: append_stage_def split: option.splits prod.splits sum.splits if_splits)

lemma commit_stage_left:
  assumes "commit_stage wr loc t s = Some (th, s')"
  shows "stages_left th \<le> 1"
proof -
  obtain eg w where s: "s = (eg, w)" by fastforce
  show ?thesis
  proof (cases "eg_active eg")
    case (Some af)
    obtain res gc af' w' where "gc_commit t fsync_active (eg_gc eg, (af, w)) = Some (res, (gc, (af', w')))"
      using assms s Some by (auto simp: commit_stage_def)
    then show ?thesis using assms s Some by (cases res) (auto simp: commit_stage_def)
  qed (use assms s in \<open>auto simp: commit_stage_def\<close>)
qed

lemma thread_step_left:
  "thread_step C th s = Some (th', s') \<Longrightarrow> \<not> o_should_sync_on_put (eg_opts (fst s)) \<Longrightarrow>
     stages_left th' \<le> stages_left th - 1"
proof (induction C th s rule: thread_step.induct)
  case (1 C wr eg w)
  then show ?case
    using append_stage_left [of C wr "(eg, w)" th' s'] by (auto split: if_splits sum.splits wcall.splits)
next
  case (3 C wr s)
  then show ?case using append_stage_left [of C wr s th' s'] by simp
next
  case (4 C wr loc t s)
  then show ?case using commit_stage_left [of wr loc t s th' s'] by simp
next
  case (6 C k ent s)
  then show ?case by (auto simp: read_stage_def split: prod.splits sum.splits)
qed (auto split: option.splits)

lemma run_schedule_left:
  assumes "\<not> o_should_sync_on_put opts"
  shows "system_inv C opts n calls m sy \<Longrightarrow> run_schedule C sched sy = Some sy' \<Longrightarrow> i < length (sy_threads sy) \<Longrightarrow>
     stages_left (sy_threads sy' ! i) \<le> stages_left (sy_threads sy ! i) - count_list sched i"
proof (induction sched arbitrary: sy)
  case (Cons j sched)
  then obtain sy1 where s: "system_step C j sy = Some sy1" "run_schedule C sched sy1 = Some sy'" by (auto simp: bind_eq_Some_conv)
  have len: "length (sy_threads sy1) = length (sy_threads sy)" using s(1) by (auto simp: system_step_def split: if_splits)
  have sync: "\<not> o_should_sync_on_put (eg_opts (fst (sy_store sy)))"
    using Cons.prems(1) assms by (auto simp: system_inv_def)
  have inv1: "system_inv C opts n calls m sy1" using system_step_inv [OF Cons.prems(1), of j] s(1) by auto
  have "stages_left (sy_threads sy1 ! i) \<le> stages_left (sy_threads sy ! i) - (if j = i then 1 else 0)"
  proof (cases "j < length (sy_threads sy)")
    case True
    then obtain th s' where "thread_step C (sy_threads sy ! j) (sy_store sy) = Some (th, s')" "sy_threads sy1 = (sy_threads sy)[j := th]"
      using s(1) by (auto simp: system_step_def)
    then show ?thesis
      using thread_step_left [of C "sy_threads sy ! j" "sy_store sy" th s'] sync Cons.prems(3) by (auto simp: nth_list_update)
  next
    case False
    then show ?thesis using s(1) Cons.prems(3) by (simp add: system_step_def)
  qed
  then show ?case using Cons.IH [OF inv1 s(2)] len Cons.prems(3) by (auto split: if_splits)
qed simp

text \<open>
  C15: Without \<open>sync_on_put\<close>, every call returns, successfully, after at most three steps of its thread, whatever the
  other threads do: a schedule that runs each thread three times completes all calls. A step is what a thread does
  between two releases of a lock; no step waits for anything but a lock that another step holds. (With \<open>sync_on_put\<close>
  a call can wait for the fsync of another thread; \<open>commit_always_returns\<close> is about that wait.)
\<close>

theorem concurrent_calls_return:
  assumes "engine_rep C opts (n + length calls) s m" and "list_all call_ok calls" and "\<not> o_should_sync_on_put opts"
    and "\<forall>i < length calls. 3 \<le> count_list sched i"
  shows "\<exists>sy. run_schedule C sched (start_calls calls s) = Some sy \<and>
    (\<forall>i < length calls. \<exists>x. sy_threads sy ! i = Answered (calls ! i) (Inr x) \<and> (i, x) \<in> set (answers calls (sy_order sy) m))"
proof -
  have start: "system_inv C opts n calls m (start_calls calls s)" by (rule start_calls_inv [OF assms(1,2)])
  obtain sy where r: "run_schedule C sched (start_calls calls s) = Some sy" and inv: "system_inv C opts n calls m sy"
    using run_schedule_inv [OF start] by blast
  obtain eg w L T where "sy_store sy = (eg, w)"
    and ths: "\<And>i. i < length calls \<Longrightarrow> thread_inv L (gc_pending_writes (eg_gc eg)) (map_of (answers calls (sy_order sy) m) i)
      (calls ! i) (sy_threads sy ! i)"
    by (rule system_invE [OF inv]) blast
  have "\<exists>x. sy_threads sy ! i = Answered (calls ! i) (Inr x) \<and> (i, x) \<in> set (answers calls (sy_order sy) m)"
    if i: "i < length calls" for i
  proof -
    have "stages_left (sy_threads sy ! i) \<le> stages_left (sy_threads (start_calls calls s) ! i) - count_list sched i"
      using run_schedule_left [OF assms(3) start r, of i] i by (simp add: start_calls_def)
    then have "stages_left (sy_threads sy ! i) = 0" using assms(4) i by (fastforce simp: start_calls_def)
    then show ?thesis using ths [OF i] by (cases "sy_threads sy ! i") (auto dest: map_of_SomeD)
  qed
  then show ?thesis using r by blast
qed

section \<open>What a restart finds\<close>

lemma live_drop:
  assumes "live C (eg, w) L T V"
  shows "closed_ok C (engine_drop (eg, w)) L T" and "L \<noteq> []" and "fst (last L) < eg_next_file_id eg"
proof -
  obtain af l where af: "eg_active eg = Some af" "eg_write_lock eg = Some l" "w_locks w = [l]"
    and o: "w_outs w = []" "world_ok w" "disk C w L T" and b: "bw_buf (af_writer af) = []"
    and h: "\<forall>fid. lookup (hint_path fid) w \<noteq> None \<longrightarrow> fid < af_file_id af"
    and L: "L \<noteq> []" "fst (last L) = af_file_id af" "af_file_id af < eg_next_file_id eg"
    using assms by (auto simp: live_def store_ok_def active_ok_def)
  have "engine_drop (eg, w) = w\<lparr>w_locks := []\<rparr>" by (simp add: engine_drop_def dirlock_drop_def af b)
  moreover have "closed_ok C (w\<lparr>w_locks := []\<rparr>) L T"
    using o L h disk_cong [of "w\<lparr>w_locks := []\<rparr>" w C L T] by (auto simp: closed_ok_def intro: less_imp_le)
  ultimately show "closed_ok C (engine_drop (eg, w)) L T" by simp
  show "L \<noteq> []" "fst (last L) < eg_next_file_id eg" using L by simp_all
qed

lemma system_reopens:
  assumes "system_inv C opts (Suc n) calls m sy" and "flock_ok flk"
  shows "\<exists>s'. engine_open C flk opts (engine_drop (sy_store sy)) = (Inr (fst s'), snd s') \<and>
    engine_rep C opts n s' (after_calls calls (sy_log sy) m)"
proof -
  obtain eg w L T where s: "sy_store sy = (eg, w)" and lv: "live C (eg, w) L T (after_calls calls (sy_order sy) m)"
    and log: "contents L = after_calls calls (sy_log sy) m" and r: "room (Suc (Suc n) + count to_append (sy_threads sy)) eg"
    and o: "eg_opts eg = opts"
    by (rule system_invE [OF assms(1)]) blast
  note d = live_drop [OF lv]
  have opts: "o_is_read_write opts" "unat (o_max_file_size opts) \<le> 2 ^ 63" using lv o by (auto simp: live_def)
  have "next_id L + n + 2 < 2 ^ 32" "n + 1 < 2 ^ 64" using r d(2,3) by (simp_all add: room_def next_id_def word_less_nat_alt)
  from open_refines [OF d(1) this assms(2) opts] show ?thesis by (simp add: s log)
qed

text \<open>
  C16: A restart, at any moment, finds the writes in the order in which they got into the log: the handle dropped
  between any two steps, the next open restores the writes that had been appended by then, in that order.
\<close>

theorem restart_finds_log_order:
  assumes "engine_rep C opts (Suc n + length calls) s m" and "list_all call_ok calls" and "flock_ok flk"
  shows "\<exists>sy s'. run_schedule C sched (start_calls calls s) = Some sy \<and>
    engine_open C flk opts (engine_drop (sy_store sy)) = (Inr (fst s'), snd s') \<and>
    engine_rep C opts n s' (after_calls calls (sy_log sy) m)"
  using run_schedule_inv [OF start_calls_inv [OF assms(1,2)]] system_reopens [OF _ assms(3)] by blast

section \<open>The two orders can differ\<close>

definition after_step :: "system \<Rightarrow> nat \<Rightarrow> stage \<Rightarrow> nat list \<Rightarrow> nat list \<Rightarrow> system \<Rightarrow> bool" where
  "after_step sy i th now logged sy' \<longleftrightarrow> sy_threads sy' = (sy_threads sy)[i := th] \<and>
     sy_order sy' = sy_order sy @ now \<and> sy_log sy' = sy_log sy @ logged"

lemma put_step:
  assumes inv: "system_inv C opts n calls m sy" and i: "i < length (sy_threads sy)"
    and th: "sy_threads sy ! i = Called (Write (PutW k v ts))"
  obtains sy' loc t where "system_step C i sy = Some sy'" and "system_inv C opts n calls m sy'"
    and "after_step sy i (if o_should_sync_on_put opts then Committing (PutW k v ts) loc t else Publishing (PutW k v ts) loc) [] [i] sy'"
proof -
  obtain sy' where st: "system_step C i sy = Some sy'" and inv': "system_inv C opts n calls m sy'"
    using system_step_inv [OF inv] by blast
  obtain eg w L T where s: "sy_store sy = (eg, w)" and lv: "live C (eg, w) L T (after_calls calls (sy_order sy) m)"
    and len: "length (sy_threads sy) = length calls" and r: "room (Suc n + count to_append (sy_threads sy)) eg" and o: "eg_opts eg = opts"
    and ths: "\<And>i. i < length calls \<Longrightarrow> thread_inv L (gc_pending_writes (eg_gc eg)) (map_of (answers calls (sy_order sy) m) i)
      (calls ! i) (sy_threads sy ! i)"
    by (rule system_invE [OF inv]) blast
  have "Write (PutW k v ts) = calls ! i" "call_ok (calls ! i)" using ths [of i] i len th by simp_all
  then have "call_ok (Write (PutW k v ts))" by simp
  then have ok: "k \<noteq> []" "rec_ok (k, v, False, ts)" by (simp_all add: valid_key_def)
  have "0 < count to_append (sy_threads sy)" using count_pos [OF nth_mem [OF i], of to_append] th by simp
  then have r2: "room 2 eg" using r by (auto intro: room_weaken)
  have rw: "require_write eg = Inr ()" using lv by (simp add: live_def require_write_def)
  obtain fid pos eg' w' where "append_stage C (PutW k v ts) (eg, w) = (if o_should_sync_on_put (eg_opts eg)
      then Committing (PutW k v ts) (fid, pos) (gc_pending_writes (eg_gc eg')) else Publishing (PutW k v ts) (fid, pos), (eg', w'))"
    by (rule live_append [OF lv ok(2) r2]) auto
  then have "after_step sy i (if o_should_sync_on_put opts then Committing (PutW k v ts) (fid, pos) (gc_pending_writes (eg_gc eg'))
      else Publishing (PutW k v ts) (fid, pos)) [] [i] sy'"
    using st i th s ok(1) rw o by (auto simp: system_step_def after_step_def)
  with st inv' show thesis by (rule that)
qed

lemma commit_step:
  assumes inv: "system_inv C opts n calls m sy" and i: "i < length (sy_threads sy)" and th: "sy_threads sy ! i = Committing wr loc t"
  obtains sy' where "system_step C i sy = Some sy'" and "system_inv C opts n calls m sy'"
    and "after_step sy i (Publishing wr loc) [] [] sy'"
proof -
  obtain sy' where st: "system_step C i sy = Some sy'" and inv': "system_inv C opts n calls m sy'"
    using system_step_inv [OF inv] by blast
  obtain eg w L T where s: "sy_store sy = (eg, w)" and lv: "live C (eg, w) L T (after_calls calls (sy_order sy) m)"
    and len: "length (sy_threads sy) = length calls"
    and ths: "\<And>i. i < length calls \<Longrightarrow> thread_inv L (gc_pending_writes (eg_gc eg)) (map_of (answers calls (sy_order sy) m) i)
      (calls ! i) (sy_threads sy ! i)"
    by (rule system_invE [OF inv]) blast
  have t: "t \<le> gc_pending_writes (eg_gc eg)" using ths [of i] i len th by simp
  obtain eg' w' where "commit_stage wr loc t (eg, w) = Some (Publishing wr loc, (eg', w'))"
    by (rule live_commit [OF lv t]) blast
  then have "after_step sy i (Publishing wr loc) [] [] sy'"
    using st i th s by (auto simp: system_step_def after_step_def)
  with st inv' show thesis by (rule that)
qed

lemma publish_step:
  assumes inv: "system_inv C opts n calls m sy" and i: "i < length (sy_threads sy)" and th: "sy_threads sy ! i = Publishing wr loc"
  obtains sy' where "system_step C i sy = Some sy'" and "system_inv C opts n calls m sy'"
    and "after_step sy i (Answered (Write wr) (Inr None)) [i] [] sy'"
proof -
  obtain sy' where st: "system_step C i sy = Some sy'" and inv': "system_inv C opts n calls m sy'"
    using system_step_inv [OF inv] by blast
  obtain eg w where s: "sy_store sy = (eg, w)" by fastforce
  have "after_step sy i (Answered (Write wr) (Inr None)) [i] [] sy'"
    using st i th s by (auto simp: system_step_def after_step_def)
  with st inv' show thesis by (rule that)
qed

text \<open>A put that is alone from its append on: two more steps, at most.\<close>

lemma finish_put:
  assumes inv: "system_inv C opts n calls m sy" and i: "i < length (sy_threads sy)"
    and th: "sy_threads sy ! i = (if o_should_sync_on_put opts then Committing wr loc t else Publishing wr loc)"
  obtains sy' where "run_schedule C [i, i] sy = Some sy'" and "system_inv C opts n calls m sy'"
    and "after_step sy i (Answered (Write wr) (Inr None)) [i] [] sy'"
proof (cases "o_should_sync_on_put opts")
  case True
  obtain sy1 where s1: "system_step C i sy = Some sy1" and i1: "system_inv C opts n calls m sy1"
    and a1: "after_step sy i (Publishing wr loc) [] [] sy1"
    by (rule commit_step [OF inv i]) (use th True in auto)
  obtain sy2 where s2: "system_step C i sy1 = Some sy2" and i2: "system_inv C opts n calls m sy2"
    and a2: "after_step sy1 i (Answered (Write wr) (Inr None)) [i] [] sy2"
    by (rule publish_step [OF i1, of i wr loc]) (use a1 i in \<open>auto simp: after_step_def\<close>)
  show thesis by (rule that [of sy2]) (use s1 s2 i2 a1 a2 in \<open>simp_all add: after_step_def\<close>)
next
  case False
  obtain sy1 where s1: "system_step C i sy = Some sy1" and i1: "system_inv C opts n calls m sy1"
    and a1: "after_step sy i (Answered (Write wr) (Inr None)) [i] [] sy1"
    by (rule publish_step [OF inv i]) (use th False in auto)
  obtain sy2 where s2: "system_step C i sy1 = Some sy2" and i2: "system_inv C opts n calls m sy2"
    using system_step_inv [OF i1] by blast
  have "after_step sy1 i (Answered (Write wr) (Inr None)) [] [] sy2"
    using s2 a1 i by (auto simp: system_step_def after_step_def)
  then show thesis using that [of sy2] s1 s2 i2 a1 by (simp add: after_step_def)
qed

text \<open>
  C17: The order of the log and the order in memory can differ, so that a restart changes what the store holds: of two
  puts of one key, the one that appends first can publish last, and then wins until the restart and loses after it.
\<close>

theorem racing_puts_differ_after_restart:
  assumes "engine_rep C opts (n + 3) s m" and "valid_key k" and "sizes_ok k v1" and "sizes_ok k v2" and "flock_ok flk"
  shows "\<exists>sy s'. run_schedule C [0, 1, 1, 1, 0, 0] (start_calls [Write (PutW k v1 t1), Write (PutW k v2 t2)] s) = Some sy \<and>
    sy_threads sy = [Answered (Write (PutW k v1 t1)) (Inr None), Answered (Write (PutW k v2 t2)) (Inr None)] \<and>
    fst (engine_get k (sy_store sy)) = Inr (Some v1) \<and>
    engine_open C flk opts (engine_drop (sy_store sy)) = (Inr (fst s'), snd s') \<and> engine_rep C opts n s' (m(k \<mapsto> v2))"
proof -
  let ?w1 = "PutW k v1 t1" and ?w2 = "PutW k v2 t2"
  let ?calls = "[Write ?w1, Write ?w2]"
  let ?sync = "o_should_sync_on_put opts" let ?appended = "\<lambda>wr loc t. if ?sync then Committing wr loc t else Publishing wr loc"
  let ?start = "start_calls ?calls s"
  have i0: "system_inv C opts (Suc n) ?calls m ?start"
    by (rule start_calls_inv) (use assms in \<open>simp_all add: numeral_3_eq_3\<close>)
  obtain sy1 loc1 g1 where s1: "system_step C 0 ?start = Some sy1" and i1: "system_inv C opts (Suc n) ?calls m sy1"
    and a1: "after_step ?start 0 (?appended ?w1 loc1 g1) [] [0] sy1"
    by (rule put_step [OF i0, of 0 k v1 t1]) (simp_all add: start_calls_def)
  have t1: "sy_threads sy1 = [?appended ?w1 loc1 g1, Called (Write ?w2)]" "sy_order sy1 = []" "sy_log sy1 = [0]"
    using a1 by (simp_all add: after_step_def start_calls_def)
  obtain sy2 loc2 g2 where s2: "system_step C 1 sy1 = Some sy2" and i2: "system_inv C opts (Suc n) ?calls m sy2"
    and a2: "after_step sy1 1 (?appended ?w2 loc2 g2) [] [1] sy2"
    by (rule put_step [OF i1, of 1 k v2 t2]) (simp_all add: t1)
  have t2: "sy_threads sy2 = [?appended ?w1 loc1 g1, ?appended ?w2 loc2 g2]" "sy_order sy2 = []" "sy_log sy2 = [0, 1]"
    using a2 t1 by (simp_all add: after_step_def)
  obtain sy3 where s3: "run_schedule C [1, 1] sy2 = Some sy3" and i3: "system_inv C opts (Suc n) ?calls m sy3"
    and a3: "after_step sy2 1 (Answered (Write ?w2) (Inr None)) [1] [] sy3"
    by (rule finish_put [OF i2, of 1 ?w2 loc2 g2]) (simp_all add: t2)
  have t3: "sy_threads sy3 = [?appended ?w1 loc1 g1, Answered (Write ?w2) (Inr None)]" "sy_order sy3 = [1]" "sy_log sy3 = [0, 1]"
    using a3 t2 by (simp_all add: after_step_def)
  obtain sy4 where s4: "run_schedule C [0, 0] sy3 = Some sy4" and i4: "system_inv C opts (Suc n) ?calls m sy4"
    and a4: "after_step sy3 0 (Answered (Write ?w1) (Inr None)) [0] [] sy4"
    by (rule finish_put [OF i3, of 0 ?w1 loc1 g1]) (simp_all add: t3)
  have t4: "sy_threads sy4 = [Answered (Write ?w1) (Inr None), Answered (Write ?w2) (Inr None)]" "sy_order sy4 = [1, 0]" "sy_log sy4 = [0, 1]"
    using a4 t3 by (simp_all add: after_step_def)
  have "run_schedule C [0, 1] ?start = Some sy2" by (simp add: s1 s2 [unfolded One_nat_def])
  then have "run_schedule C ([0, 1] @ [1, 1] @ [0, 0]) ?start = Some sy4"
    by (simp only: run_schedule_append s3 s4 bind.bind_lunit)
  then have run: "run_schedule C [0, 1, 1, 1, 0, 0] ?start = Some sy4" by simp
  obtain eg w L T where st: "sy_store sy4 = (eg, w)" and lv: "live C (eg, w) L T (after_calls ?calls (sy_order sy4) m)"
    by (rule system_invE [OF i4]) blast
  have "fst (engine_get k (sy_store sy4)) = Inr (Some v1)"
    using live_get [OF lv, of k] st t4(2) by (simp add: after_calls_def)
  moreover obtain s' where "engine_open C flk opts (engine_drop (sy_store sy4)) = (Inr (fst s'), snd s')"
    and "engine_rep C opts n s' (after_calls ?calls (sy_log sy4) m)"
    using system_reopens [OF i4 assms(5)] by blast
  moreover have "after_calls ?calls (sy_log sy4) m = m(k \<mapsto> v2)" using t4(3) by (simp add: after_calls_def)
  ultimately show ?thesis using run t4(1) by auto
qed

section \<open>Instances\<close>

lemma concurrent_calls_linearizable_witness:
  "\<exists>sy1 sy later. run_schedule byte_sum [0, 2, 1] (start_calls [Write (PutW [107] [1] 7), GetCall [107], Write (DeleteW [107] 8)] demo_db) = Some sy1 \<and>
    run_schedule byte_sum [1, 0, 0] sy1 = Some sy \<and> sy_order sy = sy_order sy1 @ later \<and> distinct (sy_order sy)"
proof -
  let ?calls = "[Write (PutW [107] [1] 7), GetCall [107], Write (DeleteW [107] 8)]"
  have r: "engine_rep byte_sum sync_options (5 + length ?calls) demo_db Map.empty" by (rule demo_rep(1)) simp
  have ok: "list_all call_ok ?calls" by (simp add: valid_key_def sizes_ok_def)
  show ?thesis using concurrent_calls_linearizable [OF r ok, of "[0, 2, 1]" "[1, 0, 0]"] by blast
qed

lemma concurrent_calls_return_witness:
  "\<exists>sy. run_schedule byte_sum [0, 1, 0, 1, 0, 1] (start_calls [Write (PutW [107] [1] 7), GetCall [107]] default_db) = Some sy \<and>
    (\<exists>x. sy_threads sy ! 1 = Answered (GetCall [107]) (Inr x))"
proof -
  let ?calls = "[Write (PutW [107] [1] 7), GetCall [107]]" and ?sched = "[0, 1, 0, 1, 0, 1]"
  have r: "engine_rep byte_sum default_options (5 + length ?calls) default_db Map.empty" by (rule default_rep) simp
  have ok: "list_all call_ok ?calls" by (simp add: valid_key_def sizes_ok_def)
  have ns: "\<not> o_should_sync_on_put default_options" by (simp add: default_options_def)
  have three: "\<forall>i < length ?calls. 3 \<le> count_list ?sched i" by (simp add: less_Suc_eq)
  obtain sy where run: "run_schedule byte_sum ?sched (start_calls ?calls default_db) = Some sy"
    and all: "\<forall>i < length ?calls. \<exists>x. sy_threads sy ! i = Answered (?calls ! i) (Inr x) \<and>
      (i, x) \<in> set (answers ?calls (sy_order sy) Map.empty)"
    using concurrent_calls_return [OF r ok ns three] by blast
  have "\<exists>x. sy_threads sy ! 1 = Answered (?calls ! 1) (Inr x)" using all [rule_format, of 1] by auto
  then show ?thesis using run by simp
qed

lemma restart_finds_log_order_witness:
  "\<exists>sy s'. run_schedule byte_sum [0, 0] (start_calls [Write (PutW [107] [1] 7)] demo_db) = Some sy \<and>
    engine_open byte_sum toy_flock sync_options (engine_drop (sy_store sy)) = (Inr (fst s'), snd s') \<and>
    engine_rep byte_sum sync_options 3 s' (after_calls [Write (PutW [107] [1] 7)] (sy_log sy) Map.empty)"
  by (rule restart_finds_log_order [OF demo_rep(1) _ toy_flock_ok]) (simp_all add: valid_key_def sizes_ok_def)

lemma racing_puts_differ_after_restart_witness:
  "\<exists>sy s'. run_schedule byte_sum [0, 1, 1, 1, 0, 0]
      (start_calls [Write (PutW [107] [1] 7), Write (PutW [107] [2] 8)] demo_db) = Some sy \<and>
    sy_threads sy = [Answered (Write (PutW [107] [1] 7)) (Inr None), Answered (Write (PutW [107] [2] 8)) (Inr None)] \<and>
    fst (engine_get [107] (sy_store sy)) = Inr (Some [1]) \<and>
    engine_open byte_sum toy_flock sync_options (engine_drop (sy_store sy)) = (Inr (fst s'), snd s') \<and>
    engine_rep byte_sum sync_options 3 s' [[107] \<mapsto> [2]]"
  by (rule racing_puts_differ_after_restart [OF demo_rep(1) _ _ _ toy_flock_ok]) (simp_all add: valid_key_def sizes_ok_def)

end
