(* ===== verification/MergeLive.thy ===== *)
theory MergeLive
  imports MergeOps Linearize
begin

text \<open>
  Merge while other threads write: puts and deletes run in the windows before the repoints. What they write is
  never lost, and everything else is as it was.
\<close>

section \<open>Writes in a window\<close>

text \<open>
  The calls that another thread makes on the engine while merge is about to repoint a key. (A call that does not
  return would leave the engine as it is; it is shown below that all of them return.)
\<close>

definition run_writes :: "'h crc32fast \<Rightarrow> wcall list \<Rightarrow> engine \<times> world \<Rightarrow> engine \<times> world" where
  "run_writes C wrs s = fold (\<lambda>wr s. case engine_call C (Write wr) s of Some (_, s') \<Rightarrow> s' | None \<Rightarrow> s) wrs s"

definition writes_hook :: "'h crc32fast \<Rightarrow> engine \<Rightarrow> (bytes \<Rightarrow> wcall list) \<Rightarrow> hook" where
  "writes_hook C eg ws key sh =
     (case run_writes C (ws key) (eg_unshare eg sh) of
        (eg', w') \<Rightarrow> (case eg_active eg' of Some af \<Rightarrow> eg_share eg' af w' | None \<Rightarrow> sh))"

definition after_writes :: "wcall list \<Rightarrow> kv \<Rightarrow> kv" where
  "after_writes wrs m = fold (\<lambda>wr. call_effect (Write wr)) wrs m"

lemma run_writes_simps [simp]:
  "run_writes C [] s = s"
  "run_writes C (wr # wrs) s = run_writes C wrs (case engine_call C (Write wr) s of Some (_, s') \<Rightarrow> s' | None \<Rightarrow> s)"
  by (simp_all add: run_writes_def)

lemma after_writes_simps [simp]:
  "after_writes [] m = m" "after_writes (wr # wrs) m = after_writes wrs (call_effect (Write wr) m)"
  by (simp_all add: after_writes_def)

text \<open>An engine in a directory with other files beside its own, in some of which the index has entries, too.\<close>

definition beside :: "'h crc32fast \<Rightarrow> files \<Rightarrow> kv \<Rightarrow> engine \<times> world \<Rightarrow> files \<Rightarrow> (u32 \<Rightarrow> bytes) \<Rightarrow> bool" where
  "beside C outs V = (\<lambda>(eg, w) L T.
     store_beside C (fst ` set outs) (eg, w) L T \<and> o_is_read_write (eg_opts eg) \<and>
     (\<exists>l. eg_write_lock eg = Some l \<and> w_locks w = [l] \<and> lookup LOCK_FILE w = Some l) \<and>
     keydir_ok (eg_keydir eg) \<and> readers_ok (eg_files eg) (hide (fst ` set outs) w) \<and>
     entries_at (L @ outs) (eg_keydir eg) V)"

text \<open>What writes leave of everything else: at most \<open>n\<close> of them, all to keys in \<open>K\<close>.\<close>

definition wrote :: "u32 set \<Rightarrow> bytes set \<Rightarrow> nat \<Rightarrow> kv \<Rightarrow> engine \<times> world \<Rightarrow> files \<Rightarrow> kv \<Rightarrow> engine \<times> world \<Rightarrow> files \<Rightarrow> bool" where
  "wrote ids K n V = (\<lambda>(eg, w) L V' (eg', w') L'.
     \<exists>af af'. eg_active eg = Some af \<and> eg_active eg' = Some af' \<and> grows (af_file_id af) L (af_file_id af') L' \<and>
       untouched ids w w' \<and> eg_next_file_id eg \<le> eg_next_file_id eg' \<and> (\<forall>j. room (n + j) eg \<longrightarrow> room j eg') \<and>
       eg_opts eg' = eg_opts eg \<and> eg_files eg' = eg_files eg \<and> eg_write_lock eg' = eg_write_lock eg \<and>
       (\<forall>k. keydir_get k (eg_keydir eg') = keydir_get k (eg_keydir eg) \<and> V' k = V k \<or>
          k \<in> K \<and> (\<forall>ent. keydir_get k (eg_keydir eg') = Some ent \<longrightarrow> af_file_id af \<le> kd_file_id ent)))"

lemma wrote_refl:
  assumes "eg_active eg = Some af" and "w_outs w = []" and "world_ok w"
  shows "wrote ids {} 0 V (eg, w) L V (eg, w) L"
  using assms untouched_refl by (simp add: wrote_def)

lemma wrote_trans:
  assumes a: "wrote ids K n V (eg, w) L V1 (eg1, w1) L1" and b: "wrote ids K' n' V1 (eg1, w1) L1 V2 (eg2, w2) L2"
  shows "wrote ids (K \<union> K') (n + n') V (eg, w) L V2 (eg2, w2) L2"
proof -
  obtain af af1 where a': "eg_active eg = Some af" "eg_active eg1 = Some af1" "grows (af_file_id af) L (af_file_id af1) L1"
    and ak: "\<And>k. keydir_get k (eg_keydir eg1) = keydir_get k (eg_keydir eg) \<and> V1 k = V k \<or>
      k \<in> K \<and> (\<forall>ent. keydir_get k (eg_keydir eg1) = Some ent \<longrightarrow> af_file_id af \<le> kd_file_id ent)"
    and ar: "\<And>j. room (n + j) eg \<Longrightarrow> room j eg1"
    using a unfolding wrote_def by auto
  obtain af2 where b': "eg_active eg2 = Some af2" "grows (af_file_id af1) L1 (af_file_id af2) L2"
    and bk: "\<And>k. keydir_get k (eg_keydir eg2) = keydir_get k (eg_keydir eg1) \<and> V2 k = V1 k \<or>
      k \<in> K' \<and> (\<forall>ent. keydir_get k (eg_keydir eg2) = Some ent \<longrightarrow> af_file_id af1 \<le> kd_file_id ent)"
    and br: "\<And>j. room (n' + j) eg1 \<Longrightarrow> room j eg2"
    using b a'(2) unfolding wrote_def by auto
  have le: "af_file_id af \<le> af_file_id af1" using growsD(1) [OF a'(3)] .
  have "keydir_get k (eg_keydir eg2) = keydir_get k (eg_keydir eg) \<and> V2 k = V k \<or>
      k \<in> K \<union> K' \<and> (\<forall>ent. keydir_get k (eg_keydir eg2) = Some ent \<longrightarrow> af_file_id af \<le> kd_file_id ent)" for k
    using ak [of k] bk [of k] le by (auto intro: order_trans)
  moreover have "room j eg2" if "room (n + n' + j) eg" for j
    using ar [of "n' + j"] br [of j] that by (simp add: add.assoc)
  ultimately show ?thesis
    using a b a' b' grows_trans [OF a'(3) b'(2)] unfolding wrote_def
    by (auto intro: untouched_trans order_trans)
qed

lemma located_append: "located (L @ L') k ent v \<longleftrightarrow> located L k ent v \<or> located L' k ent v"
  unfolding located_def set_append Un_iff by blast

text \<open>One write.\<close>

lemma append_beside:
  assumes inv: "beside C outs V (eg, w) L T" and r: "rec_ok (k, v, t, ts)" and room: "room 2 eg"
  obtains fid pos eg1 w1 L1 T1 where
    "engine_append (encode_entry C k v t ts) (eg, w) = Some (Inr (fid, pos), (eg1, w1))"
    and "beside C outs V (eg1, w1) L1 T1" and "wrote (fst ` set outs) {} 1 V (eg, w) L V (eg1, w1) L1"
    and "t \<or> located L1 k \<lparr>kd_file_id = fid, kd_value_size = of_nat (length v), kd_value_pos = pos, kd_timestamp = ts\<rparr> v"
    and "\<And>af. eg_active eg = Some af \<Longrightarrow> fid = af_file_id af" and "eg_keydir eg1 = eg_keydir eg"
proof -
  let ?ids = "fst ` set outs"
  have st: "store_beside C ?ids (eg, w) L T" using inv by (simp add: beside_def)
  obtain fid pos eg1 w1 L1 T1 where ap: "engine_append (encode_entry C k v t ts) (eg, w) = Some (Inr (fid, pos), (eg1, w1))"
    and a: "appended C k v t ts (fid, pos) (eg, hide ?ids w) L (eg1, hide ?ids w1) L1 T1" and un: "untouched ?ids w w1"
    by (rule engine_append_beside [OF st r room])
  obtain af af1 where af: "eg_active eg = Some af" "eg_active eg1 = Some af1" and same: "same_but_log eg eg1"
    and st1: "store_ok C (o_max_file_size (eg_opts eg)) ((af1, eg_gc eg1, eg_next_file_id eg1), hide ?ids w1) L1 T1"
    and ix: "\<And>m0. index_files L1 m0 = (index_files L m0)(k := if t then None else
      Some (\<lparr>kd_file_id = fid, kd_value_size = of_nat (length v), kd_value_pos = pos, kd_timestamp = ts\<rparr>, v))"
    and ex: "extends (hide ?ids w) (hide ?ids w1)" and rm: "\<And>n. room (Suc n) eg \<Longrightarrow> room n eg1" and fid: "fid = af_file_id af"
    and nid: "eg_next_file_id eg \<le> eg_next_file_id eg1" and gr: "grows (af_file_id af) L (af_file_id af1) L1"
    using a unfolding appended_def by auto
  note eq = same [unfolded same_but_log_def]
  have lock: "LOCK_FILE \<notin> names_of ?ids" by (auto simp: names_of_def)
  have "store_beside C ?ids (eg1, w1) L1 T1"
    using st st1 eq un nid af by (auto simp: store_beside_def untouched_def)
  moreover have "entries_at (L1 @ outs) (eg_keydir eg1) V"
  proof -
    have "located (L1 @ outs) k ent v" if "located (L @ outs) k ent v" for k ent v
      using that growsD(3) [OF gr, of k ent v] by (auto simp: located_append)
    then show ?thesis using inv entries_at_mono [of "L @ outs"] eq by (auto simp: beside_def)
  qed
  moreover have "lookup LOCK_FILE w1 = Some l" if "lookup LOCK_FILE w = Some l" for l
    using ex lock that unfolding extends_def lookup_hide by presburger
  moreover have "w_locks w1 = w_locks w" using ex by (simp add: extends_def)
  ultimately have b1: "beside C outs V (eg1, w1) L1 T1"
    using inv eq readers_ok_extends [OF _ ex] by (auto simp: beside_def)
  have wr: "wrote ?ids {} 1 V (eg, w) L V (eg1, w1) L1"
    using af gr un nid rm eq by (auto simp: wrote_def)
  have loc: "t \<or> located L1 k \<lparr>kd_file_id = fid, kd_value_size = of_nat (length v), kd_value_pos = pos, kd_timestamp = ts\<rparr> v"
    by (cases t) (auto intro: indexed_located simp: ix)
  show thesis by (rule that [OF ap b1 wr loc]) (use af fid eq in auto)
qed

lemma beside_record [simp]: "beside C outs V (eg_record x eg, w) L T = beside C outs V (eg, w) L T"
  by (simp add: beside_def store_beside_def eg_record_def)

lemma write_beside:
  assumes inv: "beside C outs V (eg, w) L T" and c: "call_ok (Write wr)" and room: "room 2 eg"
  obtains eg' w' L' T' where "engine_call C (Write wr) (eg, w) = Some (Inr None, (eg', w'))"
    and "beside C outs (call_effect (Write wr) V) (eg', w') L' T'"
    and "wrote (fst ` set outs) {write_key wr} 1 V (eg, w) L (call_effect (Write wr) V) (eg', w') L'"
proof (cases wr)
  case (PutW k v ts)
  have ok: "k \<noteq> []" "rec_ok (k, v, False, ts)" using c PutW by (simp_all add: valid_key_def)
  have rw: "require_write eg = Inr ()" using inv by (simp add: beside_def require_write_def)
  obtain fid pos eg1 w1 L1 T1 where ap: "engine_append (encode_entry C k v False ts) (eg, w) = Some (Inr (fid, pos), (eg1, w1))"
    and b: "beside C outs V (eg1, w1) L1 T1" and wr: "wrote (fst ` set outs) {} 1 V (eg, w) L V (eg1, w1) L1"
    and loc: "False \<or> located L1 k \<lparr>kd_file_id = fid, kd_value_size = of_nat (length v), kd_value_pos = pos, kd_timestamp = ts\<rparr> v"
    and fid: "\<And>af. eg_active eg = Some af \<Longrightarrow> fid = af_file_id af" and kd: "eg_keydir eg1 = eg_keydir eg"
    by (rule append_beside [OF inv ok(2) room]) blast
  let ?e = "\<lparr>kd_file_id = fid, kd_value_size = of_nat (length v), kd_value_pos = pos, kd_timestamp = ts\<rparr>"
  let ?eg = "eg_record RecordPut (eg1\<lparr>eg_keydir := keydir_insert k ?e (eg_keydir eg1)\<rparr>)"
  have "engine_call C (Write wr) (eg, w) = Some (Inr None, (?eg, w1))"
    using ok(1) rw ap by (simp add: PutW engine_put_def)
  moreover have "located (L1 @ outs) k ?e v" using loc by (simp add: located_more)
  then have "beside C outs (call_effect (Write wr) V) (?eg, w1) L1 T1"
    using b unfolding beside_record by (auto simp: beside_def store_beside_def PutW intro: entries_at_write(1))
  moreover have "wrote (fst ` set outs) {write_key wr} 1 V (eg, w) L (call_effect (Write wr) V) (?eg, w1) L1"
    using wr fid kd by (auto simp: wrote_def eg_record_def room_def PutW)
  ultimately show thesis by (rule that)
next
  case (DeleteW k ts)
  have ok: "k \<noteq> []" "rec_ok (k, [], True, ts)" using c DeleteW by (simp_all add: valid_key_def sizes_ok_def)
  have rw: "require_write eg = Inr ()" using inv by (simp add: beside_def require_write_def)
  show thesis
  proof (cases "keydir_get k (eg_keydir eg)")
    case None
    have "entries_at (L @ outs) (eg_keydir eg) V" using inv by (simp add: beside_def)
    then have "V k = None" using None by (metis entries_at_cases option.distinct(1))
    then have V: "call_effect (Write wr) V = V" by (simp add: DeleteW fun_upd_idem)
    obtain af where af: "eg_active eg = Some af" "w_outs w = []" "world_ok w"
      using inv by (auto simp: beside_def elim: store_besideE)
    have "engine_call C (Write wr) (eg, w) = Some (Inr None, (eg_record RecordDelete eg, w))"
      using None ok(1) rw by (simp add: DeleteW engine_delete_def)
    moreover have "wrote (fst ` set outs) {write_key wr} 1 V (eg, w) L (call_effect (Write wr) V) (eg_record RecordDelete eg, w) L"
      unfolding V using untouched_refl [OF af(2,3)] af(1) by (simp add: wrote_def eg_record_def room_def)
    ultimately show thesis using that inv by (simp add: V)
  next
    case (Some e)
    obtain fid pos eg1 w1 L1 T1 where ap: "engine_append (encode_entry C k [] True ts) (eg, w) = Some (Inr (fid, pos), (eg1, w1))"
      and b: "beside C outs V (eg1, w1) L1 T1" and wr: "wrote (fst ` set outs) {} 1 V (eg, w) L V (eg1, w1) L1"
      and kd: "eg_keydir eg1 = eg_keydir eg"
      by (rule append_beside [OF inv ok(2) room]) blast
    let ?eg = "eg_record RecordDelete (eg1\<lparr>eg_keydir := snd (keydir_remove k (eg_keydir eg1))\<rparr>)"
    have "engine_call C (Write wr) (eg, w) = Some (Inr None, (?eg, w1))"
      using Some ok(1) rw ap by (simp add: DeleteW engine_delete_def)
    moreover have "beside C outs (call_effect (Write wr) V) (?eg, w1) L1 T1"
      using b unfolding beside_record by (auto simp: beside_def store_beside_def DeleteW intro: entries_at_write(2))
    moreover have "wrote (fst ` set outs) {write_key wr} 1 V (eg, w) L (call_effect (Write wr) V) (?eg, w1) L1"
      using wr kd by (auto simp: wrote_def eg_record_def room_def DeleteW)
    ultimately show thesis by (rule that)
  qed
qed

lemma run_writes_ok:
  assumes "beside C outs V (eg, w) L T" and "list_all (\<lambda>wr. call_ok (Write wr)) wrs" and "room (length wrs + 1) eg"
  shows "\<exists>eg' w' L' T'. run_writes C wrs (eg, w) = (eg', w') \<and> beside C outs (after_writes wrs V) (eg', w') L' T' \<and>
    wrote (fst ` set outs) (write_key ` set wrs) (length wrs) V (eg, w) L (after_writes wrs V) (eg', w') L'"
  using assms
proof (induction wrs arbitrary: V eg w L T)
  case Nil
  obtain af where "eg_active eg = Some af" "w_outs w = []" "world_ok w"
    using Nil by (auto simp: beside_def elim: store_besideE)
  then show ?case using Nil wrote_refl by fastforce
next
  case (Cons wr wrs)
  have ok: "call_ok (Write wr)" "room 2 eg" using Cons.prems(2,3) by (simp_all add: room_def)
  obtain eg1 w1 L1 T1 where c: "engine_call C (Write wr) (eg, w) = Some (Inr None, (eg1, w1))"
    and b: "beside C outs (call_effect (Write wr) V) (eg1, w1) L1 T1"
    and wr: "wrote (fst ` set outs) {write_key wr} 1 V (eg, w) L (call_effect (Write wr) V) (eg1, w1) L1"
    by (rule write_beside [OF Cons.prems(1) ok])
  have "room (length wrs + 1) eg1" using wr Cons.prems(3) by (auto simp: wrote_def)
  then obtain eg' w' L' T' where r: "run_writes C wrs (eg1, w1) = (eg', w')"
    and b': "beside C outs (after_writes wrs (call_effect (Write wr) V)) (eg', w') L' T'"
    and wr': "wrote (fst ` set outs) (write_key ` set wrs) (length wrs) (call_effect (Write wr) V) (eg1, w1) L1
      (after_writes wrs (call_effect (Write wr) V)) (eg', w') L'"
    using Cons.IH [OF b] Cons.prems(2) by auto
  show ?case using c r b' wrote_trans [OF wr wr'] by auto
qed

section \<open>The index during a merge\<close>

text \<open>The files that the merge of an engine replaces: those before its active file.\<close>

definition old_file :: "engine \<Rightarrow> u32 \<Rightarrow> bool" where
  "old_file eg f \<longleftrightarrow> (case eg_active eg of Some af \<Rightarrow> f < af_file_id af | None \<Rightarrow> False)"

definition after_windows :: "(bytes \<Rightarrow> wcall list) \<Rightarrow> bytes list \<Rightarrow> kv \<Rightarrow> kv" where
  "after_windows ws ks m = fold (\<lambda>k. after_writes (ws k)) ks m"

lemma after_windows_snoc [simp]:
  "after_windows ws [] m = m" "after_windows ws (ks @ [k]) m = after_writes (ws k) (after_windows ws ks m)"
  by (simp_all add: after_windows_def)

text \<open>
  \<open>ks\<close> are the keys whose window is over. An entry that still points into an old file is the one the index had at
  the start, and its repoint is queued once it has been visited; a queued repoint that will succeed leads to the
  current value in an output; the windows are those of visited entries, each key has one at most; and a key that no
  window has touched has its old entry.
\<close>

definition live_idx :: "engine \<Rightarrow> (bytes \<Rightarrow> wcall list) \<Rightarrow> kv \<Rightarrow> files \<Rightarrow> (kd_entry \<Rightarrow> bool) \<Rightarrow> keydir \<Rightarrow> kv \<Rightarrow>
    pending_queue \<Rightarrow> bytes list \<Rightarrow> bool" where
  "live_idx eg ws V0 outs D kd V pending ks \<longleftrightarrow>
     V = after_windows ws ks V0 \<and>
     (\<forall>k ent. keydir_get k kd = Some ent \<and> old_file eg (kd_file_id ent) \<longrightarrow>
        keydir_get k (eg_keydir eg) = Some ent \<and> (D ent \<longrightarrow> (\<exists>new_ent. (k, ent, new_ent) \<in> set pending))) \<and>
     (\<forall>(k, old_ent, new_ent) \<in> set pending. old_file eg (kd_file_id old_ent) \<and> \<not> old_file eg (kd_file_id new_ent) \<and>
        (keydir_get k kd = Some old_ent \<longrightarrow> (\<exists>v. V k = Some v \<and> located outs k new_ent v))) \<and>
     distinct (ks @ map fst pending) \<and>
     (\<forall>k \<in> set (ks @ map fst pending). \<exists>ent. keydir_get k (eg_keydir eg) = Some ent \<and> old_file eg (kd_file_id ent) \<and> D ent) \<and>
     (\<forall>k. k \<notin> set (ks @ map fst pending) \<and> (\<forall>k' \<in> set ks. k \<notin> write_key ` set (ws k')) \<longrightarrow>
        keydir_get k kd = keydir_get k (eg_keydir eg))"

lemma live_idxD:
  assumes "live_idx eg ws V0 outs D kd V pending ks"
  shows "V = after_windows ws ks V0"
    and "keydir_get k kd = Some ent \<Longrightarrow> old_file eg (kd_file_id ent) \<Longrightarrow> keydir_get k (eg_keydir eg) = Some ent"
    and "keydir_get k kd = Some ent \<Longrightarrow> old_file eg (kd_file_id ent) \<Longrightarrow> D ent \<Longrightarrow> \<exists>new_ent. (k, ent, new_ent) \<in> set pending"
    and "(k, old_ent, new_ent) \<in> set pending \<Longrightarrow> old_file eg (kd_file_id old_ent)"
    and "(k, old_ent, new_ent) \<in> set pending \<Longrightarrow> \<not> old_file eg (kd_file_id new_ent)"
    and "(k, old_ent, new_ent) \<in> set pending \<Longrightarrow> keydir_get k kd = Some old_ent \<Longrightarrow> \<exists>v. V k = Some v \<and> located outs k new_ent v"
    and "distinct (ks @ map fst pending)"
    and "k \<in> set (ks @ map fst pending) \<Longrightarrow> \<exists>ent. keydir_get k (eg_keydir eg) = Some ent \<and> old_file eg (kd_file_id ent) \<and> D ent"
    and "k \<notin> set (ks @ map fst pending) \<Longrightarrow> (\<And>k'. k' \<in> set ks \<Longrightarrow> k \<notin> write_key ` set (ws k')) \<Longrightarrow>
      keydir_get k kd = keydir_get k (eg_keydir eg)"
  using assms unfolding live_idx_def by fast+

text \<open>One window, and the repoint after it.\<close>

lemma live_idx_window:
  assumes idx: "live_idx eg ws V0 outs D kd V ((k, old_ent, new_ent) # pending) ks"
    and step: "\<And>k'. keydir_get k' kd' = keydir_get k' kd \<and> V' k' = V k' \<or> k' \<in> write_key ` set (ws k) \<and>
      (\<forall>ent. keydir_get k' kd' = Some ent \<longrightarrow> \<not> old_file eg (kd_file_id ent))"
    and V': "V' = after_writes (ws k) V" and ent: "entries_at (X @ outs) kd' V'"
  shows "live_idx eg ws V0 outs D (snd (cas_repoint k old_ent new_ent kd')) V' pending (ks @ [k])"
    and "entries_at (X @ outs) (snd (cas_repoint k old_ent new_ent kd')) V'"
proof -
  let ?kd = "snd (cas_repoint k old_ent new_ent kd')"
  note i = live_idxD [OF idx]
  have old: "old_file eg (kd_file_id old_ent)" "\<not> old_file eg (kd_file_id new_ent)" using i(4,5) [of k old_ent new_ent] by simp_all
  have same: "keydir_get k' kd = Some e \<and> V' k' = V k'" if "keydir_get k' kd' = Some e" "old_file eg (kd_file_id e)" for k' e
    using step [of k'] that by auto
  have get: "keydir_get k' ?kd = (if k' = k \<and> keydir_get k kd' = Some old_ent then Some new_ent else keydir_get k' kd')" for k'
    by (rule keydir_get_cas)
  have old': "keydir_get k' kd = Some e \<and> V' k' = V k' \<and> (k' = k \<longrightarrow> e \<noteq> old_ent)"
    if "keydir_get k' ?kd = Some e" "old_file eg (kd_file_id e)" for k' e
    using that same [of k' e] old(2) by (auto simp: get split: if_splits)
  show "entries_at (X @ outs) ?kd V'"
    unfolding entries_at_def
  proof (intro allI)
    fix k'
    show "keydir_get k' ?kd = None \<and> V' k' = None \<or>
      (\<exists>e v. keydir_get k' ?kd = Some e \<and> V' k' = Some v \<and> located (X @ outs) k' e v)"
    proof (cases "k' = k \<and> keydir_get k kd' = Some old_ent")
      case True
      then have "keydir_get k kd = Some old_ent" "V' k = V k" using same [of k old_ent] old(1) by simp_all
      moreover then obtain v where "V k = Some v" "located outs k new_ent v" using i(6) [of k old_ent new_ent] by auto
      ultimately show ?thesis using True by (auto simp: get located_append)
    next
      case False
      then have "keydir_get k' ?kd = keydir_get k' kd'" by (auto simp: get)
      then show ?thesis using ent unfolding entries_at_def by simp
    qed
  qed
  show "live_idx eg ws V0 outs D ?kd V' pending (ks @ [k])"
    unfolding live_idx_def
  proof (intro conjI allI impI ballI)
    show "V' = after_windows ws (ks @ [k]) V0" using V' i(1) by simp
    show "distinct ((ks @ [k]) @ map fst pending)" using i(7) by auto
  next
    fix k' e assume e: "keydir_get k' ?kd = Some e \<and> old_file eg (kd_file_id e)"
    then show "keydir_get k' (eg_keydir eg) = Some e" using old' i(2) by blast
    assume "D e"
    then obtain n where "(k', e, n) \<in> set ((k, old_ent, new_ent) # pending)" using e old' i(3) by blast
    then show "\<exists>n. (k', e, n) \<in> set pending" using e old' by auto
  next
    fix x assume x: "x \<in> set pending"
    obtain k' e n where x': "x = (k', e, n)" by (cases x)
    have ne: "k' \<noteq> k" using x i(7) unfolding x' by force
    have o: "old_file eg (kd_file_id e)" "\<not> old_file eg (kd_file_id n)" using x i(4,5) [of k' e n] unfolding x' by auto
    have "\<exists>v. V' k' = Some v \<and> located outs k' n v" if "keydir_get k' ?kd = Some e"
      using old' [OF that o(1)] i(6) [of k' e n] x unfolding x' by auto
    then show "case x of (k', e, n) \<Rightarrow> old_file eg (kd_file_id e) \<and> \<not> old_file eg (kd_file_id n) \<and>
        (keydir_get k' ?kd = Some e \<longrightarrow> (\<exists>v. V' k' = Some v \<and> located outs k' n v))"
      using o by (simp add: x')
  next
    fix k' assume "k' \<in> set ((ks @ [k]) @ map fst pending)"
    then show "\<exists>ent. keydir_get k' (eg_keydir eg) = Some ent \<and> old_file eg (kd_file_id ent) \<and> D ent" using i(8) by auto
  next
    fix k' assume k': "k' \<notin> set ((ks @ [k]) @ map fst pending) \<and> (\<forall>k2 \<in> set (ks @ [k]). k' \<notin> write_key ` set (ws k2))"
    then have "keydir_get k' ?kd = keydir_get k' kd" using step [of k'] by (simp add: get)
    also have "\<dots> = keydir_get k' (eg_keydir eg)" by (rule i(9)) (use k' in auto)
    finally show "keydir_get k' ?kd = keydir_get k' (eg_keydir eg)" .
  qed
qed

section \<open>The windows of one flush\<close>

definition old_keys :: "engine \<Rightarrow> bytes set" where
  "old_keys eg = {k. \<exists>ent. keydir_get k (eg_keydir eg) = Some ent \<and> old_file eg (kd_file_id ent)}"

text \<open>How many file ids and writes are still to come: an output for every entry not yet visited, and the windows.\<close>

definition unvisited :: "engine \<Rightarrow> (kd_entry \<Rightarrow> bool) \<Rightarrow> bytes set" where
  "unvisited eg D = {k. \<exists>ent. keydir_get k (eg_keydir eg) = Some ent \<and> old_file eg (kd_file_id ent) \<and> \<not> D ent}"

definition need :: "engine \<Rightarrow> (bytes \<Rightarrow> wcall list) \<Rightarrow> (kd_entry \<Rightarrow> bool) \<Rightarrow> pending_queue \<Rightarrow> nat" where
  "need eg ws D pending = (\<Sum>k \<in> unvisited eg D. Suc (length (ws k))) + (\<Sum>x \<leftarrow> pending. length (ws (fst x)))"

text \<open>What is fixed: the inputs \<open>Lin\<close> are old files, they are all that the index refers to, and the writes are proper.\<close>

definition live_env :: "engine \<Rightarrow> (bytes \<Rightarrow> wcall list) \<Rightarrow> files \<Rightarrow> bool" where
  "live_env eg ws Lin \<longleftrightarrow> (\<forall>x \<in> set Lin. old_file eg (fst x)) \<and>
     (\<forall>k \<in> old_keys eg. list_all (\<lambda>wr. call_ok (Write wr)) (ws k)) \<and>
     (\<forall>k ent. keydir_get k (eg_keydir eg) = Some ent \<and> old_file eg (kd_file_id ent) \<longrightarrow> kd_file_id ent \<in> fst ` set Lin)"

definition live_state :: "'h crc32fast \<Rightarrow> engine \<Rightarrow> (bytes \<Rightarrow> wcall list) \<Rightarrow> kv \<Rightarrow> files \<Rightarrow> files \<Rightarrow> (kd_entry \<Rightarrow> bool) \<Rightarrow>
    pending_queue \<Rightarrow> shared \<Rightarrow> bool" where
  "live_state C eg ws V0 Lin outs D pending sh \<longleftrightarrow> (\<exists>L T V ks. set Lin \<subseteq> set L \<and>
     beside C outs V (eg_unshare eg sh) L T \<and> live_idx eg ws V0 outs D (sh_keydir sh) V pending ks \<and>
     room (need eg ws D pending + 3) (fst (eg_unshare eg sh)) \<and>
     (\<forall>f. old_file eg f \<longrightarrow> f < af_file_id (sh_active sh)))"

lemma live_stateE:
  assumes "live_state C eg ws V0 Lin outs D pending sh"
  obtains L T V ks where "set Lin \<subseteq> set L" and "beside C outs V (eg_unshare eg sh) L T"
    and "live_idx eg ws V0 outs D (sh_keydir sh) V pending ks"
    and "room (need eg ws D pending + 3) (fst (eg_unshare eg sh))"
    and "\<And>f. old_file eg f \<Longrightarrow> f < af_file_id (sh_active sh)"
  using assms unfolding live_state_def by blast

lemma unshare_simps [simp]:
  "eg_keydir (fst (eg_unshare eg sh)) = sh_keydir sh" "eg_files (fst (eg_unshare eg sh)) = sh_files sh"
  "eg_active (fst (eg_unshare eg sh)) = Some (sh_active sh)" "eg_gc (fst (eg_unshare eg sh)) = sh_gc sh"
  "eg_next_file_id (fst (eg_unshare eg sh)) = sh_next_file_id sh" "eg_opts (fst (eg_unshare eg sh)) = eg_opts eg"
  "eg_write_lock (fst (eg_unshare eg sh)) = eg_write_lock eg" "snd (eg_unshare eg sh) = sh_world sh"
  by (simp_all add: eg_unshare_def)

lemma unshare_share:
  "eg_active eg' = Some af \<Longrightarrow> eg_opts eg' = eg_opts eg \<Longrightarrow> eg_write_lock eg' = eg_write_lock eg \<Longrightarrow>
     eg_unshare eg ((eg_share eg' af w)\<lparr>sh_keydir := kd\<rparr>) = (eg'\<lparr>eg_keydir := kd\<rparr>, w)"
  by (simp add: eg_unshare_def eg_share_def)

lemma apply_repoint_ok:
  assumes env: "live_env eg ws Lin" and inv: "live_state C eg ws V0 Lin outs D ((k, old_ent, new_ent) # pending) sh"
    and sh': "sh' = apply_repoint (writes_hook C eg ws) (k, old_ent, new_ent) sh"
  shows "live_state C eg ws V0 Lin outs D pending sh'" and "untouched (fst ` set outs) (sh_world sh) (sh_world sh')"
    and "sh_next_file_id sh \<le> sh_next_file_id sh'"
proof -
  obtain L T V ks where Lin: "set Lin \<subseteq> set L" and b: "beside C outs V (eg_unshare eg sh) L T"
    and idx: "live_idx eg ws V0 outs D (sh_keydir sh) V ((k, old_ent, new_ent) # pending) ks"
    and rm: "room (need eg ws D ((k, old_ent, new_ent) # pending) + 3) (fst (eg_unshare eg sh))"
    and old: "\<And>f. old_file eg f \<Longrightarrow> f < af_file_id (sh_active sh)"
    by (rule live_stateE [OF inv]) blast
  obtain eg1 w1 where us: "eg_unshare eg sh = (eg1, w1)" by fastforce
  have eg1: "eg_keydir eg1 = sh_keydir sh" "eg_active eg1 = Some (sh_active sh)" "eg_opts eg1 = eg_opts eg"
    "eg_write_lock eg1 = eg_write_lock eg" "eg_next_file_id eg1 = sh_next_file_id sh" "w1 = sh_world sh"
    using unshare_simps [of eg sh] unfolding us by simp_all
  have "k \<in> old_keys eg" using live_idxD(8) [OF idx, of k] by (auto simp: old_keys_def)
  then have ok: "list_all (\<lambda>wr. call_ok (Write wr)) (ws k)" using env by (simp add: live_env_def)
  have need: "need eg ws D ((k, old_ent, new_ent) # pending) + 3 = length (ws k) + (need eg ws D pending + 3)"
    by (simp add: need_def)
  have "room (length (ws k) + 1) eg1" using rm us unfolding need by (auto intro: room_weaken)
  then obtain eg2 w2 L2 T2 where r: "run_writes C (ws k) (eg1, w1) = (eg2, w2)"
    and b2: "beside C outs (after_writes (ws k) V) (eg2, w2) L2 T2"
    and wr: "wrote (fst ` set outs) (write_key ` set (ws k)) (length (ws k)) V (eg1, w1) L (after_writes (ws k) V) (eg2, w2) L2"
    using run_writes_ok [OF b [unfolded us] ok] by blast
  obtain af2 where af2: "eg_active eg2 = Some af2" and gr: "grows (af_file_id (sh_active sh)) L (af_file_id af2) L2"
    and un: "untouched (fst ` set outs) w1 w2" and nid: "eg_next_file_id eg1 \<le> eg_next_file_id eg2"
    and rm2: "\<And>j. room (length (ws k) + j) eg1 \<Longrightarrow> room j eg2"
    and same: "eg_opts eg2 = eg_opts eg1" "eg_files eg2 = eg_files eg1" "eg_write_lock eg2 = eg_write_lock eg1"
    and kd: "\<And>k'. keydir_get k' (eg_keydir eg2) = keydir_get k' (eg_keydir eg1) \<and> after_writes (ws k) V k' = V k' \<or>
      k' \<in> write_key ` set (ws k) \<and> (\<forall>ent. keydir_get k' (eg_keydir eg2) = Some ent \<longrightarrow> af_file_id (sh_active sh) \<le> kd_file_id ent)"
    using wr eg1(2) unfolding wrote_def by auto
  let ?kd = "snd (cas_repoint k old_ent new_ent (eg_keydir eg2))"
  have hook: "writes_hook C eg ws k sh = eg_share eg2 af2 w2" by (simp add: writes_hook_def us r af2)
  have sh2: "eg_unshare eg sh' = (eg2\<lparr>eg_keydir := ?kd\<rparr>, w2)"
    unfolding sh' apply_repoint_def split_conv hook Let_def
    by (subst unshare_share [OF af2]) (simp_all add: same eg1 eg_share_def)
  have shw: "sh_world sh' = w2" "sh_keydir sh' = ?kd" "sh_active sh' = af2" "sh_next_file_id sh' = eg_next_file_id eg2"
    unfolding sh' apply_repoint_def split_conv hook Let_def by (simp_all add: eg_share_def)
  have step: "keydir_get k' (eg_keydir eg2) = keydir_get k' (sh_keydir sh) \<and> after_writes (ws k) V k' = V k' \<or>
      k' \<in> write_key ` set (ws k) \<and> (\<forall>ent. keydir_get k' (eg_keydir eg2) = Some ent \<longrightarrow> \<not> old_file eg (kd_file_id ent))" for k'
    using kd [of k'] old unfolding eg1(1) by (meson leD)
  have "entries_at (L2 @ outs) (eg_keydir eg2) (after_writes (ws k) V)" using b2 by (simp add: beside_def)
  note idx2 = live_idx_window [OF idx step refl this]
  show "live_state C eg ws V0 Lin outs D pending sh'"
    unfolding live_state_def
  proof (intro exI conjI allI impI)
    show "set Lin \<subseteq> set L2"
    proof
      fix x assume x: "x \<in> set Lin"
      then have "fst x < af_file_id (sh_active sh)" using env old by (simp add: live_env_def)
      then show "x \<in> set L2" using growsD(2) [OF gr] Lin x by blast
    qed
    show "beside C outs (after_writes (ws k) V) (eg_unshare eg sh') L2 T2"
      using b2 idx2(2) unfolding sh2 by (simp add: beside_def store_beside_def)
    show "live_idx eg ws V0 outs D (sh_keydir sh') (after_writes (ws k) V) pending (ks @ [k])"
      using idx2(1) by (simp add: shw)
    show "room (need eg ws D pending + 3) (fst (eg_unshare eg sh'))"
      using rm2 [of "need eg ws D pending + 3"] rm unfolding need sh2 us by (simp add: room_def)
    show "f < af_file_id (sh_active sh')" if "old_file eg f" for f
      using old [OF that] growsD(1) [OF gr] by (simp add: shw)
  qed
  show "untouched (fst ` set outs) (sh_world sh) (sh_world sh')" using un by (simp add: shw eg1)
  show "sh_next_file_id sh \<le> sh_next_file_id sh'" using nid by (simp add: shw eg1)
qed

lemma repoints_ok:
  assumes "live_env eg ws Lin" and "live_state C eg ws V0 Lin outs D items sh"
    and "w_outs (sh_world sh) = []" and "world_ok (sh_world sh)"
  shows "live_state C eg ws V0 Lin outs D [] (fold (apply_repoint (writes_hook C eg ws)) items sh) \<and>
    untouched (fst ` set outs) (sh_world sh) (sh_world (fold (apply_repoint (writes_hook C eg ws)) items sh)) \<and>
    sh_next_file_id sh \<le> sh_next_file_id (fold (apply_repoint (writes_hook C eg ws)) items sh)"
  using assms(2-4)
proof (induction items arbitrary: sh)
  case Nil
  then show ?case by (simp add: untouched_refl)
next
  case (Cons x items)
  obtain k old_ent new_ent where x: "x = (k, old_ent, new_ent)" by (cases x)
  note r = apply_repoint_ok [OF assms(1) Cons.prems(1) [unfolded x] refl]
  let ?sh = "apply_repoint (writes_hook C eg ws) x sh"
  have w: "w_outs (sh_world ?sh) = []" "world_ok (sh_world ?sh)" using r(2) by (simp_all add: x untouched_def)
  note ih = Cons.IH [OF r(1) [folded x] w]
  show ?case using ih r(2,3) by (auto simp: x intro: untouched_trans order_trans)
qed

section \<open>The outputs beside the store\<close>

lemma durable_file_hide: "durable_file n (hide ids w) \<longleftrightarrow> n \<notin> names_of ids \<and> durable_file n w"
  by (simp add: durable_file_def lookup_hide)

lemma out_inv_hide:
  assumes "w_outs w = []" and "world_ok w" and "mw_ok C mw w crs" and "crs = [] \<or> log_len crs < unat m"
    and "\<forall>(fid, rs) \<in> set Os. output_closed C w fid rs \<and> log_len rs < 2 ^ 64"
    and "sorted_wrt (<) (map fst (Os @ [(current_file_id mw, crs)]))" and "current_file_id mw < nid"
    and "unused_from nid (hide ids w)" and "ids = insert (current_file_id mw) (fst ` set Os)"
  shows "out_inv C m (hide ids w) Os crs (mw, nid, w)"
proof -
  have "same_outside ids (hide ids w) w"
    unfolding same_outside_def
  proof (intro allI impI)
    fix n assume "\<forall>f \<in> ids. n \<noteq> data_path f \<and> n \<noteq> hint_path f"
    then have "n \<notin> names_of ids" by (auto simp: names_of_def)
    then show "lookup n w = lookup n (hide ids w) \<and> file_bytes n w = file_bytes n (hide ids w) \<and>
        (durable_file n (hide ids w) \<longrightarrow> durable_file n w)"
      by (simp add: lookup_hide file_bytes_hide durable_file_hide)
  qed
  moreover have "\<forall>f \<in> ids. lookup (data_path f) (hide ids w) = None \<and> lookup (hint_path f) (hide ids w) = None"
    by (simp add: lookup_hide)
  ultimately show ?thesis using assms by (simp add: out_inv_def)
qed

text \<open>Seen without the outputs, a step of the merge writer does nothing.\<close>

lemma same_outside_hide:
  assumes "same_outside ids' (hide ids w) w'"
    and "\<forall>f \<in> ids'. lookup (data_path f) (hide ids w) = None \<and> lookup (hint_path f) (hide ids w) = None"
  shows "lookup n (hide ids' w') = lookup n (hide ids w)" and "file_bytes n (hide ids' w') = file_bytes n (hide ids w)"
proof -
  have "lookup n (hide ids' w') = lookup n (hide ids w) \<and> file_bytes n (hide ids' w') = file_bytes n (hide ids w)"
  proof (cases "n \<in> names_of ids'")
    case True
    then have "lookup n (hide ids w) = None" using assms(2) by (auto simp: names_of_def)
    then show ?thesis using True by (simp add: lookup_hide file_bytes_hide file_bytes_def)
  next
    case False
    then have out: "\<forall>f \<in> ids'. n \<noteq> data_path f \<and> n \<noteq> hint_path f" by (auto simp: names_of_def)
    have "lookup n w' = lookup n (hide ids w)" "file_bytes n w' = file_bytes n (hide ids w)"
      using assms(1) out unfolding same_outside_def by blast+
    then show ?thesis using False by (simp add: lookup_hide file_bytes_hide)
  qed
  then show "lookup n (hide ids' w') = lookup n (hide ids w)" "file_bytes n (hide ids' w') = file_bytes n (hide ids w)"
    by simp_all
qed

lemma store_ok_same_files:
  assumes "store_ok C m ((af, gc, nid), w) L T" and "\<And>n. lookup n w' = lookup n w" and "\<And>n. file_bytes n w' = file_bytes n w"
    and "w_outs w' = []" and "world_ok w'" and "nid \<le> nid'"
  shows "store_ok C m ((af, gc, nid'), w') L T"
proof -
  have "disk C w' L T" using assms(1) disk_cong [of w' w C L T] assms(3) by (simp add: store_ok_def)
  moreover have "active_ok m af nid' w' L T"
    using assms(1,2,6) by (auto simp: store_ok_def active_ok_def intro: order_less_le_trans)
  ultimately show ?thesis using assms by (simp add: store_ok_def)
qed

lemma mw_ok_untouched:
  assumes "mw_ok C mw w crs" and "untouched ids w w'" and "world_ok w" and "current_file_id mw \<in> ids"
  shows "mw_ok C mw w' crs"
proof -
  have n: "data_path (current_file_id mw) \<in> names_of ids" "hint_path (current_file_id mw) \<in> names_of ids" using assms(4) by simp_all
  note m = assms(1) [unfolded mw_ok_def]
  have "data_of (bw_file (af_writer (mw_data mw))) w' = data_of (bw_file (af_writer (mw_data mw))) w"
    by (rule untouched_file(4) [OF assms(2,3) n(1)]) (use m in blast)
  moreover have "data_of (bw_file (mw_hint mw)) w' = data_of (bw_file (mw_hint mw)) w"
    by (rule untouched_file(4) [OF assms(2,3) n(2)]) (use m in blast)
  ultimately show ?thesis
    using m untouched_file(1) [OF assms(2,3)] n by (simp add: mw_ok_def bw_contents_def)
qed

section \<open>The invariant of the copying loops\<close>

definition outs_of :: "files \<Rightarrow> log_rec list \<Rightarrow> 'h copy_state \<Rightarrow> files" where
  "outs_of Os crs cs = Os @ [(current_file_id (cs_writer cs), crs)]"

lemma fst_outs_of [simp]: "fst ` set (outs_of Os crs cs) = insert (current_file_id (cs_writer cs)) (fst ` set Os)"
  by (simp add: outs_of_def)

definition live_inv :: "'h crc32fast \<Rightarrow> engine \<Rightarrow> (bytes \<Rightarrow> wcall list) \<Rightarrow> kv \<Rightarrow> files \<Rightarrow> (kd_entry \<Rightarrow> bool) \<Rightarrow> files \<Rightarrow>
    log_rec list \<Rightarrow> 'h copy_state \<Rightarrow> bool" where
  "live_inv C eg ws V0 Lin D Os crs cs \<longleftrightarrow>
     out_inv C (o_max_file_size (eg_opts eg)) (hide (fst ` set (outs_of Os crs cs)) (sh_world (cs_sh cs))) Os crs
       (cs_writer cs, sh_next_file_id (cs_sh cs), sh_world (cs_sh cs)) \<and>
     (\<forall>f \<in> fst ` set (outs_of Os crs cs). \<not> old_file eg f) \<and>
     live_state C eg ws V0 Lin (outs_of Os crs cs) D (cs_pending cs) (cs_sh cs)"

text \<open>What follows of the store from the invariant of what is beside it.\<close>

lemma live_state_store:
  assumes "live_state C eg ws V0 Lin outs D pending sh"
  obtains L T where "store_ok C (o_max_file_size (eg_opts eg)) ((sh_active sh, sh_gc sh, sh_next_file_id sh), hide (fst ` set outs) (sh_world sh)) L T"
    and "world_ok (sh_world sh)" and "w_outs (sh_world sh) = []" and "set Lin \<subseteq> set L"
    and "unused_from (sh_next_file_id sh) (hide (fst ` set outs) (sh_world sh))" and "unat (o_max_file_size (eg_opts eg)) \<le> 2 ^ 63"
proof -
  obtain L T V ks where Lin: "set Lin \<subseteq> set L" and b: "beside C outs V (eg_unshare eg sh) L T"
    by (rule live_stateE [OF assms]) blast
  obtain eg1 w1 where us: "eg_unshare eg sh = (eg1, w1)" by fastforce
  have eg1: "eg_active eg1 = Some (sh_active sh)" "eg_opts eg1 = eg_opts eg" "eg_gc eg1 = sh_gc sh"
    "eg_next_file_id eg1 = sh_next_file_id sh" "w1 = sh_world sh"
    using unshare_simps [of eg sh] unfolding us by simp_all
  have st: "store_ok C (o_max_file_size (eg_opts eg)) ((sh_active sh, sh_gc sh, sh_next_file_id sh), hide (fst ` set outs) (sh_world sh)) L T"
    and "world_ok (sh_world sh)" "unat (o_max_file_size (eg_opts eg)) \<le> 2 ^ 63"
    using b unfolding us by (auto simp: beside_def store_beside_def eg1)
  moreover have "disk C (hide (fst ` set outs) (sh_world sh)) L T" "w_outs (sh_world sh) = []"
    "active_ok (o_max_file_size (eg_opts eg)) (sh_active sh) (sh_next_file_id sh) (hide (fst ` set outs) (sh_world sh)) L T"
    using st by (simp_all add: store_ok_def)
  ultimately show thesis using that [OF st] Lin unused_from_next by blast
qed

lemma drain_repoints_simps:
  "cs_writer (drain_repoints h cs) = cs_writer cs" "cs_pending (drain_repoints h cs) = []"
  "cs_sh (drain_repoints h cs) = fold (apply_repoint h) (cs_pending cs) (cs_sh cs)"
  by (simp_all add: drain_repoints_def apply_pending_repoints_def pq_drain_all_def Let_def)

lemma live_inv_drain:
  assumes env: "live_env eg ws Lin" and inv: "live_inv C eg ws V0 Lin D Os crs cs"
  shows "live_inv C eg ws V0 Lin D Os crs (drain_repoints (writes_hook C eg ws) cs)"
    and "cs_writer (drain_repoints (writes_hook C eg ws) cs) = cs_writer cs"
    and "cs_pending (drain_repoints (writes_hook C eg ws) cs) = []"
proof -
  let ?m = "o_max_file_size (eg_opts eg)" let ?mw = "cs_writer cs" and ?outs = "outs_of Os crs cs" let ?ids = "fst ` set ?outs"
  define sh' where "sh' = fold (apply_repoint (writes_hook C eg ws)) (cs_pending cs) (cs_sh cs)"
  have cs': "drain_repoints (writes_hook C eg ws) cs = cs\<lparr>cs_sh := sh', cs_pending := []\<rparr>"
    by (simp add: drain_repoints_def apply_pending_repoints_def pq_drain_all_def sh'_def Let_def)
  show "cs_writer (drain_repoints (writes_hook C eg ws) cs) = ?mw" "cs_pending (drain_repoints (writes_hook C eg ws) cs) = []"
    by (simp_all add: cs')
  have out: "out_inv C ?m (hide ?ids (sh_world (cs_sh cs))) Os crs (?mw, sh_next_file_id (cs_sh cs), sh_world (cs_sh cs))"
    and st: "live_state C eg ws V0 Lin ?outs D (cs_pending cs) (cs_sh cs)" using inv by (simp_all only: live_inv_def)
  have w: "w_outs (sh_world (cs_sh cs)) = []" "world_ok (sh_world (cs_sh cs))" using out by (simp_all add: out_inv_def)
  have st': "live_state C eg ws V0 Lin ?outs D [] sh'" and un: "untouched ?ids (sh_world (cs_sh cs)) (sh_world sh')"
    and nid: "sh_next_file_id (cs_sh cs) \<le> sh_next_file_id sh'"
    using repoints_ok [OF env st w] by (simp_all only: sh'_def)
  have unused: "unused_from (sh_next_file_id sh') (hide ?ids (sh_world sh'))"
    by (rule live_state_store [OF st'])
  have closed: "\<forall>(fid, rs) \<in> set Os. output_closed C (sh_world sh') fid rs \<and> log_len rs < 2 ^ 64"
  proof (intro ballI, clarify)
    fix fid rs assume x: "(fid, rs) \<in> set Os"
    then have old: "output_closed C (sh_world (cs_sh cs)) fid rs \<and> log_len rs < 2 ^ 64" using out by (auto simp: out_inv_def)
    have "fid \<in> ?ids" using x by force
    then have n: "data_path fid \<in> names_of ?ids" "hint_path fid \<in> names_of ?ids" by (simp_all only: in_names_of)
    note fr = untouched_file [OF un w(2)]
    have "output_closed C (sh_world sh') fid rs"
      by (rule output_closed_frame [OF conjunct1 [OF old] fr(2) [OF n(1)] fr(2) [OF n(2)] fr(3) [OF n(1)]])
    then show "output_closed C (sh_world sh') fid rs \<and> log_len rs < 2 ^ 64" using old by simp
  qed
  have "mw_ok C ?mw (sh_world sh') crs"
    by (rule mw_ok_untouched [OF _ un w(2)]) (use out in \<open>simp_all add: out_inv_def\<close>)
  then have "out_inv C ?m (hide ?ids (sh_world sh')) Os crs (?mw, sh_next_file_id sh', sh_world sh')"
    using out un nid closed unused
    by (intro out_inv_hide) (auto simp: out_inv_def untouched_def intro: order_less_le_trans)
  moreover have "\<forall>f \<in> ?ids. \<not> old_file eg f" using inv unfolding live_inv_def by blast
  ultimately show "live_inv C eg ws V0 Lin D Os crs (drain_repoints (writes_hook C eg ws) cs)"
    using st' unfolding live_inv_def cs' by (simp add: outs_of_def)
qed

end
