(* ===== verification/MergeRace.thy ===== *)
theory MergeRace
  imports MergeLive
begin

text \<open>
  The copying loops of a merge with windows in which other threads write, the end of such a merge, and what it means
  for the datastore: no write is lost, nothing is resurrected, and everything can still be read.
\<close>

section \<open>Visiting the entries\<close>

lemma finite_todo: "finite (unvisited eg D)"
proof -
  have "unvisited eg D \<subseteq> dom (\<lambda>k. keydir_get k (eg_keydir eg))" by (auto simp: unvisited_def)
  then show ?thesis by (rule finite_subset) (simp add: keydir_get_def finite_dom_map_of)
qed

lemma need_mono:
  assumes "\<And>e. D e \<Longrightarrow> D' e"
  shows "need eg ws D' pending \<le> need eg ws D pending"
proof -
  have "unvisited eg D' \<subseteq> unvisited eg D" using assms by (auto simp: unvisited_def)
  then have "(\<Sum>k \<in> unvisited eg D'. Suc (length (ws k))) \<le> (\<Sum>k \<in> unvisited eg D. Suc (length (ws k)))"
    by (intro sum_mono2 finite_todo) auto
  then show ?thesis by (simp add: need_def)
qed

lemma need_copy:
  assumes "\<And>e. D e \<Longrightarrow> D' e" and "k \<in> unvisited eg D" and "k \<notin> unvisited eg D'"
  shows "need eg ws D' (pending @ [(k, x)]) + 1 \<le> need eg ws D pending"
proof -
  have "unvisited eg D' \<subseteq> unvisited eg D - {k}" using assms by (auto simp: unvisited_def)
  then have "(\<Sum>k \<in> unvisited eg D'. Suc (length (ws k))) \<le> (\<Sum>k \<in> unvisited eg D - {k}. Suc (length (ws k)))"
    by (intro sum_mono2) (auto simp: finite_todo)
  moreover have "(\<Sum>k \<in> unvisited eg D. Suc (length (ws k))) = Suc (length (ws k)) + (\<Sum>k \<in> unvisited eg D - {k}. Suc (length (ws k)))"
    by (rule sum.remove [OF finite_todo assms(2)])
  ultimately show ?thesis by (simp add: need_def)
qed

lemma live_idx_step:
  assumes idx: "live_idx eg ws V0 outs D kd V pending ks" and mono: "\<And>e. D e \<Longrightarrow> D' e"
    and new: "\<And>k e. keydir_get k kd = Some e \<Longrightarrow> old_file eg (kd_file_id e) \<Longrightarrow> D' e \<Longrightarrow> D e \<or> (\<exists>n. (k, e, n) \<in> set items)"
    and loc: "\<And>k e v. located outs k e v \<Longrightarrow> located outs' k e v"
    and items: "\<And>k e n. (k, e, n) \<in> set items \<Longrightarrow> keydir_get k kd = Some e \<and> old_file eg (kd_file_id e) \<and> \<not> D e \<and> D' e \<and>
      \<not> old_file eg (kd_file_id n) \<and> (\<exists>v. V k = Some v \<and> located outs' k n v)"
    and dist: "distinct (map fst items)"
  shows "live_idx eg ws V0 outs' D' kd V (pending @ items) ks"
proof -
  note i = live_idxD [OF idx]
  have start: "keydir_get k (eg_keydir eg) = Some e" if "(k, e, n) \<in> set items" for k e n
    using items [OF that] i(2) by blast
  have fresh: "k \<notin> set (ks @ map fst pending)" if "(k, e, n) \<in> set items" for k e n
    using i(8) [of k] start [OF that] items [OF that] by auto
  show ?thesis
    unfolding live_idx_def
  proof (intro conjI allI impI ballI)
    show "V = after_windows ws ks V0" by (rule i(1))
    have "set (ks @ map fst pending) \<inter> set (map fst items) = {}" using fresh by (auto simp del: set_append)
    then show "distinct (ks @ map fst (pending @ items))" using i(7) dist by auto
  next
    fix k e assume e: "keydir_get k kd = Some e \<and> old_file eg (kd_file_id e)"
    then show "keydir_get k (eg_keydir eg) = Some e" using i(2) by blast
    assume "D' e"
    then show "\<exists>n. (k, e, n) \<in> set (pending @ items)" using new [of k e] i(3) [of k e] e by auto
  next
    fix x assume x: "x \<in> set (pending @ items)"
    obtain k e n where x': "x = (k, e, n)" by (cases x)
    have "old_file eg (kd_file_id e) \<and> \<not> old_file eg (kd_file_id n) \<and>
        (keydir_get k kd = Some e \<longrightarrow> (\<exists>v. V k = Some v \<and> located outs' k n v))"
    proof (cases "(k, e, n) \<in> set items")
      case True
      then show ?thesis using items by blast
    next
      case False
      then have "(k, e, n) \<in> set pending" using x x' by simp
      then show ?thesis using i(4-6) loc by blast
    qed
    then show "case x of (k, e, n) \<Rightarrow> old_file eg (kd_file_id e) \<and> \<not> old_file eg (kd_file_id n) \<and>
        (keydir_get k kd = Some e \<longrightarrow> (\<exists>v. V k = Some v \<and> located outs' k n v))" by (simp add: x')
  next
    fix k assume k: "k \<in> set (ks @ map fst (pending @ items))"
    show "\<exists>ent. keydir_get k (eg_keydir eg) = Some ent \<and> old_file eg (kd_file_id ent) \<and> D' ent"
    proof (cases "k \<in> set (ks @ map fst pending)")
      case True
      then show ?thesis using i(8) mono by blast
    next
      case False
      then obtain e n where "(k, e, n) \<in> set items" using k by force
      then show ?thesis using start items by blast
    qed
  next
    fix k assume "k \<notin> set (ks @ map fst (pending @ items)) \<and> (\<forall>k' \<in> set ks. k \<notin> write_key ` set (ws k'))"
    then show "keydir_get k kd = keydir_get k (eg_keydir eg)" by (intro i(9)) auto
  qed
qed

text \<open>An entry that still points into an old file is at a record of it.\<close>

lemma beside_old_entry:
  assumes "beside C outs V s L T" and "\<forall>f \<in> fst ` set outs. \<not> old_file eg f"
    and "keydir_get k (eg_keydir (fst s)) = Some e" and "old_file eg (kd_file_id e)"
  obtains v where "V k = Some v" and "located L k e v"
proof -
  have "entries_at (L @ outs) (eg_keydir (fst s)) V" using assms(1) by (cases s) (simp add: beside_def)
  then obtain v where v: "V k = Some v" "located (L @ outs) k e v"
    by (rule entries_at_cases [of _ _ _ k]) (use assms(3) in auto)
  moreover have "\<not> located outs k e v" using located_id [of outs k e v] assms(2,4) by blast
  ultimately show thesis using that by (auto simp: located_append)
qed

lemma beside_disk:
  assumes "beside C outs V (eg_unshare eg sh) L T"
  shows "disk C (hide (fst ` set outs) (sh_world sh)) L T"
  using assms by (auto simp: eg_unshare_def beside_def store_beside_def store_ok_def)

lemma live_inv_visit:
  assumes inv: "live_inv C eg ws V0 Lin D Os crs cs" and mono: "\<And>e. D e \<Longrightarrow> D' e"
    and only: "\<And>k e L T v. keydir_get k (sh_keydir (cs_sh cs)) = Some e \<Longrightarrow> old_file eg (kd_file_id e) \<Longrightarrow>
      set Lin \<subseteq> set L \<Longrightarrow> disk C (hide (fst ` set (outs_of Os crs cs)) (sh_world (cs_sh cs))) L T \<Longrightarrow> located L k e v \<Longrightarrow> D' e \<Longrightarrow> D e"
  shows "live_inv C eg ws V0 Lin D' Os crs cs"
proof -
  let ?outs = "outs_of Os crs cs" and ?sh = "cs_sh cs"
  have st: "live_state C eg ws V0 Lin ?outs D (cs_pending cs) ?sh" and old: "\<forall>f \<in> fst ` set ?outs. \<not> old_file eg f"
    using inv unfolding live_inv_def by blast+
  obtain L T V ks where Lin: "set Lin \<subseteq> set L" and b: "beside C ?outs V (eg_unshare eg ?sh) L T"
    and idx: "live_idx eg ws V0 ?outs D (sh_keydir ?sh) V (cs_pending cs) ks"
    and rm: "room (need eg ws D (cs_pending cs) + 3) (fst (eg_unshare eg ?sh))"
    and lt: "\<And>f. old_file eg f \<Longrightarrow> f < af_file_id (sh_active ?sh)"
    by (rule live_stateE [OF st]) blast
  have "D e" if e: "keydir_get k (sh_keydir ?sh) = Some e" "old_file eg (kd_file_id e)" "D' e" for k e
  proof -
    obtain v where "located L k e v" by (rule beside_old_entry [OF b old, of k e]) (use e in simp_all)
    then show ?thesis by (rule only [OF e(1,2) Lin beside_disk [OF b] _ e(3)])
  qed
  then have "live_idx eg ws V0 ?outs D' (sh_keydir ?sh) V (cs_pending cs @ []) ks"
    by (intro live_idx_step [OF idx mono]) auto
  moreover have "room (need eg ws D' (cs_pending cs) + 3) (fst (eg_unshare eg ?sh))"
    using rm need_mono [of D D' eg ws "cs_pending cs", OF mono] by (auto intro: room_weaken)
  ultimately have "live_state C eg ws V0 Lin ?outs D' (cs_pending cs) ?sh"
    using Lin b lt unfolding live_state_def by auto
  then show ?thesis using inv by (simp add: live_inv_def)
qed

lemma visited_mono: "visited ids fid p e \<Longrightarrow> p \<le> p' \<Longrightarrow> visited ids fid p' e"
  by (auto simp: visited_def)

text \<open>A record that is not live leaves everything as it is.\<close>

lemma live_inv_dead:
  assumes inv: "live_inv C eg ws V0 Lin (visited ids fid (log_len pre)) Os crs cs"
    and f: "(fid, pre @ (k, v, t, ts) # post) \<in> set Lin" "fid \<notin> ids"
    and dead: "t \<or> \<not> is_live (sh_keydir (cs_sh cs)) fid (of_nat (log_len pre + HEADER_SIZE + length k)) k"
  shows "live_inv C eg ws V0 Lin (visited ids fid (log_len pre + rec_len (k, v, t, ts))) Os crs cs"
proof (rule live_inv_visit [OF inv])
  show "visited ids fid (log_len pre + rec_len (k, v, t, ts)) e" if "visited ids fid (log_len pre) e" for e
    by (rule visited_mono [OF that]) simp
next
  fix k' e L T v' assume e: "keydir_get k' (sh_keydir (cs_sh cs)) = Some e" and "old_file eg (kd_file_id e)"
    and L: "set Lin \<subseteq> set L" and d: "disk C (hide (fst ` set (outs_of Os crs cs)) (sh_world (cs_sh cs))) L T"
    and loc: "located L k' e v'" and vis: "visited ids fid (log_len pre + rec_len (k, v, t, ts)) e"
  have mem: "(fid, pre @ (k, v, t, ts) # post) \<in> set L" using f(1) L by blast
  have lim: "log_len (pre @ (k, v, t, ts) # post) < 2 ^ 64" using disk_fileD(2) [OF d mem] by simp
  note st = visited_step [OF diskD(2) [OF d] mem loc lim f(2)]
  show "visited ids fid (log_len pre) e"
  proof (rule ccontr)
    assume no: "\<not> visited ids fid (log_len pre) e"
    then have k: "k' = k" "kd_file_id e = fid" "kd_value_pos e = of_nat (log_len pre + HEADER_SIZE + length k)"
      using st(1) vis by blast+
    then have "\<not> t" using st(2) by blast
    moreover have "is_live (sh_keydir (cs_sh cs)) fid (of_nat (log_len pre + HEADER_SIZE + length k)) k"
      unfolding is_live_def using e k by simp
    ultimately show False using dead by blast
  qed
qed

section \<open>Copying a live entry\<close>

lemma beside_rebase:
  assumes b: "beside C outs V (eg_unshare eg sh) L T"
    and so: "same_outside (fst ` set outs') (hide (fst ` set outs) (sh_world sh)) w'"
    and none: "\<forall>f \<in> fst ` set outs'. lookup (data_path f) (hide (fst ` set outs) (sh_world sh)) = None \<and>
      lookup (hint_path f) (hide (fst ` set outs) (sh_world sh)) = None"
    and w': "w_outs w' = []" "world_ok w'" "w_locks w' = w_locks (sh_world sh)"
    and nid: "sh_next_file_id sh \<le> nid'" "\<forall>f \<in> fst ` set outs'. f < nid'"
    and loc: "\<And>k e v. located outs k e v \<Longrightarrow> located outs' k e v"
  shows "beside C outs' V (eg_unshare eg (sh\<lparr>sh_next_file_id := nid', sh_world := w'\<rparr>)) L T"
proof -
  let ?ids = "fst ` set outs" and ?ids' = "fst ` set outs'" let ?w = "hide ?ids (sh_world sh)" and ?w' = "hide ?ids' w'"
  note b = b [unfolded eg_unshare_def beside_def store_beside_def split_conv]
  note same = same_outside_hide [OF so none]
  have "store_ok C (o_max_file_size (eg_opts eg)) ((sh_active sh, sh_gc sh, sh_next_file_id sh), ?w) L T" using b by simp
  then have st: "store_ok C (o_max_file_size (eg_opts eg)) ((sh_active sh, sh_gc sh, nid'), ?w') L T"
    by (rule store_ok_same_files [OF _ same]) (use w' nid in \<open>simp_all add: world_ok_hide\<close>)
  have lock: "LOCK_FILE \<notin> names_of ids" for ids by (auto simp: names_of_def)
  have "lookup LOCK_FILE w' = lookup LOCK_FILE (sh_world sh)"
    using same(1) [of LOCK_FILE] lock by (simp add: lookup_hide)
  moreover have "readers_ok (sh_files sh) ?w'" using b same(1) by (simp add: readers_ok_def)
  moreover have "entries_at (L @ outs') (sh_keydir sh) V"
    by (rule entries_at_mono [of "L @ outs"]) (use b loc in \<open>auto simp: located_append\<close>)
  ultimately show ?thesis
    using b st w' nid(2) by (simp add: eg_unshare_def beside_def store_beside_def)
qed

lemma live_state_metrics [simp]:
  "live_state C eg ws V0 Lin outs D pending (sh\<lparr>sh_metrics := x\<rparr>) = live_state C eg ws V0 Lin outs D pending sh"
  by (simp add: live_state_def eg_unshare_def beside_def store_beside_def room_def)

lemma live_inv_record [simp]: "live_inv C eg ws V0 Lin D Os crs (cs_record x cs) = live_inv C eg ws V0 Lin D Os crs cs"
  by (simp add: live_inv_def cs_record_def outs_of_def)

lemma copied_outputs:
  assumes outs: "outs' = Os @ [(cur, crs @ [(k, v, False, ts)])] \<or> outs' = Os @ [(cur, crs @ [(k, v, False, ts)]), (cur', [])]"
  shows "located (Os @ [(cur, crs)]) k' e v' \<Longrightarrow> located outs' k' e v'"
    and "located outs' k (located_entry cur (log_len crs) (k, v, False, ts)) v"
    and "f \<in> fst ` set outs' \<Longrightarrow> f \<in> fst ` set (Os @ [(cur, crs)]) \<or> f = cur'"
proof -
  let ?outs = "Os @ [(cur, crs @ [(k, v, False, ts)])]"
  obtain more where more: "outs' = ?outs @ more" "fst ` set more \<subseteq> {cur'}" using outs by auto
  show "located outs' k' e v'" if "located (Os @ [(cur, crs)]) k' e v'"
    unfolding more(1) by (rule located_more [OF located_snoc [OF that]])
  have "located ?outs k (located_entry cur (log_len crs) (k, v, False, ts)) v"
    unfolding located_def by (intro exI [of _ cur] exI [of _ crs] exI [of _ "[]"] exI [of _ ts]) simp
  then show "located outs' k (located_entry cur (log_len crs) (k, v, False, ts)) v"
    unfolding more(1) by (rule located_more)
  show "f \<in> fst ` set outs' \<Longrightarrow> f \<in> fst ` set (Os @ [(cur, crs)]) \<or> f = cur'" using more by auto
qed

lemma old_file_mono: "f \<le> g \<Longrightarrow> old_file eg g \<Longrightarrow> old_file eg f"
  by (auto simp: old_file_def split: option.splits intro: order_le_less_trans)

text \<open>The live record becomes the next record of the outputs, and its repoint is queued.\<close>

lemma live_inv_copy:
  assumes C: "crc32fast_ok C" and env: "live_env eg ws Lin"
    and inv: "live_inv C eg ws V0 Lin (visited ids fid (log_len pre)) Os crs cs"
    and f: "(fid, pre @ (k, v, False, ts) # post) \<in> set Lin" "fid \<notin> ids"
    and live: "is_live (sh_keydir (cs_sh cs)) fid (of_nat (log_len pre + HEADER_SIZE + length k)) k"
  obtains flushed mw' nid' w' Os' crs' where
    "write_live_entry C (o_max_file_size (eg_opts eg)) (rec_entry (k, v, False, ts)) (cs_writer cs, sh_next_file_id (cs_sh cs), sh_world (cs_sh cs)) =
      (Inr (current_file_id (cs_writer cs), of_nat (log_len crs + HEADER_SIZE + length k), flushed), (mw', nid', w'))"
    and "current_file_id (cs_writer cs) \<le> current_file_id mw'"
    and "live_inv C eg ws V0 Lin (visited ids fid (log_len pre + rec_len (k, v, False, ts))) Os' crs'
      (copied_live fid (log_len pre) (k, v, False, ts) crs (mw', nid', w') cs)"
proof -
  let ?r = "(k, v, False, ts)" and ?m = "o_max_file_size (eg_opts eg)" and ?sh = "cs_sh cs" and ?mw = "cs_writer cs"
  let ?P = "of_nat (log_len pre + HEADER_SIZE + length k) :: u64" and ?cur = "current_file_id ?mw"
  let ?D = "visited ids fid (log_len pre)" and ?D' = "visited ids fid (log_len pre + rec_len ?r)" and ?outs = "outs_of Os crs cs"
  let ?ids = "fst ` set ?outs" let ?w = "hide ?ids (sh_world ?sh)"
  have out: "out_inv C ?m ?w Os crs (?mw, sh_next_file_id ?sh, sh_world ?sh)"
    and old: "\<forall>f \<in> ?ids. \<not> old_file eg f" and st: "live_state C eg ws V0 Lin ?outs ?D (cs_pending cs) ?sh"
    using inv unfolding live_inv_def by blast+
  obtain L T V ks where Lin: "set Lin \<subseteq> set L" and b: "beside C ?outs V (eg_unshare eg ?sh) L T"
    and idx: "live_idx eg ws V0 ?outs ?D (sh_keydir ?sh) V (cs_pending cs) ks"
    and rm: "room (need eg ws ?D (cs_pending cs) + 3) (fst (eg_unshare eg ?sh))"
    and lt: "\<And>f. old_file eg f \<Longrightarrow> f < af_file_id (sh_active ?sh)"
    by (rule live_stateE [OF st]) blast
  have d: "disk C ?w L T" by (rule beside_disk [OF b])
  have mem: "(fid, pre @ ?r # post) \<in> set L" using f(1) Lin by blast
  have lim: "log_len (pre @ ?r # post) < 2 ^ 64" and rok: "rec_ok ?r" using disk_fileD(1,2) [OF d mem] by simp_all
  obtain ent where ent: "keydir_get k (sh_keydir ?sh) = Some ent" "kd_file_id ent = fid" "kd_value_pos ent = ?P"
    using live by (auto simp: is_live_def split: option.splits)
  have of: "old_file eg (kd_file_id ent)" using env f(1) ent(2) by (auto simp: live_env_def)
  obtain v' where v': "V k = Some v'" "located L k ent v'"
    by (rule beside_old_entry [OF b old, of k ent]) (use ent of in simp_all)
  note vs = visited_step [OF diskD(2) [OF d] mem _ lim f(2)]
  have here: "v' = v" "ent = located_entry fid (log_len pre) ?r" "\<not> ?D ent"
    using vs(2) [OF v'(2) ent(2,3)] by blast+
  have m: "unat ?m \<le> 2 ^ 63" by (rule live_state_store [OF st])
  have nid: "unat (sh_next_file_id ?sh) < 2 ^ 32 - 1" using rm by (simp add: room_def)
  obtain flushed mw' nid' w' Os' crs' where
    wr: "write_live_entry C ?m (rec_entry ?r) (?mw, sh_next_file_id ?sh, sh_world ?sh) =
      (Inr (?cur, of_nat (log_len crs + HEADER_SIZE + length k), flushed), (mw', nid', w'))"
    and out': "out_inv C ?m ?w Os' crs' (mw', nid', w')" and le: "?cur \<le> current_file_id mw'"
    and n': "unat nid' + length Os = unat (sh_next_file_id ?sh) + length Os'"
    and outs: "Os' @ [(current_file_id mw', crs')] = Os @ [(?cur, crs @ [?r])] \<or>
      Os' @ [(current_file_id mw', crs')] = Os @ [(?cur, crs @ [?r]), (current_file_id mw', [])]"
    using write_live_entry_ok [OF out rok C m nid] by (metis rec_entry.simps)
  let ?new = "located_entry ?cur (log_len crs) ?r" and ?outs' = "Os' @ [(current_file_id mw', crs')]"
  let ?sh' = "?sh\<lparr>sh_next_file_id := nid', sh_world := w'\<rparr>"
  let ?cs = "cs\<lparr>cs_writer := mw', cs_sh := ?sh', cs_copied := cs_copied cs + 1, cs_pending := cs_pending cs @ [(k, ent, ?new)]\<rparr>"
  let ?ids' = "fst ` set ?outs'"
  have ids': "?ids' = insert (current_file_id mw') (fst ` set Os')" by simp
  note co = copied_outputs [OF outs, folded outs_of_def [of Os crs cs]]
  have old': "\<not> old_file eg f" if "f \<in> ?ids'" for f
    using co(3) [OF that] old old_file_mono [OF le] by auto
  have "length Os' \<le> Suc (length Os)" "length Os \<le> length Os'" using outs by (auto dest: arg_cong [of _ _ length])
  then have nn: "unat nid' \<le> Suc (unat (sh_next_file_id ?sh))" "sh_next_file_id ?sh \<le> nid'"
    using n' by (simp_all add: word_le_nat_alt)
  have so: "same_outside ?ids' ?w w'" and none: "\<forall>f \<in> ?ids'. lookup (data_path f) ?w = None \<and> lookup (hint_path f) ?w = None"
    and w': "w_outs w' = []" "world_ok w'" "w_locks w' = w_locks (sh_world ?sh)"
    using out' by (simp_all add: out_inv_def)
  have b': "beside C ?outs' V (eg_unshare eg ?sh') L T"
    by (rule beside_rebase [OF b so none w' nn(2)]) (use out_inv_ids(4) [OF out'] co(1) in blast)+
  have mono: "?D e \<Longrightarrow> ?D' e" for e by (erule visited_mono) (rule le_add1)
  have D': "?D' ent" using vs(1) [OF v'(2)] ent(2,3) here(3) v'(2) vs(2) by blast
  have idx': "live_idx eg ws V0 ?outs' ?D' (sh_keydir ?sh) V (cs_pending cs @ [(k, ent, ?new)]) ks"
  proof (rule live_idx_step [OF idx mono])
    fix k' e assume e: "keydir_get k' (sh_keydir ?sh) = Some e" "old_file eg (kd_file_id e)" "?D' e"
    obtain v2 where "located L k' e v2" by (rule beside_old_entry [OF b old, of k' e]) (use e in simp_all)
    then have "?D e \<or> k' = k" using vs(1) e(3) by blast
    then show "?D e \<or> (\<exists>n. (k', e, n) \<in> set [(k, ent, ?new)])" using e(1) ent(1) by auto
  next
    fix k' e n assume "(k', e, n) \<in> set [(k, ent, ?new)]"
    moreover have "\<not> old_file eg (kd_file_id ?new)" using old by (simp add: located_entry_def)
    ultimately show "keydir_get k' (sh_keydir ?sh) = Some e \<and> old_file eg (kd_file_id e) \<and> \<not> ?D e \<and> ?D' e \<and>
        \<not> old_file eg (kd_file_id n) \<and> (\<exists>v. V k' = Some v \<and> located ?outs' k' n v)"
      using ent(1) of here D' v'(1) co(2) by auto
  qed (use co(1) in auto)
  have k0: "keydir_get k (eg_keydir eg) = Some ent" by (rule live_idxD(2) [OF idx ent(1) of])
  have "need eg ws ?D' (cs_pending cs @ [(k, ent, ?new)]) + 1 \<le> need eg ws ?D (cs_pending cs)"
    by (rule need_copy [OF mono]) (use k0 of here(3) D' in \<open>auto simp: unvisited_def\<close>)
  then have "room (need eg ws ?D' (cs_pending cs @ [(k, ent, ?new)]) + 3) (fst (eg_unshare eg ?sh'))"
    using rm nn(1) by (simp add: room_def)
  then have "live_state C eg ws V0 Lin ?outs' ?D' (cs_pending ?cs) (cs_sh ?cs)"
    using Lin b' idx' lt unfolding live_state_def by auto
  moreover have "outs_of Os' crs' ?cs = ?outs'" by (simp add: outs_of_def)
  moreover have "out_inv C ?m (hide ?ids' w') Os' crs' (mw', nid', w')"
  proof -
    have "unused_from nid' (hide ?ids' w')"
      using out' same_outside_hide(1) [OF so none] by (simp add: out_inv_def unused_from_def)
    then show ?thesis using out' by (intro out_inv_hide) (simp_all add: out_inv_def)
  qed
  ultimately have "live_inv C eg ws V0 Lin ?D' Os' crs' ?cs" using old' unfolding live_inv_def by simp
  moreover have "?cs = copied_live fid (log_len pre) ?r crs (mw', nid', w') cs" by (simp add: copied_live_def here(2))
  ultimately show thesis using that [OF wr le] by simp
qed

section \<open>The loops\<close>

lemma hide_warned [simp]: "hide ids (warned ws w) = warned ws (hide ids w)"
  by (simp add: hide_def warned_def)

lemma live_inv_warned:
  assumes "live_inv C eg ws V0 Lin D Os crs cs"
  shows "live_inv C eg ws V0 Lin D Os crs (cs\<lparr>cs_sh := (cs_sh cs)\<lparr>sh_world := warned x (sh_world (cs_sh cs))\<rparr>\<rparr>)"
proof -
  let ?sh = "cs_sh cs" let ?w = "sh_world ?sh" and ?outs = "outs_of Os crs cs"
  let ?sh' = "?sh\<lparr>sh_world := warned x ?w\<rparr>"
  have out: "out_inv C (o_max_file_size (eg_opts eg)) (hide (fst ` set ?outs) ?w) Os crs (cs_writer cs, sh_next_file_id ?sh, ?w)"
    and st: "live_state C eg ws V0 Lin ?outs D (cs_pending cs) ?sh"
    using assms unfolding live_inv_def by blast+
  have "out_inv C (o_max_file_size (eg_opts eg)) (warned x (hide (fst ` set ?outs) ?w)) Os crs (cs_writer cs, sh_next_file_id ?sh, warned x ?w)"
    using out_inv_warned [OF out] by (simp add: out_inv_def same_outside_def unused_from_def)
  moreover have "beside C outs V (eg_unshare eg ?sh') L T = beside C outs V (eg_unshare eg ?sh) L T" for outs V L T
    by (simp add: eg_unshare_def beside_def store_beside_def store_ok_def active_ok_def readers_ok_def)
  then have "live_state C eg ws V0 Lin ?outs D (cs_pending cs) ?sh'"
    using st by (simp add: live_state_def) (simp add: eg_unshare_def)
  moreover have "\<forall>f \<in> fst ` set ?outs. \<not> old_file eg f" using assms unfolding live_inv_def by blast
  ultimately show ?thesis by (simp add: live_inv_def outs_of_def)
qed

lemma live_inv_disk:
  assumes "live_env eg ws Lin" and "live_inv C eg ws V0 Lin D Os crs cs" and "(fid, rs) \<in> set Lin"
  obtains T where "list_all rec_ok rs" and "torn C (T fid)" and "w_outs (sh_world (cs_sh cs)) = []"
    and "file_bytes (data_path fid) (sh_world (cs_sh cs)) = Some (log_bytes C rs @ T fid)"
proof -
  have st: "live_state C eg ws V0 Lin (outs_of Os crs cs) D (cs_pending cs) (cs_sh cs)"
    and old: "\<forall>f \<in> fst ` set (outs_of Os crs cs). \<not> old_file eg f" using assms(2) unfolding live_inv_def by blast+
  obtain L T where s: "store_ok C (o_max_file_size (eg_opts eg)) ((sh_active (cs_sh cs), sh_gc (cs_sh cs), sh_next_file_id (cs_sh cs)),
      hide (fst ` set (outs_of Os crs cs)) (sh_world (cs_sh cs))) L T" and w: "w_outs (sh_world (cs_sh cs)) = []" and Lin: "set Lin \<subseteq> set L"
    by (rule live_state_store [OF st]) blast
  have d: "disk C (hide (fst ` set (outs_of Os crs cs)) (sh_world (cs_sh cs))) L T" using s by (simp add: store_ok_def)
  note df = disk_fileD [OF d subsetD [OF Lin assms(3)]]
  have "old_file eg fid" using assms(1,3) by (auto simp: live_env_def)
  then have "fid \<notin> fst ` set (outs_of Os crs cs)" using old by blast
  then have "file_bytes (data_path fid) (sh_world (cs_sh cs)) = Some (log_bytes C rs @ T fid)"
    using df(4) unfolding file_bytes_hide in_names_of by simp
  then show thesis using that df(1,3) w by blast
qed

interpretation racing: copying C "o_max_file_size (eg_opts eg)" "writes_hook C eg ws" Lin
    "\<lambda>D cs. crc32fast_ok C \<and> live_env eg ws Lin \<and> (\<exists>Os crs. live_inv C eg ws V0 Lin D Os crs cs)"
  for C eg ws Lin V0
proof
  fix D cs fid rs r
  assume "crc32fast_ok C \<and> live_env eg ws Lin \<and> (\<exists>Os crs. live_inv C eg ws V0 Lin D Os crs cs)"
    and "(fid, rs) \<in> set Lin" and r: "r \<in> set rs"
  then have "list_all rec_ok rs" using live_inv_disk by blast
  then show "rec_ok r" using r by (auto simp: list_all_iff)
next
  fix D cs fid rs
  assume i: "crc32fast_ok C \<and> live_env eg ws Lin \<and> (\<exists>Os crs. live_inv C eg ws V0 Lin D Os crs cs)"
    and f: "(fid, rs) \<in> set Lin"
  then obtain Os crs where env: "live_env eg ws Lin" and inv: "live_inv C eg ws V0 Lin D Os crs cs" by blast
  obtain T where ok: "list_all rec_ok rs" "torn C (T fid)" "w_outs (sh_world (cs_sh cs)) = []"
    "file_bytes (data_path fid) (sh_world (cs_sh cs)) = Some (log_bytes C rs @ T fid)"
    by (rule live_inv_disk [OF env inv f])
  obtain x where "read_all_entries C fid (sh_world (cs_sh cs)) = (Inr (pos_entries 0 rs), warned x (sh_world (cs_sh cs)))"
    by (rule read_all_entries_ok [OF ok(3,4,1,2)])
  then show "\<exists>x. read_all_entries C fid (sh_world (cs_sh cs)) = (Inr (pos_entries 0 rs), warned x (sh_world (cs_sh cs))) \<and>
      crc32fast_ok C \<and> live_env eg ws Lin \<and>
      (\<exists>Os crs. live_inv C eg ws V0 Lin D Os crs (cs\<lparr>cs_sh := (cs_sh cs)\<lparr>sh_world := warned x (sh_world (cs_sh cs))\<rparr>\<rparr>))"
    using i live_inv_warned by blast
next
  fix ids cs fid rs
  assume i: "crc32fast_ok C \<and> live_env eg ws Lin \<and> (\<exists>Os crs. live_inv C eg ws V0 Lin (\<lambda>e. kd_file_id e \<in> ids) Os crs cs)"
    and f: "(fid, rs) \<in> set Lin" "fid \<notin> ids"
  then obtain Os crs where inv: "live_inv C eg ws V0 Lin (\<lambda>e. kd_file_id e \<in> ids) Os crs cs" by blast
  have "live_inv C eg ws V0 Lin (visited ids fid 0) Os crs cs"
  proof (rule live_inv_visit [OF inv])
    fix k e L T v assume "set Lin \<subseteq> set L" and d: "disk C (hide (fst ` set (outs_of Os crs cs)) (sh_world (cs_sh cs))) L T"
      and loc: "located L k e v" and vis: "visited ids fid 0 e"
    then have "(fid, rs) \<in> set L" using f(1) by blast
    from visited_file(1) [OF d this loc f(2)] show "kd_file_id e \<in> ids" using vis by simp
  qed (simp add: visited_def)
  then show "crc32fast_ok C \<and> live_env eg ws Lin \<and> (\<exists>Os crs. live_inv C eg ws V0 Lin (visited ids fid 0) Os crs cs)"
    using i by blast
next
  fix ids fid rs cs
  assume i: "crc32fast_ok C \<and> live_env eg ws Lin \<and> (\<exists>Os crs. live_inv C eg ws V0 Lin (visited ids fid (log_len rs)) Os crs cs)"
    and f: "(fid, rs) \<in> set Lin" "fid \<notin> ids"
  then obtain Os crs where inv: "live_inv C eg ws V0 Lin (visited ids fid (log_len rs)) Os crs cs" by blast
  have "live_inv C eg ws V0 Lin (\<lambda>e. kd_file_id e \<in> insert fid ids) Os crs cs"
  proof (rule live_inv_visit [OF inv])
    fix k e L T v assume "set Lin \<subseteq> set L" and d: "disk C (hide (fst ` set (outs_of Os crs cs)) (sh_world (cs_sh cs))) L T"
      and loc: "located L k e v" and e: "kd_file_id e \<in> insert fid ids"
    then have "(fid, rs) \<in> set L" using f(1) by blast
    from visited_file(2) [OF d this loc f(2)] show "visited ids fid (log_len rs) e" using e by simp
  qed (auto simp: visited_def)
  then show "crc32fast_ok C \<and> live_env eg ws Lin \<and> (\<exists>Os crs. live_inv C eg ws V0 Lin (\<lambda>e. kd_file_id e \<in> insert fid ids) Os crs cs)"
    using i by blast
next
  fix ids fid pre cs k v t ts post
  assume "crc32fast_ok C \<and> live_env eg ws Lin \<and> (\<exists>Os crs. live_inv C eg ws V0 Lin (visited ids fid (log_len pre)) Os crs cs)"
    and "(fid, pre @ (k, v, t, ts) # post) \<in> set Lin" "fid \<notin> ids"
    and "t \<or> \<not> is_live (sh_keydir (cs_sh cs)) fid (of_nat (log_len pre + HEADER_SIZE + length k)) k"
  then show "crc32fast_ok C \<and> live_env eg ws Lin \<and> (\<exists>Os crs. live_inv C eg ws V0 Lin (visited ids fid (log_len pre + rec_len (k, v, t, ts))) Os crs cs)"
    using live_inv_dead by blast
next
  fix ids fid pre cs k v ts post
  assume i: "crc32fast_ok C \<and> live_env eg ws Lin \<and> (\<exists>Os crs. live_inv C eg ws V0 Lin (visited ids fid (log_len pre)) Os crs cs)"
    and f: "(fid, pre @ (k, v, False, ts) # post) \<in> set Lin" "fid \<notin> ids"
    and live: "is_live (sh_keydir (cs_sh cs)) fid (of_nat (log_len pre + HEADER_SIZE + length k)) k"
  then obtain Os crs where C: "crc32fast_ok C" and env: "live_env eg ws Lin"
    and inv: "live_inv C eg ws V0 Lin (visited ids fid (log_len pre)) Os crs cs" by blast
  show "\<exists>crs flushed mw nid w. write_live_entry C (o_max_file_size (eg_opts eg)) (rec_entry (k, v, False, ts))
          (cs_writer cs, sh_next_file_id (cs_sh cs), sh_world (cs_sh cs)) =
        (Inr (current_file_id (cs_writer cs), of_nat (log_len crs + HEADER_SIZE + length k), flushed), (mw, nid, w)) \<and>
      current_file_id (cs_writer cs) \<le> current_file_id mw \<and> crc32fast_ok C \<and> live_env eg ws Lin \<and>
      (\<exists>Os' crs'. live_inv C eg ws V0 Lin (visited ids fid (log_len pre + rec_len (k, v, False, ts))) Os' crs'
        (copied_live fid (log_len pre) (k, v, False, ts) crs (mw, nid, w) cs))"
    by (rule live_inv_copy [OF C env inv f live]) (use C env in blast)
next
  fix D cs assume i: "crc32fast_ok C \<and> live_env eg ws Lin \<and> (\<exists>Os crs. live_inv C eg ws V0 Lin D Os crs cs)"
  then obtain Os crs where env: "live_env eg ws Lin" and inv: "live_inv C eg ws V0 Lin D Os crs cs" by blast
  show "(crc32fast_ok C \<and> live_env eg ws Lin \<and> (\<exists>Os crs. live_inv C eg ws V0 Lin D Os crs (drain_repoints (writes_hook C eg ws) cs))) \<and>
      cs_writer (drain_repoints (writes_hook C eg ws) cs) = cs_writer cs"
    using i live_inv_drain(1,2) [OF env inv] by blast
next
  fix D cs x assume "crc32fast_ok C \<and> live_env eg ws Lin \<and> (\<exists>Os crs. live_inv C eg ws V0 Lin D Os crs cs)"
  then show "crc32fast_ok C \<and> live_env eg ws Lin \<and> (\<exists>Os crs. live_inv C eg ws V0 Lin D Os crs (cs_record x cs))"
    by simp
qed

end
