(* ===== verification/MergeSafe.thy ===== *)
theory MergeSafe
  imports MergeRace
begin

text \<open>
  From its first file to its last, a merge with windows in which other threads write: it succeeds, the old files are
  gone, the newest file is the active one, and the datastore holds what it held, with the writes of the windows.
\<close>

section \<open>Compaction\<close>

text \<open>What compaction leaves: finished outputs, and an index without entries in the inputs.\<close>

definition raced :: "'h crc32fast \<Rightarrow> engine \<Rightarrow> (bytes \<Rightarrow> wcall list) \<Rightarrow> kv \<Rightarrow> files \<Rightarrow> files \<Rightarrow> shared \<Rightarrow> bool" where
  "raced C eg ws V0 Lin outs sh \<longleftrightarrow>
     live_state C eg ws V0 Lin outs (\<lambda>e. kd_file_id e \<in> fst ` set Lin) [] sh \<and> live_env eg ws Lin \<and>
     (\<forall>(fid, rs) \<in> set outs. output_closed C (sh_world sh) fid rs \<and> log_len rs < 2 ^ 64) \<and>
     sorted_wrt (<) (map fst outs) \<and> outs \<noteq> [] \<and> (\<forall>f \<in> fst ` set outs. \<not> old_file eg f)"

lemma live_idx_start:
  "live_idx eg ws V0 outs (\<lambda>e. kd_file_id e \<in> {}) (eg_keydir eg) V0 [] []"
  by (simp add: live_idx_def)

lemma race_start:
  assumes b: "beside C [] V0 (eg, w) L T" and af: "eg_active eg = Some af" and Lin: "set Lin \<subseteq> set L"
    and rm: "room (need eg ws (\<lambda>e. kd_file_id e \<in> {}) [] + 4) eg"
  obtains i j w1 where "mw_new C (eg_next_file_id eg, w) = (Inr (fresh_writer C (eg_next_file_id eg) i j), (eg_next_file_id eg + 1, w1))"
    and "live_inv C eg ws V0 Lin (\<lambda>e. kd_file_id e \<in> {}) [] []
      \<lparr>cs_sh = (eg_share eg af w)\<lparr>sh_next_file_id := eg_next_file_id eg + 1, sh_world := w1\<rparr>,
       cs_writer = fresh_writer C (eg_next_file_id eg) i j, cs_pending = [], cs_copied = 0\<rparr>"
proof -
  let ?n = "eg_next_file_id eg" and ?D = "\<lambda>e. kd_file_id e \<in> {}" let ?sh = "eg_share eg af w"
  have us: "eg_unshare eg ?sh = (eg, w)"
    using af by (simp add: eg_unshare_def eg_share_def)
  have st: "store_ok C (o_max_file_size (eg_opts eg)) ((af, eg_gc eg, ?n), w) L T" and w: "world_ok w" "w_outs w = []"
    using b af by (auto simp: beside_def store_beside_def store_ok_def)
  have un: "unused_from ?n w" using st unused_from_next by (auto simp: store_ok_def)
  then have free: "lookup (data_path ?n) w = None" "lookup (hint_path ?n) w = None" by (simp_all add: unused_from_def)
  have lt: "af_file_id af < ?n" using st by (auto simp: store_ok_def active_ok_def)
  have n: "unat ?n < 2 ^ 32 - 1" using rm by (simp add: room_def)
  then have n1: "?n < ?n + 1" by (simp add: word_less_nat_alt unat_plus_one)
  obtain i j w1 where o: "open_output (?n, w) = (Inr (fresh_active ?n i, bw_new j), (?n + 1, w1))"
    and ad: "adds_output ?n w w1" and mw: "mw_ok C (fresh_writer C ?n i j) w1 []"
    by (rule open_output_ok [OF w(2,1) free])
  let ?outs = "[(?n, [])]" and ?sh1 = "?sh\<lparr>sh_next_file_id := ?n + 1, sh_world := w1\<rparr>"
  have cur: "current_file_id (fresh_writer C ?n i j) = ?n"
    by (simp add: fresh_writer_def current_file_id_def fresh_active_def)
  have w1: "w_outs w1 = []" "world_ok w1" "w_locks w1 = w_locks w" using ad by (simp_all add: adds_output_def)
  have sh: "sh_world ?sh = w" "sh_next_file_id ?sh = ?n" "sh_active ?sh = af" "sh_keydir ?sh = eg_keydir eg"
    by (simp_all add: eg_share_def)
  have so: "same_outside (fst ` set ?outs) (hide (fst ` set []) (sh_world ?sh)) w1"
    using ad by (auto simp: same_outside_def adds_output_def sh)
  have none: "\<forall>f \<in> fst ` set ?outs. lookup (data_path f) (hide (fst ` set []) (sh_world ?sh)) = None \<and>
      lookup (hint_path f) (hide (fst ` set []) (sh_world ?sh)) = None"
    using free by (simp add: sh)
  have "beside C ?outs V0 (eg_unshare eg ?sh1) L T"
    by (rule beside_rebase [OF _ so none w1(1,2)]) (use b us w1(3) n1 in \<open>simp_all add: sh located_def less_imp_le\<close>)
  moreover have "live_idx eg ws V0 ?outs ?D (sh_keydir ?sh1) V0 [] []"
    using live_idx_start by (simp add: sh)
  moreover have "room (need eg ws ?D [] + 3) (fst (eg_unshare eg ?sh1))"
    using rm unat_plus_one [OF n] by (simp add: room_def eg_share_def)
  moreover have "f < af_file_id (sh_active ?sh1)" if "old_file eg f" for f
    using that af by (simp add: old_file_def sh)
  ultimately have "live_state C eg ws V0 Lin ?outs ?D [] ?sh1" using Lin unfolding live_state_def by blast
  moreover have "out_inv C (o_max_file_size (eg_opts eg)) (hide {?n} w1) [] [] (fresh_writer C ?n i j, ?n + 1, w1)"
  proof (rule out_inv_hide)
    have "unused_from (?n + 1) w" by (rule unused_from_mono [OF un]) (use n1 in simp)
    then show "unused_from (?n + 1) (hide {?n} w1)"
      using same_outside_hide(1) [OF so none] by (simp add: unused_from_def sh)
  qed (use w1 mw n1 in \<open>simp_all add: cur\<close>)
  moreover have "\<not> old_file eg ?n" using lt af by (simp add: old_file_def)
  moreover have "mw_new C (?n, w) = (Inr (fresh_writer C ?n i j), (?n + 1, w1))"
    by (simp add: mw_new_def bindE_def o fresh_writer_def)
  ultimately show thesis by (intro that) (auto simp: live_inv_def outs_of_def cur)
qed

lemma same_outside_touched:
  assumes "touches cur w w'" and "cur \<in> ids"
  shows "same_outside ids (hide ids w) w'"
  unfolding same_outside_def
proof (intro allI impI)
  fix n assume n: "\<forall>f \<in> ids. n \<noteq> data_path f \<and> n \<noteq> hint_path f"
  then have "n \<notin> names_of ids" "n \<noteq> data_path cur" "n \<noteq> hint_path cur" using assms(2) by (auto simp: names_of_def)
  then show "lookup n w' = lookup n (hide ids w) \<and> file_bytes n w' = file_bytes n (hide ids w) \<and>
      (durable_file n (hide ids w) \<longrightarrow> durable_file n w')"
    using assms(1) by (simp add: touches_def lookup_hide file_bytes_hide durable_file_hide)
qed

text \<open>The flush phase: the last output is finished, then the rest of the queue is applied.\<close>

lemma race_finish:
  assumes C: "crc32fast_ok C" and env: "live_env eg ws Lin" and inv: "live_inv C eg ws V0 Lin D Os crs cs"
    and D: "D = (\<lambda>e. kd_file_id e \<in> fst ` set Lin)"
  obtains cs' where "finish_and_apply_pending_repoints C (writes_hook C eg ws) cs = (Inr (), cs')"
    and "raced C eg ws V0 Lin (outs_of Os crs cs) (cs_sh cs')" and "mw_drop (cs_writer cs') (sh_world (cs_sh cs')) = sh_world (cs_sh cs')"
proof -
  let ?m = "o_max_file_size (eg_opts eg)" and ?mw = "cs_writer cs" and ?sh = "cs_sh cs" and ?outs = "outs_of Os crs cs"
  let ?w = "sh_world ?sh" and ?cur = "current_file_id ?mw" and ?ids = "fst ` set ?outs"
  have out: "out_inv C ?m (hide ?ids ?w) Os crs (?mw, sh_next_file_id ?sh, ?w)"
    and old: "\<forall>f \<in> ?ids. \<not> old_file eg f" and st: "live_state C eg ws V0 Lin ?outs D (cs_pending cs) ?sh"
    using inv unfolding live_inv_def by blast+
  have ok: "mw_ok C ?mw ?w crs" "w_outs ?w = []" "world_ok ?w" and small: "crs = [] \<or> log_len crs < unat ?m"
    using out by (auto simp: out_inv_def)
  have m: "unat ?m \<le> 2 ^ 63" by (rule live_state_store [OF st])
  obtain mw' w' where fin: "mw_finish C (?mw, sh_next_file_id ?sh, ?w) = (Inr (), (mw', sh_next_file_id ?sh, w'))"
    and cl: "output_closed C w' ?cur crs" and t: "touches ?cur ?w w'"
    and buf: "bw_buf (af_writer (mw_data mw')) = []" "bw_buf (mw_hint mw') = []"
    by (rule mw_finish_ok [OF ok C])
  have w': "w_outs w' = []" "world_ok w'" "w_locks w' = w_locks ?w" using t by (simp_all add: touches_def)
  let ?sh1 = "?sh\<lparr>sh_next_file_id := sh_next_file_id ?sh, sh_world := w'\<rparr>"
  have so: "same_outside ?ids (hide ?ids ?w) w'" by (rule same_outside_touched [OF t]) (simp add: outs_of_def)
  have none: "\<forall>f \<in> ?ids. lookup (data_path f) (hide ?ids ?w) = None \<and> lookup (hint_path f) (hide ?ids ?w) = None"
    by (simp add: lookup_hide)
  have lt: "\<forall>f \<in> ?ids. f < sh_next_file_id ?sh"
    using out_inv_ids(4) [OF out] unfolding outs_of_def by blast
  have st1: "live_state C eg ws V0 Lin ?outs D (cs_pending cs) ?sh1"
  proof -
    obtain L T V ks where Lin: "set Lin \<subseteq> set L" and b: "beside C ?outs V (eg_unshare eg ?sh) L T"
      and idx: "live_idx eg ws V0 ?outs D (sh_keydir ?sh) V (cs_pending cs) ks"
      and rm: "room (need eg ws D (cs_pending cs) + 3) (fst (eg_unshare eg ?sh))"
      and act: "\<And>f. old_file eg f \<Longrightarrow> f < af_file_id (sh_active ?sh)"
      by (rule live_stateE [OF st]) blast
    have "beside C ?outs V (eg_unshare eg ?sh1) L T"
      by (rule beside_rebase [OF b so none w' order_refl lt])
    moreover have "room (need eg ws D (cs_pending cs) + 3) (fst (eg_unshare eg ?sh1))"
      using rm by (simp add: room_def)
    ultimately show ?thesis using Lin idx act unfolding live_state_def by auto
  qed
  let ?cs1 = "cs\<lparr>cs_writer := mw', cs_sh := ?sh1\<rparr>"
  let ?cs2 = "if pq_is_empty (cs_pending ?cs1) then ?cs1 else cs_record (RecordPendingQueueDepth (pq_len (cs_pending ?cs1))) ?cs1"
  define cs' where "cs' = drain_repoints (writes_hook C eg ws) ?cs2"
  have f: "finish_and_apply_pending_repoints C (writes_hook C eg ws) cs = (Inr (), cs')"
    by (simp add: finish_and_apply_pending_repoints_def bindE_def on_mw_apply fin cs'_def)
  have st2: "live_state C eg ws V0 Lin ?outs D (cs_pending cs) (cs_sh ?cs2)" and w2: "sh_world (cs_sh ?cs2) = w'"
    and p2: "cs_pending ?cs2 = cs_pending cs" "cs_writer ?cs2 = mw'"
    using st1 by (cases "pq_is_empty (cs_pending cs)"; simp add: cs_record_def)+
  have cs': "cs_sh cs' = fold (apply_repoint (writes_hook C eg ws)) (cs_pending cs) (cs_sh ?cs2)" "cs_writer cs' = mw'"
    unfolding cs'_def drain_repoints_simps p2 by (rule refl)+
  have r: "live_state C eg ws V0 Lin ?outs D [] (cs_sh cs')" and un: "untouched ?ids w' (sh_world (cs_sh cs'))"
    using repoints_ok [OF env st2] w'(1,2) w2 unfolding cs'(1) by simp_all
  have closed: "\<forall>(fid, rs) \<in> set ?outs. output_closed C (sh_world (cs_sh cs')) fid rs \<and> log_len rs < 2 ^ 64"
  proof (intro ballI, clarify)
    fix fid rs assume x: "(fid, rs) \<in> set ?outs"
    have "output_closed C w' fid rs \<and> log_len rs < 2 ^ 64"
    proof (cases "(fid, rs) \<in> set Os")
      case True
      then have "fid \<noteq> ?cur" using out_inv_ids(1) [OF out, of fid] by force
      moreover have "output_closed C ?w fid rs \<and> log_len rs < 2 ^ 64" using out True by (auto simp: out_inv_def)
      ultimately show ?thesis using output_closed_touches [OF _ t] by blast
    next
      case False
      have "log_len crs < 2 ^ 64" using small m by auto
      then show ?thesis using False x cl by (simp add: outs_of_def)
    qed
    then have c: "output_closed C w' fid rs" "log_len rs < 2 ^ 64" by simp_all
    have "fid \<in> ?ids" using imageI [OF x, of fst] by (simp only: fst_conv)
    then have n: "data_path fid \<in> names_of ?ids" "hint_path fid \<in> names_of ?ids" by (simp_all only: in_names_of)
    note fr = untouched_file [OF un w'(2)]
    show "output_closed C (sh_world (cs_sh cs')) fid rs \<and> log_len rs < 2 ^ 64"
      using output_closed_frame [OF c(1) fr(2) [OF n(1)] fr(2) [OF n(2)] fr(3) [OF n(1)]] c(2) by simp
  qed
  have "sorted_wrt (<) (map fst ?outs)" using out_inv_ids(3) [OF out] by (simp add: outs_of_def)
  then have "raced C eg ws V0 Lin ?outs (cs_sh cs')"
    using r [unfolded D] env closed old by (simp add: raced_def outs_of_def)
  with f show thesis by (rule that) (simp add: cs'(2) mw_drop_def buf)
qed

lemma compact_race:
  assumes C: "crc32fast_ok C" and env: "live_env eg ws Lin" and Lin: "set Lin \<subseteq> set L" "distinct (map fst Lin)"
    and b: "beside C [] V0 (eg, w) L T" and af: "eg_active eg = Some af" and rm: "room (need eg ws (\<lambda>e. kd_file_id e \<in> {}) [] + 4) eg"
  obtains hi copied sh outs where
    "compact C (o_max_file_size (eg_opts eg)) (writes_hook C eg ws) (map fst Lin) (eg_share eg af w) = (Inr (hi, copied), sh)"
    and "raced C eg ws V0 Lin outs sh" and "hi = fst (last outs)"
proof -
  let ?n = "eg_next_file_id eg" and ?m = "o_max_file_size (eg_opts eg)" and ?h = "writes_hook C eg ws"
  obtain i j w1 where nw: "mw_new C (?n, w) = (Inr (fresh_writer C ?n i j), (?n + 1, w1))"
    and inv0: "live_inv C eg ws V0 Lin (\<lambda>e. kd_file_id e \<in> {}) [] []
      \<lparr>cs_sh = (eg_share eg af w)\<lparr>sh_next_file_id := ?n + 1, sh_world := w1\<rparr>,
       cs_writer = fresh_writer C ?n i j, cs_pending = [], cs_copied = 0\<rparr>" (is "live_inv _ _ _ _ _ _ _ _ ?cs0")
    by (rule race_start [OF b af Lin(1) rm])
  obtain cs Os crs where cp: "copy_forward_all_live_entries C ?m ?h (map fst Lin) (current_file_id (cs_writer ?cs0)) ?cs0 =
      (Inr (current_file_id (cs_writer cs)), cs)"
    and inv: "live_inv C eg ws V0 Lin (\<lambda>e. kd_file_id e \<in> fst ` set Lin) Os crs cs"
    using racing.all_ok [of Lin Lin "{}" C eg ws V0 ?cs0] Lin(2) C env inv0 by auto
  obtain cs' where fin: "finish_and_apply_pending_repoints C ?h cs = (Inr (), cs')"
    and r: "raced C eg ws V0 Lin (outs_of Os crs cs) (cs_sh cs')"
    and drop: "mw_drop (cs_writer cs') (sh_world (cs_sh cs')) = sh_world (cs_sh cs')"
    by (rule race_finish [OF C env inv refl])
  have sh: "sh_next_file_id (eg_share eg af w) = ?n" "sh_world (eg_share eg af w) = w" by (simp_all add: eg_share_def)
  have "compact C ?m ?h (map fst Lin) (eg_share eg af w) = (Inr (current_file_id (cs_writer cs), cs_copied cs'), cs_sh cs')"
    using cp by (simp add: compact_def sh nw bindE_def fin drop Let_def)
  then show thesis by (rule that [OF _ r]) (simp add: outs_of_def)
qed

section \<open>The end of the merge\<close>

lemma sorted_files:
  assumes "distinct (map fst (L :: files))"
  shows "sorted_wrt (<) (map fst (sort_key fst L))" and "map_of (sort_key fst L) = map_of L" and "set (sort_key fst L) = set L"
proof -
  have d: "distinct (map fst (sort_key fst L))" using assms by (simp add: distinct_map)
  show "sorted_wrt (<) (map fst (sort_key fst L))"
    unfolding strict_sorted_iff using d sorted_sort_key [of fst L] by simp
  show "set (sort_key fst L) = set L" by simp
  then show "map_of (sort_key fst L) = map_of L" by (rule map_of_inject_set [OF d assms, THEN iffD2])
qed

text \<open>The newest file of all comes last.\<close>

lemma newest_last:
  assumes "distinct (map fst (L :: files))" and "(f, rs) \<in> set L" and "\<And>g. g \<in> fst ` set L \<Longrightarrow> g \<le> f"
  obtains L0 where "sort_key fst L = L0 @ [(f, rs)]"
proof -
  have s: "sorted_wrt (<) (map fst (sort_key fst L))" "set (sort_key fst L) = set L" using sorted_files [OF assms(1)] by simp_all
  have "sort_key fst L \<noteq> []" using assms(2) s(2) by (metis empty_iff empty_set)
  then obtain L0 g rs' where l: "sort_key fst L = L0 @ [(g, rs')]" by (metis rev_exhaust surj_pair)
  have "(g, rs') \<in> set L" using s(2) l by auto
  then have "g \<le> f" using assms(3) by force
  moreover have "f \<le> g"
  proof (cases "(f, rs) \<in> set L0")
    case True
    then show ?thesis using s(1) l by (force simp: sorted_wrt_append)
  next
    case False
    then show ?thesis using assms(2) l by (auto simp flip: s(2))
  qed
  ultimately have "(f, rs') \<in> set L" using \<open>(g, rs') \<in> set L\<close> by simp
  then have "rs' = rs" using assms(1,2) by (metis distinct_map_of_eq option.inject)
  then show thesis using that l \<open>g \<le> f\<close> \<open>f \<le> g\<close> by simp
qed

text \<open>The directory once the inputs are removed: the files that are left and the outputs, in the order of their ids.\<close>

definition left_files :: "files \<Rightarrow> files \<Rightarrow> files \<Rightarrow> files" where
  "left_files Lin L outs = sort_key fst (filter (\<lambda>x. fst x \<notin> fst ` set Lin) L @ outs)"

definition left_tails :: "files \<Rightarrow> (u32 \<Rightarrow> bytes) \<Rightarrow> u32 \<Rightarrow> bytes" where
  "left_tails outs T f = (if f \<in> fst ` set outs then [] else T f)"

lemma disk_left:
  assumes d: "disk C (hide (fst ` set outs) w1) L T"
    and cl: "\<forall>(fid, rs) \<in> set outs. output_closed C w1 fid rs \<and> log_len rs < 2 ^ 64"
    and s: "sorted_wrt (<) (map fst outs)" and new: "fst ` set outs \<inter> fst ` set Lin = {}"
    and wf: "without_file (fst ` set Lin) w1 w2"
  shows "disk C w2 (left_files Lin L outs) (left_tails outs T)"
    and "distinct (map fst (filter (\<lambda>x. fst x \<notin> fst ` set Lin) L @ outs))"
proof -
  let ?ids = "fst ` set outs" and ?in = "fst ` set Lin" let ?K = "filter (\<lambda>x. fst x \<notin> ?in) L"
  have so: "same_outside ?in w1 w2" using wf by (simp add: without_file_def)
  note keep = same_outside_file(3,4) [OF so]
  have dL: "distinct (map fst L)" by (rule diskD(2) [OF d])
  have dout: "distinct (map fst outs)" using s by (simp add: strict_sorted_iff)
  have away: "f \<notin> fst ` set L" if "f \<in> ?ids" for f
  proof
    assume "f \<in> fst ` set L"
    then obtain rs where "(f, rs) \<in> set L" by auto
    then have "file_bytes (data_path f) (hide ?ids w1) \<noteq> None" using disk_fileD(4) [OF d] by simp
    then show False using that by (simp add: file_bytes_hide)
  qed
  then have "fst ` set ?K \<inter> ?ids = {}" by auto
  then show dis: "distinct (map fst (?K @ outs))" using dL dout by (simp add: distinct_map_filter)
  have K: "map_of (filter (\<lambda>x. fst x \<notin> A) L) f = (if f \<in> A then None else map_of L f)" for f A
    by (induction L) auto
  note sf = sorted_files [OF dis, folded left_files_def]
  have data: "file_bytes (data_path f) w2 = map_option (\<lambda>rs. log_bytes C rs @ left_tails outs T f) (map_of (?K @ outs) f)" for f
  proof (cases "f \<in> ?ids")
    case True
    then obtain rs where rs: "(f, rs) \<in> set outs" by auto
    then have "map_of outs f = Some rs" using dout by simp
    moreover have "f \<notin> ?in" using True new by blast
    then have "file_bytes (data_path f) w2 = file_bytes (data_path f) w1" by (rule keep(1))
    moreover have "file_bytes (data_path f) w1 = Some (log_bytes C rs)" using cl rs by (auto simp: output_closed_def)
    moreover have "map_of ?K f = None" using away [OF True] by (simp add: K map_of_eq_None_iff)
    ultimately show ?thesis using True by (simp add: map_add_def left_tails_def)
  next
    case False
    then have o: "map_of outs f = None" by (simp add: map_of_eq_None_iff)
    show ?thesis
    proof (cases "f \<in> ?in")
      case True
      then have "lookup (data_path f) w2 = None" using wf by (auto simp: without_file_def)
      then show ?thesis using True o by (simp add: map_add_def K file_bytes_def)
    next
      case nin: False
      then have "file_bytes (data_path f) w2 = file_bytes (data_path f) (hide ?ids w1)"
        using keep(1) False by (simp add: file_bytes_hide)
      then show ?thesis using diskD(3) [OF d, of f] o nin False
        by (cases "map_of L f") (simp_all add: map_add_def K left_tails_def)
    qed
  qed
  have files: "list_all rec_ok rs \<and> log_len rs + length (left_tails outs T f) < 2 ^ 64 \<and> torn C (left_tails outs T f) \<and>
      (\<forall>hb. file_bytes (hint_path f) w2 = Some hb \<longrightarrow> verify_hint_file C hb = None \<or> hint_valid C rs hb)"
    if "(f, rs) \<in> set (?K @ outs)" for f rs
  proof (cases "(f, rs) \<in> set outs")
    case True
    then have f: "f \<in> ?ids" by force
    then have "f \<notin> ?in" using new by blast
    then have "file_bytes (hint_path f) w2 = file_bytes (hint_path f) w1" by (rule keep(2))
    then show ?thesis using cl True f by (auto simp: output_closed_def left_tails_def torn_def)
  next
    case False
    then have L: "(f, rs) \<in> set L" "f \<notin> ?in" using that by auto
    then have "f \<notin> ?ids" using away by force
    moreover then have "file_bytes (hint_path f) w2 = file_bytes (hint_path f) (hide ?ids w1)"
      using keep(2) L(2) by (simp add: file_bytes_hide)
    ultimately show ?thesis
      using d L(1) unfolding disk_def by (auto simp: left_tails_def)
  qed
  show "disk C w2 (left_files Lin L outs) (left_tails outs T)"
    unfolding disk_def sf(2,3) using sf(1) data files by blast
qed

lemma located_subset: "located L k e v \<Longrightarrow> (\<And>x. x \<in> set L \<Longrightarrow> fst x = kd_file_id e \<Longrightarrow> x \<in> set L') \<Longrightarrow> located L' k e v"
  unfolding located_def by (force simp: located_entry_def)

lemma last_newest:
  assumes "sorted_wrt (<) (map fst (L :: files))" and "f \<in> fst ` set L"
  shows "f \<le> fst (last L)"
proof -
  obtain L0 x where L: "L = L0 @ [x]" using assms(2) by (cases L rule: rev_cases) auto
  show ?thesis using assms by (auto simp: L sorted_wrt_append less_imp_le)
qed

text \<open>At the end, no entry of the index is in an input, and every entry of an input has had its window.\<close>

lemma race_index:
  assumes env: "live_env eg ws Lin" and idx: "live_idx eg ws V0 outs (\<lambda>e. kd_file_id e \<in> fst ` set Lin) kd V [] ks"
  shows "keydir_get k kd = Some e \<Longrightarrow> \<not> old_file eg (kd_file_id e)" and "V = after_windows ws ks V0" and "distinct ks"
    and "set ks \<subseteq> old_keys eg"
    and "k \<in> old_keys eg \<Longrightarrow> k \<in> set ks \<or> (\<exists>k' \<in> set ks. k \<in> write_key ` set (ws k'))"
proof -
  note i = live_idxD [OF idx]
  show no: "\<not> old_file eg (kd_file_id e)" if "keydir_get k kd = Some e" for k e
  proof
    assume "old_file eg (kd_file_id e)"
    then show False using i(2,3) [OF that] env by (auto simp: live_env_def)
  qed
  show "V = after_windows ws ks V0" "distinct ks" using i(1,7) by simp_all
  show "set ks \<subseteq> old_keys eg" using i(8) by (auto simp: old_keys_def)
  show "k \<in> set ks \<or> (\<exists>k' \<in> set ks. k \<in> write_key ` set (ws k'))" if k: "k \<in> old_keys eg"
  proof (rule ccontr)
    assume "\<not> (k \<in> set ks \<or> (\<exists>k' \<in> set ks. k \<in> write_key ` set (ws k')))"
    then have "keydir_get k kd = keydir_get k (eg_keydir eg)" by (intro i(9)) auto
    then show False using k no by (auto simp: old_keys_def)
  qed
qed

text \<open>The store after the inputs are removed; the active file may not be the newest.\<close>

lemma race_removed:
  assumes r: "raced C eg ws V0 Lin outs sh"
  obtains L T V ks w2 ars where
    "remove_old_input_files (map fst Lin) (sh_files sh, sh_world sh) = (fold forget (map fst Lin) (sh_files sh), w2)"
    and "live_idx eg ws V0 outs (\<lambda>e. kd_file_id e \<in> fst ` set Lin) (sh_keydir sh) V [] ks"
    and "disk C w2 L T" and "world_ok w2" and "w_outs w2 = []" and "entries_at L (sh_keydir sh) V"
    and "readers_ok (fold forget (map fst Lin) (sh_files sh)) w2"
    and "\<exists>l. eg_write_lock eg = Some l \<and> w_locks w2 = [l] \<and> lookup LOCK_FILE w2 = Some l"
    and "lookup (data_path (af_file_id (sh_active sh))) w2 = Some (bw_file (af_writer (sh_active sh)))"
    and "\<forall>f. lookup (hint_path f) w2 \<noteq> None \<longrightarrow> f \<in> fst ` set outs \<or> f < af_file_id (sh_active sh)"
    and "\<forall>f \<in> fst ` set L. f \<in> fst ` set outs \<or> f \<le> af_file_id (sh_active sh)"
    and "fst (last outs) < af_file_id (sh_active sh) \<longrightarrow> (\<exists>L0. L = L0 @ [(af_file_id (sh_active sh), ars)])"
    and "af_offset (sh_active sh) = of_nat (log_len ars)" "ars = [] \<or> log_len ars < unat (o_max_file_size (eg_opts eg))"
    and "T (af_file_id (sh_active sh)) = []"
proof -
  let ?ids = "fst ` set outs" and ?in = "fst ` set Lin" and ?m = "o_max_file_size (eg_opts eg)"
  let ?aid = "af_file_id (sh_active sh)" let ?w = "sh_world sh"
  have st: "live_state C eg ws V0 Lin outs (\<lambda>e. kd_file_id e \<in> ?in) [] sh" and env: "live_env eg ws Lin"
    and cl: "\<forall>(fid, rs) \<in> set outs. output_closed C ?w fid rs \<and> log_len rs < 2 ^ 64"
    and s: "sorted_wrt (<) (map fst outs)" and new: "\<forall>f \<in> ?ids. \<not> old_file eg f"
    using r unfolding raced_def by blast+
  obtain L T V ks where Lin: "set Lin \<subseteq> set L" and b: "beside C outs V (eg_unshare eg sh) L T"
    and idx: "live_idx eg ws V0 outs (\<lambda>e. kd_file_id e \<in> ?in) (sh_keydir sh) V [] ks"
    and act: "\<And>f. old_file eg f \<Longrightarrow> f < ?aid"
    by (rule live_stateE [OF st]) blast
  note b' = b [unfolded eg_unshare_def beside_def store_beside_def split_conv]
  have sto: "store_ok C ?m ((sh_active sh, sh_gc sh, sh_next_file_id sh), hide ?ids ?w) L T" and w: "world_ok ?w"
    using b' by simp_all
  have d: "disk C (hide ?ids ?w) L T" "w_outs ?w = []" and a: "active_ok ?m (sh_active sh) (sh_next_file_id sh) (hide ?ids ?w) L T"
    using sto by (simp_all add: store_ok_def)
  obtain L0 ars where L: "L = L0 @ [(?aid, ars)]" and off: "af_offset (sh_active sh) = of_nat (log_len ars)"
    and small: "ars = [] \<or> log_len ars < unat ?m" and ta: "T ?aid = []"
    and lk: "lookup (data_path ?aid) (hide ?ids ?w) = Some (bw_file (af_writer (sh_active sh)))"
    and hints: "\<And>f. lookup (hint_path f) (hide ?ids ?w) \<noteq> None \<Longrightarrow> f < ?aid"
    using a by (auto simp: active_ok_def)
  have aid: "?aid \<notin> ?ids" "lookup (data_path ?aid) ?w = Some (bw_file (af_writer (sh_active sh)))"
    using lk by (simp_all add: lookup_hide split: if_splits)
  have old: "old_file eg f" if "f \<in> ?in" for f using env that by (auto simp: live_env_def)
  have aidin: "?aid \<notin> ?in" using old act by blast
  have dis: "?ids \<inter> ?in = {}" using old new by blast
  obtain w2 where rm: "remove_old_input_files (map fst Lin) (sh_files sh, ?w) = (fold forget (map fst Lin) (sh_files sh), w2)"
    and wf: "without_file ?in ?w w2"
    using remove_old_input_files_ok [OF w d(2), of "map fst Lin" "sh_files sh"] by auto
  have so: "same_outside ?in ?w w2" using wf by (simp add: without_file_def)
  note dl = disk_left [OF d(1) cl s dis wf]
  let ?K = "filter (\<lambda>x. fst x \<notin> ?in) L @ outs" and ?L = "left_files Lin L outs"
  have setL: "set ?L = set ?K" using sorted_files(3) [OF dl(2)] by (simp add: left_files_def)
  have le: "f \<le> ?aid" if "f \<in> fst ` set L" for f
    using last_newest [OF diskD(1) [OF d(1)] that] by (simp add: L)
  show thesis
  proof (rule that [OF rm idx dl(1)])
    show "world_ok w2" "w_outs w2 = []" using wf by (simp_all add: without_file_def)
    have ent: "entries_at (L @ outs) (sh_keydir sh) V" using b' by simp
    show "entries_at ?L (sh_keydir sh) V"
      unfolding entries_at_def
    proof (intro allI)
      fix k
      show "keydir_get k (sh_keydir sh) = None \<and> V k = None \<or>
        (\<exists>e v. keydir_get k (sh_keydir sh) = Some e \<and> V k = Some v \<and> located ?L k e v)"
      proof (rule entries_at_cases [OF ent, of k])
        fix e v assume e: "keydir_get k (sh_keydir sh) = Some e" "V k = Some v" "located (L @ outs) k e v"
        have "kd_file_id e \<notin> ?in" using race_index(1) [OF env idx e(1)] old by blast
        then have "located ?L k e v" by (intro located_subset [OF e(3)]) (auto simp: setL)
        then show ?thesis using e by blast
      qed simp
    qed
    show "readers_ok (fold forget (map fst Lin) (sh_files sh)) w2"
    proof (rule readers_ok_forgotten)
      show "readers_ok (sh_files sh) (hide ?ids ?w)" using b' by simp
      fix f assume "f \<notin> set (map fst Lin)" and "lookup (data_path f) (hide ?ids ?w) \<noteq> None"
      then show "lookup (data_path f) w2 = lookup (data_path f) (hide ?ids ?w)"
        using same_outside_file(1) [OF so, of f] by (simp add: lookup_hide split: if_splits)
    qed
    have "lookup LOCK_FILE w2 = lookup LOCK_FILE ?w" by (rule same_outsideD(1) [OF so]) simp
    then show "\<exists>l. eg_write_lock eg = Some l \<and> w_locks w2 = [l] \<and> lookup LOCK_FILE w2 = Some l"
      using b' wf by (auto simp: without_file_def)
    show "lookup (data_path ?aid) w2 = Some (bw_file (af_writer (sh_active sh)))"
      using same_outside_file(1) [OF so aidin] aid(2) by simp
    have "f \<in> ?ids \<or> f < ?aid" if f: "lookup (hint_path f) w2 \<noteq> None" for f
    proof (cases "f \<in> ?ids")
      case False
      have "f \<notin> ?in" using f wf by (auto simp: without_file_def)
      then have "lookup (hint_path f) (hide ?ids ?w) \<noteq> None"
        using f False same_outside_file(2) [OF so] by (simp add: lookup_hide)
      then show ?thesis using hints by blast
    qed simp
    then show "\<forall>f. lookup (hint_path f) w2 \<noteq> None \<longrightarrow> f \<in> ?ids \<or> f < ?aid" by blast
    show "\<forall>f \<in> fst ` set ?L. f \<in> ?ids \<or> f \<le> ?aid" using le by (auto simp: setL)
    show "fst (last outs) < ?aid \<longrightarrow> (\<exists>L0. ?L = L0 @ [(?aid, ars)])"
    proof
      assume "fst (last outs) < ?aid"
      have "(?aid, ars) \<in> set ?K" using aidin by (simp add: L)
      moreover have "g \<le> ?aid" if g: "g \<in> fst ` set ?K" for g
      proof (cases "g \<in> ?ids")
        case True
        then show ?thesis using last_newest [OF s True] \<open>fst (last outs) < ?aid\<close> by simp
      next
        case False
        then have "g \<in> fst ` set L" using g by auto
        then show ?thesis by (rule le)
      qed
      ultimately show "\<exists>L0. ?L = L0 @ [(?aid, ars)]" unfolding left_files_def using newest_last [OF dl(2)] by metis
    qed
    show "left_tails outs T ?aid = []" using aid(1) ta by (simp add: left_tails_def)
  qed (rule off, rule small)
qed

text \<open>At last the active file is replaced if it is not newer than the outputs.\<close>

lemma race_end:
  assumes r: "raced C eg ws V0 Lin outs sh" and rw: "o_is_read_write (eg_opts eg)"
    and rm: "remove_old_input_files (map fst Lin) (sh_files sh, sh_world sh) = (fs, w2)"
  obtains sh' L T ks where "restore_active_file (fst (last outs)) (sh\<lparr>sh_files := fs, sh_world := w2\<rparr>) = (Inr (), sh')"
    and "live C (eg_unshare eg sh') L T (after_windows ws ks V0)" and "distinct ks" and "set ks \<subseteq> old_keys eg"
    and "\<And>k. k \<in> old_keys eg \<Longrightarrow> k \<in> set ks \<or> (\<exists>k' \<in> set ks. k \<in> write_key ` set (ws k'))"
proof -
  let ?m = "o_max_file_size (eg_opts eg)" and ?af = "sh_active sh" let ?aid = "af_file_id ?af" and ?ids = "fst ` set outs"
  have st: "live_state C eg ws V0 Lin outs (\<lambda>e. kd_file_id e \<in> fst ` set Lin) [] sh" and env: "live_env eg ws Lin"
    and s: "sorted_wrt (<) (map fst outs)"
    using r unfolding raced_def by blast+
  obtain L0 T0 where sto: "store_ok C ?m ((?af, sh_gc sh, sh_next_file_id sh), hide ?ids (sh_world sh)) L0 T0"
    and m: "unat ?m \<le> 2 ^ 63"
    by (rule live_state_store [OF st]) blast
  have a: "af_read_handle ?af = bw_file (af_writer ?af)" "bw_buf (af_writer ?af) = []" "?aid < sh_next_file_id sh" and gc: "gc_ok (sh_gc sh)"
    using sto by (simp_all add: store_ok_def active_ok_def)
  have idlt: "\<forall>f \<in> ?ids. f < sh_next_file_id sh" and kdok: "keydir_ok (sh_keydir sh)" and nid: "unat (sh_next_file_id sh) < 2 ^ 32 - 1"
    using st by (auto simp: live_state_def eg_unshare_def beside_def store_beside_def room_def)
  obtain L T V ks w2' ars where
    rm': "remove_old_input_files (map fst Lin) (sh_files sh, sh_world sh) = (fold forget (map fst Lin) (sh_files sh), w2')"
    and idx: "live_idx eg ws V0 outs (\<lambda>e. kd_file_id e \<in> fst ` set Lin) (sh_keydir sh) V [] ks"
    and d: "disk C w2' L T" "world_ok w2'" "w_outs w2' = []" and ent: "entries_at L (sh_keydir sh) V"
    and rd: "readers_ok (fold forget (map fst Lin) (sh_files sh)) w2'"
    and lock: "\<exists>l. eg_write_lock eg = Some l \<and> w_locks w2' = [l] \<and> lookup LOCK_FILE w2' = Some l"
    and lk: "lookup (data_path ?aid) w2' = Some (bw_file (af_writer ?af))"
    and hints: "\<forall>f. lookup (hint_path f) w2' \<noteq> None \<longrightarrow> f \<in> ?ids \<or> f < ?aid"
    and ids: "\<forall>f \<in> fst ` set L. f \<in> ?ids \<or> f \<le> ?aid"
    and newest: "fst (last outs) < ?aid \<longrightarrow> (\<exists>L0. L = L0 @ [(?aid, ars)])"
    and off: "af_offset ?af = of_nat (log_len ars)" "ars = [] \<or> log_len ars < unat ?m" "T ?aid = []"
    by (rule race_removed [OF r])
  have w2: "w2' = w2" "fold forget (map fst Lin) (sh_files sh) = fs" using rm rm' by simp_all
  note ri = race_index [OF env idx]
  let ?sh = "sh\<lparr>sh_files := fs, sh_world := w2\<rparr>"
  show thesis
  proof (cases "?aid \<le> fst (last outs)")
    case True
    have ids2: "\<forall>f \<in> fst ` set L. f < sh_next_file_id sh" using ids idlt a(3) by (meson order_le_less_trans)
    have hints2: "\<forall>f. lookup (hint_path f) w2 \<noteq> None \<longrightarrow> f < sh_next_file_id sh"
      using hints idlt a(3) unfolding w2 by (meson less_trans)
    obtain j w3 where re: "restore_active_file (fst (last outs)) ?sh = (Inr (), ?sh\<lparr>sh_active := fresh_active (sh_next_file_id sh) j,
        sh_gc := mark_all_durable (sh_gc sh), sh_next_file_id := sh_next_file_id sh + 1, sh_world := w3\<rparr>)"
      and st3: "store_ok C ?m ((fresh_active (sh_next_file_id sh) j, mark_all_durable (sh_gc sh), sh_next_file_id sh + 1), w3)
        (L @ [(sh_next_file_id sh, [])]) (T(sh_next_file_id sh := []))" and ex: "extends w2 w3"
      by (rule restore_active_file_ok [OF d [unfolded w2] a(2) ids2 hints2 nid gc lk [unfolded w2] True, of ?sh ?m]) simp_all
    have "entries_at (L @ [(sh_next_file_id sh, [])]) (sh_keydir sh) V"
      by (rule entries_at_mono [OF ent]) (rule located_more)
    moreover have "readers_ok fs w3" using readers_ok_extends [OF rd [unfolded w2] ex] .
    moreover have "\<exists>l. eg_write_lock eg = Some l \<and> w_locks w3 = [l] \<and> lookup LOCK_FILE w3 = Some l"
      using lock ex unfolding w2 by (auto simp: extends_def)
    ultimately show thesis
      using that [OF re _ ri(3,4,5)] st3 rw m kdok ri(2) by (auto simp: live_def eg_unshare_def)
  next
    case False
    then obtain L1 where L: "L = L1 @ [(?aid, ars)]" using newest by (auto simp: not_le)
    have "f < ?aid" if "lookup (hint_path f) w2 \<noteq> None" for f
      using hints [unfolded w2] that last_newest [OF s, of f] False by (auto simp: not_le intro: order_le_less_trans)
    then have "active_ok ?m ?af (sh_next_file_id sh) w2 L T"
      using L off a lk unfolding w2 active_ok_def by blast
    then have "store_ok C ?m ((?af, sh_gc sh, sh_next_file_id sh), w2) L T"
      using d gc unfolding w2 by (simp add: store_ok_def)
    moreover have "restore_active_file (fst (last outs)) ?sh = (Inr (), ?sh)"
      using False by (simp add: restore_active_file_def)
    ultimately show thesis
      using that [of ?sh L T ks, OF _ _ ri(3,4,5)] rw m kdok ri(2) ent rd lock unfolding w2 by (auto simp: live_def eg_unshare_def)
  qed
qed

section \<open>The whole merge\<close>

lemma live_beside: "live C (eg, w) L T V \<Longrightarrow> beside C [] V (eg, w) L T"
  by (auto simp: live_def beside_def store_beside_def store_ok_def)

lemma merge_race:
  assumes C: "crc32fast_ok C" and lv: "live C (eg, w) L T V"
    and ok: "\<forall>k \<in> old_keys eg. list_all (\<lambda>wr. call_ok (Write wr)) (ws k)"
    and room: "room ((\<Sum>k \<in> old_keys eg. Suc (length (ws k))) + 4) eg"
  obtains s' L' T' ks where "engine_merge_with_hook C (writes_hook C eg ws) (eg, w) = (Inr (), s')"
    and "live C s' L' T' (after_windows ws ks V)" and "distinct ks" and "set ks \<subseteq> old_keys eg"
    and "\<And>k. k \<in> old_keys eg \<Longrightarrow> k \<in> set ks \<or> (\<exists>k' \<in> set ks. k \<in> write_key ` set (ws k'))"
proof -
  let ?m = "o_max_file_size (eg_opts eg)" and ?h = "writes_hook C eg ws"
  obtain af where af: "eg_active eg = Some af" and st: "store_ok C ?m ((af, eg_gc eg, eg_next_file_id eg), w) L T"
    and rw: "o_is_read_write (eg_opts eg)" and ent: "entries_at L (eg_keydir eg) V"
    using lv by (auto simp: live_def)
  have d: "disk C w L T" "world_ok w" "w_outs w = []" using st by (simp_all add: store_ok_def)
  obtain Lin ars where L: "L = Lin @ [(af_file_id af, ars)]" using st by (auto simp: store_ok_def active_ok_def)
  have Lin: "set Lin \<subseteq> set L" "distinct (map fst Lin)" using diskD(2) [OF d(1)] by (auto simp: L)
  have lt: "\<forall>f \<in> fst ` set Lin. f < af_file_id af" using diskD(1) [OF d(1)] by (auto simp: L sorted_wrt_append)
  have in_ids: "collect_input_ids (af_file_id af) w = (Inr (map fst Lin), w)" by (rule collect_inputs [OF d [unfolded L]])
  have oldLin: "kd_file_id e \<in> fst ` set Lin" if e: "keydir_get k (eg_keydir eg) = Some e" and old: "old_file eg (kd_file_id e)" for k e
  proof -
    obtain v where "located L k e v" by (rule entries_at_cases [OF ent, of k]) (use e in auto)
    then have "kd_file_id e \<in> fst ` set L" by (rule located_id)
    then show ?thesis using old af by (auto simp: L old_file_def)
  qed
  have env: "live_env eg ws Lin"
    using lt af ok oldLin by (auto simp: live_env_def old_file_def)
  have sh: "sh_active (eg_share eg af w) = af" "sh_world (eg_share eg af w) = w" by (simp_all add: eg_share_def)
  have rq: "require_write eg = Inr ()" using rw by (simp add: require_write_def)
  show thesis
  proof (cases "Lin = []")
    case True
    have none: "old_keys eg = {}" using oldLin True by (auto simp: old_keys_def)
    have "merge_with_repoint_hook C ?m ?h (eg_share eg af w) = (Inr (), eg_share eg af w)"
      using in_ids True by (simp add: merge_with_repoint_hook_def map_err_def bindE_def on_sh_world_def zoom_def sh)
    moreover have "eg_unshare eg (eg_share eg af w) = (eg, w)" using af by (simp add: eg_unshare_def eg_share_def)
    ultimately have "engine_merge_with_hook C ?h (eg, w) = (Inr (), (eg, w))"
      by (simp add: engine_merge_with_hook_def rq af)
    then show thesis by (rule that [of _ L T "[]"]) (use lv none in auto)
  next
    case False
    have "unvisited eg (\<lambda>e. kd_file_id e \<in> {}) = old_keys eg" by (auto simp: unvisited_def old_keys_def)
    then have rm: "room (need eg ws (\<lambda>e. kd_file_id e \<in> {}) [] + 4) eg" using room by (simp add: need_def)
    obtain hi copied sh outs where c: "compact C ?m ?h (map fst Lin) (eg_share eg af w) = (Inr (hi, copied), sh)"
      and r: "raced C eg ws V Lin outs sh" and hi: "hi = fst (last outs)"
      by (rule compact_race [OF C env Lin live_beside [OF lv] af rm])
    obtain fs w2 where re: "remove_old_input_files (map fst Lin) (sh_files sh, sh_world sh) = (fs, w2)" by fastforce
    obtain sh' L' T' ks where ra: "restore_active_file (fst (last outs)) (sh\<lparr>sh_files := fs, sh_world := w2\<rparr>) = (Inr (), sh')"
      and lv': "live C (eg_unshare eg sh') L' T' (after_windows ws ks V)" and ks: "distinct ks" "set ks \<subseteq> old_keys eg"
      and all: "\<And>k. k \<in> old_keys eg \<Longrightarrow> k \<in> set ks \<or> (\<exists>k' \<in> set ks. k \<in> write_key ` set (ws k'))"
      by (rule race_end [OF r rw re]) blast
    let ?sh = "sh'\<lparr>sh_metrics := record_metric (RecordMergeSummary (length Lin) copied) (sh_metrics sh')\<rparr>"
    have "merge_with_repoint_hook C ?m ?h (eg_share eg af w) = (Inr (), ?sh)"
      using False in_ids c re ra hi
      by (simp add: merge_with_repoint_hook_def map_err_def bindE_def on_sh_world_def zoom_def sh) (simp add: eg_share_def)
    then have mg: "engine_merge_with_hook C ?h (eg, w) = (Inr (), eg_unshare eg ?sh)"
      by (simp add: engine_merge_with_hook_def rq af)
    have "live C (eg_unshare eg ?sh) L' T' (after_windows ws ks V)"
      using lv' by (simp add: eg_unshare_def live_def)
    with mg show thesis using ks all by (rule that)
  qed
qed

text \<open>
  C6: A merge never loses a write of another thread. Whatever puts and deletes other threads run in the windows between
  the copying of an entry and its repoint, the merge succeeds, and afterwards every get answers as if the writes of
  the windows had been applied, one window after the other, to what the datastore held before; each key has at most
  one window, and every key whose entry was in an old file had one, or was written in the window of another key.
\<close>

theorem merge_keeps_concurrent_writes:
  assumes "crc32fast_ok C" and "engine_rep C opts n s m" and "\<forall>k \<in> dom m. list_all (\<lambda>wr. call_ok (Write wr)) (ws k)"
    and "(\<Sum>k \<in> dom m. Suc (length (ws k))) + 3 \<le> n"
  shows "\<exists>s' ks. engine_merge_with_hook C (writes_hook C (fst s) ws) s = (Inr (), s') \<and>
    (\<forall>k. fst (engine_get k s') = Inr (after_windows ws ks m k)) \<and> distinct ks \<and> set ks \<subseteq> old_keys (fst s) \<and>
    (\<forall>k \<in> old_keys (fst s). k \<in> set ks \<or> (\<exists>k' \<in> set ks. k \<in> write_key ` set (ws k')))"
proof -
  obtain eg w L T where s: "s = (eg, w)" and inv: "eng_inv C (eg, w) L T" and m: "contents L = m" and rm: "room (Suc n) eg"
    using assms(2) by (cases s) (auto simp: engine_rep_def)
  have lv: "live C (eg, w) L T m" using live_of_inv [OF inv] by (simp add: m)
  have "m k \<noteq> None" if "keydir_get k (eg_keydir eg) = Some e" for k e
  proof -
    have "entries_at L (eg_keydir eg) m" using lv by (simp add: live_def)
    then show ?thesis by (rule entries_at_cases [of _ _ _ k]) (use that in auto)
  qed
  then have sub: "old_keys eg \<subseteq> dom m" by (auto simp: old_keys_def)
  have "finite (dom m)" using m finite_keys_of by (metis dom_contents dom_index_files finite_subset)
  then have "(\<Sum>k \<in> old_keys eg. Suc (length (ws k))) \<le> (\<Sum>k \<in> dom m. Suc (length (ws k)))"
    by (intro sum_mono2) (use sub in auto)
  then have "room ((\<Sum>k \<in> old_keys eg. Suc (length (ws k))) + 4) eg" using rm assms(4) by (auto intro: room_weaken)
  then have rm': "room ((\<Sum>k \<in> old_keys eg. Suc (length (ws k))) + 4) eg" .
  have ok: "\<forall>k \<in> old_keys eg. list_all (\<lambda>wr. call_ok (Write wr)) (ws k)" using assms(3) sub by blast
  obtain s' L' T' ks where mg: "engine_merge_with_hook C (writes_hook C eg ws) (eg, w) = (Inr (), s')"
    and lv': "live C s' L' T' (after_windows ws ks m)" and ks: "distinct ks" "set ks \<subseteq> old_keys eg"
    and all: "\<And>k. k \<in> old_keys eg \<Longrightarrow> k \<in> set ks \<or> (\<exists>k' \<in> set ks. k \<in> write_key ` set (ws k'))"
    by (rule merge_race [OF assms(1) lv ok rm']) blast
  have "\<forall>k. fst (engine_get k s') = Inr (after_windows ws ks m k)" using live_get [OF lv'] by simp
  then show ?thesis using mg ks all unfolding s fst_conv by blast
qed

section \<open>A store with an entry in an old file\<close>

lemma reopened_old:
  assumes "engine_rep C opts (Suc n) s m" and "flock_ok flk"
  obtains s' where "engine_open C flk opts (engine_drop s) = (Inr (fst s'), snd s')" and "engine_rep C opts n s' m"
    and "old_keys (fst s') = dom m"
proof -
  obtain eg w L T where s: "s = (eg, w)" and inv: "eng_inv C (eg, w) L T" and m: "contents L = m"
    and r: "room (Suc (Suc n)) eg" and o: "eg_opts eg = opts"
    using assms(1) by (rule engine_repE)
  note d = engine_drop_inv [OF inv]
  have opts: "o_is_read_write opts" "unat (o_max_file_size opts) \<le> 2 ^ 63"
    using inv o by (auto simp: eng_inv_def)
  have n: "next_id L + n + 2 < 2 ^ 32" "n + 1 < 2 ^ 64" using r d(2,3) by (simp_all add: room_def next_id_def word_less_nat_alt)
  then have lt: "next_id L < 2 ^ 32 - 1" by simp
  obtain eg' w' fid where e: "engine_open C flk opts (engine_drop s) = (Inr eg', w')"
    and i: "eng_inv C (eg', w') (L @ [(fid, [])]) (T(fid := []))" and p: "eg_opts eg' = opts"
      "unat (eg_next_file_id eg') = Suc (next_id L)" "gc_pending_writes (eg_gc eg') = 0" and ids: "fst ` set L \<subseteq> {f. f < fid}"
    using engine_open_inv [OF d(1) lt assms(2) opts] unfolding s by blast
  have rep: "engine_rep C opts n (eg', w') m"
    by (rule engine_repI [OF i]) (use p n m in \<open>simp_all add: room_def\<close>)
  obtain af where af: "eg_active eg' = Some af" "af_file_id af = fid"
    using i by (auto simp: eng_inv_def store_ok_def active_ok_def)
  have ent: "entries_at (L @ [(fid, [])]) (eg_keydir eg') m" using live_of_inv [OF i] m by (simp add: live_def)
  have "k \<in> old_keys eg' \<longleftrightarrow> k \<in> dom m" for k
  proof (rule entries_at_cases [OF ent, of k])
    fix x v assume x: "keydir_get k (eg_keydir eg') = Some x" "m k = Some v" "located (L @ [(fid, [])]) k x v"
    have "located L k x v" using x(3) by (auto simp: located_def)
    then have "kd_file_id x < fid" using located_id ids by blast
    then show ?thesis using x af by (auto simp: old_keys_def old_file_def)
  qed (auto simp: old_keys_def)
  then show thesis using that [of "(eg', w')"] e rep by auto
qed

lemma old_entry_store:
  obtains s where "engine_rep byte_sum sync_options 9 s [[107] \<mapsto> [1]]" and "old_keys (fst s) = {[107]}"
proof -
  have r: "engine_rep byte_sum sync_options (Suc 10) demo_db Map.empty" by (rule demo_rep(1)) simp
  obtain s0 where "engine_rep byte_sum sync_options (Suc 9) s0 [[107] \<mapsto> [1]]"
    using put_refines [OF r, of "[107]" "[1]" 7] by (auto simp: valid_key_def sizes_ok_def)
  then show thesis by (rule reopened_old [OF _ toy_flock_ok]) (rule that, simp_all)
qed

lemma merge_keeps_concurrent_writes_witness:
  "\<exists>s s'. engine_rep byte_sum sync_options 9 s [[107] \<mapsto> [1]] \<and> fst (engine_get [107] s') = Inr (Some [2]) \<and>
    engine_merge_with_hook byte_sum (writes_hook byte_sum (fst s) (\<lambda>_. [PutW [107] [2] 8])) s = (Inr (), s')"
proof -
  let ?ws = "\<lambda>_ :: bytes. [PutW [107] [2] 8]"
  obtain s where s: "engine_rep byte_sum sync_options 9 s [[107] \<mapsto> [1]]" and old: "old_keys (fst s) = {[107]}"
    by (rule old_entry_store)
  have ok: "\<forall>k \<in> dom [[107] \<mapsto> [1]]. list_all (\<lambda>wr. call_ok (Write wr)) (?ws k)" by (simp add: valid_key_def sizes_ok_def)
  obtain s' ks where mg: "engine_merge_with_hook byte_sum (writes_hook byte_sum (fst s) ?ws) s = (Inr (), s')"
    and g: "\<forall>k. fst (engine_get k s') = Inr (after_windows ?ws ks [[107] \<mapsto> [1]] k)"
    and ks: "distinct ks" "set ks \<subseteq> {[107]}" "\<forall>k \<in> {[107]}. k \<in> set ks \<or> (\<exists>k' \<in> set ks. k \<in> write_key ` set (?ws k'))"
    using merge_keeps_concurrent_writes [OF byte_sum_ok s ok] unfolding old by auto
  have "ks = [[107]]" using ks by (cases ks; cases "tl ks") auto
  then have "fst (engine_get [107] s') = Inr (Some [2])" using g by (simp add: after_windows_def after_writes_def)
  then show ?thesis using s mg by blast
qed

end
