(* ===== verification/MergeFaults.thy ===== *)
theory MergeFaults
  imports Faults MergeSafe
begin

text \<open>
  The environment that \<open>Faults\<close> assumes of the windows of a merge (\<open>hook_ok\<close>): the puts and deletes that other threads
  make in them are such an environment, whatever system calls fail.
\<close>

definition keeps_handle :: "engine \<times> world \<Rightarrow> engine \<times> world \<Rightarrow> bool" where
  "keeps_handle s s' \<longleftrightarrow> keeps (snd s) (snd s') \<and> (keydir_ok (eg_keydir (fst s)) \<longrightarrow> keydir_ok (eg_keydir (fst s')))"

interpretation hk: fault_relation keeps_handle
  by unfold_locales (auto simp: keeps_handle_def wk.refl intro: wk.trans)

lemma write_call_kept:
  assumes "engine_call C (Write wr) s = Some (r, s')"
  shows "keeps_handle s s'"
proof -
  obtain eg w eg' w' where s: "s = (eg, w)" "s' = (eg', w')" by fastforce
  show ?thesis
  proof (cases wr)
    case (PutW k v ts)
    then obtain x where "engine_put C k v ts (eg, w) = Some (x, eg', w')" using assms by (auto simp: s)
    from engine_put_kept [OF this] show ?thesis by (simp add: keeps_handle_def s)
  next
    case (DeleteW k ts)
    then obtain x where "engine_delete C k ts (eg, w) = Some (x, eg', w')" using assms by (auto simp: s)
    from engine_delete_kept [OF this] show ?thesis by (simp add: keeps_handle_def s)
  qed
qed

lemma run_writes_kept: "keeps_handle s (run_writes C wrs s)"
proof (induction wrs arbitrary: s)
  case (Cons wr wrs)
  have "keeps_handle s (case engine_call C (Write wr) s of Some (_, s') \<Rightarrow> s' | None \<Rightarrow> s)"
    using write_call_kept [of C wr s] by (auto simp: hk.refl split: option.splits)
  from hk.trans [OF this Cons.IH] show ?case unfolding run_writes_simps .
qed (simp add: hk.refl)

lemma writes_hook_ok: "hook_ok (writes_hook C eg ws)"
  unfolding hook_ok_def
proof (intro allI)
  fix key sh
  obtain eg' w' where r: "run_writes C (ws key) (eg_unshare eg sh) = (eg', w')" by fastforce
  have "keeps_handle (eg_unshare eg sh) (eg', w')" using run_writes_kept [of "eg_unshare eg sh" C "ws key"] unfolding r .
  then have "keeps (sh_world sh) w' \<and> (keydir_ok (sh_keydir sh) \<longrightarrow> keydir_ok (eg_keydir eg'))"
    by (simp add: keeps_handle_def eg_unshare_def)
  then show "keeps_s sh (writes_hook C eg ws key sh)"
    by (simp add: writes_hook_def r keeps_s_def eg_share_def wk.refl split: option.splits)
qed

end
