(* ===== verification/MergeGet.thy ===== *)
theory MergeGet
  imports MergeSafe
begin

text \<open>
  A get that a merge overtakes. A get looks up its entry, releases the lock of the index and reads the file later. If a
  merge runs in between, the file is gone: merge unlinks it and also drops the cached handle, which would have
  kept it readable. The get fails, although the key is in the store all the time.
\<close>

lemma file_gone:
  assumes "disk C w L T" and "f \<notin> fst ` set L"
  shows "lookup (data_path f) w = None"
proof -
  have "map_of L f = None" using assms(2) by (simp add: map_of_eq_None_iff)
  then show ?thesis using diskD(3) [OF assms(1), of f] by (simp add: file_bytes_None)
qed

lemma removed_file_unread:
  assumes "eng_inv C (eg, w) L T" and "lookup (data_path (kd_file_id ent)) w = None"
  shows "\<exists>s'. read_stage k ent (eg, w) = (Answered (GetCall k) (Inl (Io NotFound)), s')"
proof -
  have r: "readers_ok (eg_files eg) w" and o: "w_outs w = []" using assms(1) by (auto simp: eng_inv_def store_ok_def)
  have "map_of (dfs_readers (eg_files eg)) (kd_file_id ent) = None"
    using r assms(2) by (cases "map_of (dfs_readers (eg_files eg)) (kd_file_id ent)") (auto simp: readers_ok_def)
  then show ?thesis using assms(2) o
    by (auto simp: read_stage_def read_value_def dfs_read_at_def bindE_def zoom_def on_world_def open_read_def map_err_def sys_def)
qed

text \<open>
  C7: A get is not safe against a merge. For every key whose entry is in an old file: if the get has looked up its entry when a
  merge starts and reads the value after the merge has ended, then it fails with \<open>NotFound\<close>, whether or not the file was in the
  cache of handles; a get that starts after the merge finds the value, and so would one before it.
\<close>

theorem get_racing_merge_fails:
  assumes "crc32fast_ok C" and "engine_rep C opts (n + card (dom m) + 2) s m" and "k \<in> old_keys (fst s)"
  shows "\<exists>ent s' s''. thread_step C (Called (GetCall k)) s = Some (Reading k ent, s) \<and> engine_merge C s = (Inr (), s') \<and>
    thread_step C (Reading k ent) s' = Some (Answered (GetCall k) (Inl (Io NotFound)), s'') \<and>
    m k \<noteq> None \<and> fst (engine_get k s) = Inr (m k) \<and> fst (engine_get k s') = Inr (m k)"
proof -
  obtain eg w L T where s: "s = (eg, w)" and inv: "eng_inv C (eg, w) L T" and m: "contents L = m"
    and r: "room (Suc (n + card (dom m) + 2)) eg"
    using assms(2) by (rule engine_repE)
  have rm: "unat (eg_next_file_id eg) + card (dom (contents L)) + 4 \<le> 2 ^ 32" using r m by (simp add: room_def)
  obtain eg' w' L' T' where mg: "engine_merge C (eg, w) = (Inr (), (eg', w'))" and inv': "eng_inv C (eg', w') L' T'"
    and m': "contents L' = contents L" and new: "\<And>af f. eg_active eg = Some af \<Longrightarrow> f \<in> fst ` set L' \<Longrightarrow> af_file_id af \<le> f"
    by (rule engine_merge_inv [OF inv assms(1) rm]) blast
  obtain ent where ent: "keydir_get k (eg_keydir eg) = Some ent" and old: "old_file eg (kd_file_id ent)"
    using assms(3) by (auto simp: s old_keys_def)
  note lv = live_of_inv [OF inv, unfolded m] and lv' = live_of_inv [OF inv', unfolded m' m]
  have "m k \<noteq> None"
    by (rule entries_at_cases [of L "eg_keydir eg" m k]) (use lv ent in \<open>auto simp: live_def\<close>)
  moreover have "kd_file_id ent \<notin> fst ` set L'" using old new by (fastforce simp: old_file_def split: option.splits)
  then have "lookup (data_path (kd_file_id ent)) w' = None"
    using inv' by (intro file_gone) (auto simp: eng_inv_def store_ok_def)
  then obtain s'' where "read_stage k ent (eg', w') = (Answered (GetCall k) (Inl (Io NotFound)), s'')"
    using removed_file_unread [OF inv'] by blast
  ultimately show ?thesis using live_get [OF lv] live_get [OF lv'] mg ent by (simp add: s)
qed

lemma get_racing_merge_fails_witness:
  "\<exists>s s' ent s''. engine_rep byte_sum sync_options 9 s [[107] \<mapsto> [1]] \<and> engine_merge byte_sum s = (Inr (), s') \<and>
    thread_step byte_sum (Called (GetCall [107])) s = Some (Reading [107] ent, s) \<and>
    thread_step byte_sum (Reading [107] ent) s' = Some (Answered (GetCall [107]) (Inl (Io NotFound)), s'')"
proof -
  obtain s where s: "engine_rep byte_sum sync_options 9 s [[107] \<mapsto> [1]]" and old: "old_keys (fst s) = {[107]}"
    by (rule old_entry_store)
  have "engine_rep byte_sum sync_options (6 + card (dom [[107 :: u8] \<mapsto> [1 :: u8]]) + 2) s [[107] \<mapsto> [1]]" using s by simp
  then show ?thesis using get_racing_merge_fails [OF byte_sum_ok, of sync_options 6 "[[107] \<mapsto> [1]]" s "[107]"] s old by blast
qed

end
