(* ===== verification/Utf8.thy ===== *)
theory Utf8
  imports Prelude
begin

text \<open>
  What the front ends use of Rust's strings: a \<open>String\<close> is a list of Unicode scalar values, its bytes are
  their UTF-8 encoding, and \<open>from_utf8_lossy\<close> decodes any bytes, with U+FFFD for what is not UTF-8.
\<close>

type_synonym text_str = "nat list"

definition scalar :: "nat \<Rightarrow> bool" where
  "scalar c \<longleftrightarrow> c < 0xD800 \<or> 0xE000 \<le> c \<and> c < 0x110000"

definition char_bytes :: "nat \<Rightarrow> nat list" where
  "char_bytes c =
     (if c < 0x80 then [c]
      else if c < 0x800 then [0xC0 + c div 64, 0x80 + c mod 64]
      else if c < 0x10000 then [0xE0 + c div 4096, 0x80 + c div 64 mod 64, 0x80 + c mod 64]
      else [0xF0 + c div 262144, 0x80 + c div 4096 mod 64, 0x80 + c div 64 mod 64, 0x80 + c mod 64])"

definition as_bytes :: "text_str \<Rightarrow> bytes" where
  "as_bytes s = concat (map (\<lambda>c. map of_nat (char_bytes c)) s)"

section \<open>Decoding\<close>

definition continuation :: "nat \<Rightarrow> bool" where
  "continuation b \<longleftrightarrow> 0x80 \<le> b \<and> b \<le> 0xBF"

definition char_width :: "nat \<Rightarrow> nat" where
  "char_width b =
     (if b < 0x80 then 1 else if 0xC2 \<le> b \<and> b \<le> 0xDF then 2 else if 0xE0 \<le> b \<and> b \<le> 0xEF then 3
      else if 0xF0 \<le> b \<and> b \<le> 0xF4 then 4 else 0)"

definition second_ok :: "nat \<Rightarrow> nat \<Rightarrow> bool" where
  "second_ok b n \<longleftrightarrow> continuation n \<and>
     (b = 0xE0 \<longrightarrow> 0xA0 \<le> n) \<and> (b = 0xED \<longrightarrow> n \<le> 0x9F) \<and> (b = 0xF0 \<longrightarrow> 0x90 \<le> n) \<and> (b = 0xF4 \<longrightarrow> n \<le> 0x8F)"

text \<open>The next byte, 0 past the end (no continuation byte).\<close>

definition safe_get :: "nat list \<Rightarrow> nat \<Rightarrow> nat" where
  "safe_get xs i = (if i < length xs then xs ! i else 0)"

text \<open>One scalar value, or none, and how many bytes are used up.\<close>

definition decode_char :: "nat list \<Rightarrow> nat option \<times> nat" where
  "decode_char bs =
     (let b = safe_get bs 0; b1 = safe_get bs 1; b2 = safe_get bs 2; b3 = safe_get bs 3; w = char_width b
      in if w = 0 then (None, 1)
         else if w = 1 then (Some b, 1)
         else if \<not> second_ok b b1 then (None, 1)
         else if w = 2 then (Some ((b - 0xC0) * 64 + (b1 - 0x80)), 2)
         else if \<not> continuation b2 then (None, 2)
         else if w = 3 then (Some ((b - 0xE0) * 4096 + (b1 - 0x80) * 64 + (b2 - 0x80)), 3)
         else if \<not> continuation b3 then (None, 3)
         else (Some ((b - 0xF0) * 262144 + (b1 - 0x80) * 4096 + (b2 - 0x80) * 64 + (b3 - 0x80)), 4))"

lemma decode_char_uses: "0 < snd (decode_char bs)"
  by (simp add: decode_char_def Let_def)

function decode_chars :: "nat list \<Rightarrow> nat option list" where
  "decode_chars [] = []"
| "decode_chars (b # bs) =
     (let (c, n) = decode_char (b # bs) in c # decode_chars (drop n (b # bs)))"
  by pat_completeness auto
termination
proof (relation "measure length")
  fix b :: nat and bs x c n
  assume "x = decode_char (b # bs)" "(c, n) = x"
  then have "0 < n" using decode_char_uses [of "b # bs"] by (metis snd_conv)
  then show "(drop n (b # bs), b # bs) \<in> measure length" by simp
qed simp

definition from_utf8_lossy :: "bytes \<Rightarrow> text_str" where
  "from_utf8_lossy bs = map (\<lambda>c. case c of Some c \<Rightarrow> c | None \<Rightarrow> 0xFFFD) (decode_chars (map unat bs))"

definition from_utf8 :: "bytes \<Rightarrow> text_str option" where
  "from_utf8 bs = (let cs = decode_chars (map unat bs) in if None \<in> set cs then None else Some (map the cs))"

section \<open>Round trip\<close>

lemma safe_get_simps [simp]:
  "safe_get (x # xs) 0 = x" "safe_get (x # y # xs) 1 = y" "safe_get (x # y # xs) (Suc 0) = y"
  "safe_get (x # y # z # xs) 2 = z" "safe_get (x # y # z # u # xs) 3 = u"
  by (simp_all add: safe_get_def numeral_2_eq_2 numeral_3_eq_3)

lemma split_64: "(c :: nat) div 64 * 64 + c mod 64 = c" "c div 4096 * 4096 + c div 64 mod 64 * 64 + c mod 64 = c"
  "c div 262144 * 262144 + c div 4096 mod 64 * 4096 + c div 64 mod 64 * 64 + c mod 64 = c"
proof -
  show a: "c div 64 * 64 + c mod 64 = c" for c :: nat by simp
  have "c div 4096 * 64 + c div 64 mod 64 = c div 64"
    using a [of "c div 64"] by (simp add: div_mult2_eq [symmetric])
  then show b: "c div 4096 * 4096 + c div 64 mod 64 * 64 + c mod 64 = c" using a [of c] by linarith
  have "c div 262144 * 64 + c div 4096 mod 64 = c div 4096"
    using a [of "c div 4096"] by (simp add: div_mult2_eq [symmetric])
  then show "c div 262144 * 262144 + c div 4096 mod 64 * 4096 + c div 64 mod 64 * 64 + c mod 64 = c" using b by linarith
qed

lemma decode_char_2: "2 \<le> p \<Longrightarrow> p < 32 \<Longrightarrow> q < 64 \<Longrightarrow>
  decode_char ((0xC0 + p) # (0x80 + q) # rest) = (Some (p * 64 + q), 2)"
  by (simp add: decode_char_def char_width_def second_ok_def continuation_def Let_def)

lemma decode_char_3: "p < 16 \<Longrightarrow> q < 64 \<Longrightarrow> r < 64 \<Longrightarrow> (p = 0 \<Longrightarrow> 32 \<le> q) \<Longrightarrow> (p = 13 \<Longrightarrow> q < 32) \<Longrightarrow>
  decode_char ((0xE0 + p) # (0x80 + q) # (0x80 + r) # rest) = (Some (p * 4096 + q * 64 + r), 3)"
  by (auto simp: decode_char_def char_width_def second_ok_def continuation_def Let_def)

lemma decode_char_4: "p < 5 \<Longrightarrow> q < 64 \<Longrightarrow> r < 64 \<Longrightarrow> t < 64 \<Longrightarrow> (p = 0 \<Longrightarrow> 16 \<le> q) \<Longrightarrow> (p = 4 \<Longrightarrow> q < 16) \<Longrightarrow>
  decode_char ((0xF0 + p) # (0x80 + q) # (0x80 + r) # (0x80 + t) # rest) =
    (Some (p * 262144 + q * 4096 + r * 64 + t), 4)"
  by (auto simp: decode_char_def char_width_def second_ok_def continuation_def Let_def)

lemma decode_char_bytes:
  assumes "scalar c"
  shows "decode_char (char_bytes c @ rest) = (Some c, length (char_bytes c))"
proof -
  have m: "c mod 64 < 64" "c div 64 mod 64 < 64" "c div 4096 mod 64 < 64" by simp_all
  consider "c < 0x80" | "0x80 \<le> c" "c < 0x800" | "0x800 \<le> c" "c < 0x10000" | "0x10000 \<le> c" by linarith
  then show ?thesis
  proof cases
    case 1
    then show ?thesis by (simp add: char_bytes_def decode_char_def char_width_def Let_def)
  next
    case 2
    then have d: "2 \<le> c div 64" "c div 64 < 32" by (auto intro: div_le_mono [of 128 c 64, simplified])
    have cb: "char_bytes c = [0xC0 + c div 64, 0x80 + c mod 64]" using 2 by (simp add: char_bytes_def)
    show ?thesis unfolding cb using decode_char_2 [OF d m(1), of rest] split_64(1) [of c] by simp
  next
    case 3
    have cb: "char_bytes c = [0xE0 + c div 4096, 0x80 + c div 64 mod 64, 0x80 + c mod 64]"
      using 3 by (simp add: char_bytes_def)
    have d: "c div 4096 < 16" using 3 by simp
    have q: "c div 4096 * 64 + c div 64 mod 64 = c div 64" "c div 64 * 64 + c mod 64 = c"
      using split_64(1) [of "c div 64"] split_64(1) [of c] by (simp_all add: div_mult2_eq [symmetric])
    then have "32 \<le> c div 64 mod 64" if "c div 4096 = 0" using that 3 m by linarith
    moreover have "c div 64 mod 64 < 32" if "c div 4096 = 13" using that 3 assms q m unfolding scalar_def by linarith
    ultimately show ?thesis
      unfolding cb using decode_char_3 [OF d m(2,1), of rest] split_64(2) [of c] by simp
  next
    case 4
    have cb: "char_bytes c = [0xF0 + c div 262144, 0x80 + c div 4096 mod 64, 0x80 + c div 64 mod 64, 0x80 + c mod 64]"
      using 4 by (simp add: char_bytes_def)
    have b: "c < 0x110000" using assms 4 by (simp add: scalar_def)
    then have d: "c div 262144 < 5" by simp
    have q: "c div 262144 * 64 + c div 4096 mod 64 = c div 4096" "c div 4096 * 4096 + c mod 4096 = c"
      using split_64(1) [of "c div 4096"] by (simp_all add: div_mult2_eq [symmetric])
    moreover have "c mod 4096 < 4096" by simp
    ultimately have "16 \<le> c div 4096 mod 64" if "c div 262144 = 0" using that 4 m by linarith
    moreover have "c div 4096 mod 64 < 16" if "c div 262144 = 4" using that b q m \<open>c mod 4096 < 4096\<close> by linarith
    ultimately show ?thesis
      unfolding cb using decode_char_4 [OF d m(3,2,1), of rest] split_64(3) [of c] by simp
  qed
qed

lemma char_bytes_byte: "scalar c \<Longrightarrow> b \<in> set (char_bytes c) \<Longrightarrow> b < 256"
proof -
  assume "scalar c" "b \<in> set (char_bytes c)"
  moreover have "c mod 64 < 64" "c div 64 mod 64 < 64" "c div 4096 mod 64 < 64" by simp_all
  moreover have "c div 64 < 32" if "c < 0x800" using that by simp
  moreover have "c div 4096 < 16" if "c < 0x10000" using that by simp
  moreover have "c div 262144 < 5" if "c < 0x110000" using that by simp
  ultimately show ?thesis by (auto simp: scalar_def char_bytes_def split: if_splits)
qed

lemma char_bytes_nonempty: "char_bytes c \<noteq> []"
  by (simp add: char_bytes_def)

lemma decode_chars_bytes: "scalar c \<Longrightarrow> decode_chars (char_bytes c @ rest) = Some c # decode_chars rest"
proof -
  assume "scalar c"
  then have d: "decode_char (char_bytes c @ rest) = (Some c, length (char_bytes c))" by (rule decode_char_bytes)
  obtain b bs where b: "char_bytes c @ rest = b # bs" using char_bytes_nonempty [of c] by (cases "char_bytes c @ rest") auto
  have "drop (length (char_bytes c)) (b # bs) = rest" unfolding b [symmetric] by simp
  then show ?thesis using d unfolding b by simp
qed

lemma decode_chars_as_bytes: "list_all scalar s \<Longrightarrow> decode_chars (map unat (as_bytes s)) = map Some s"
proof (induction s)
  case Nil
  then show ?case by (simp add: as_bytes_def)
next
  case (Cons c s)
  have "map (unat \<circ> (of_nat :: nat \<Rightarrow> u8)) (char_bytes c) = map (\<lambda>b. b) (char_bytes c)"
    using char_bytes_byte [of c] Cons.prems by (intro map_cong) (auto simp: unat_of_nat)
  then have "map unat (as_bytes (c # s)) = char_bytes c @ map unat (as_bytes s)"
    by (simp add: as_bytes_def)
  then show ?case using Cons decode_chars_bytes [of c] by simp
qed

lemma from_utf8_lossy_as_bytes [simp]: "list_all scalar s \<Longrightarrow> from_utf8_lossy (as_bytes s) = s"
  by (simp add: from_utf8_lossy_def decode_chars_as_bytes comp_def)

lemma from_utf8_as_bytes [simp]: "list_all scalar s \<Longrightarrow> from_utf8 (as_bytes s) = Some s"
  by (auto simp: from_utf8_def decode_chars_as_bytes comp_def Let_def)

end
