(* ===== verification/Kv.thy ===== *)
theory Kv
  imports Demo Utf8
begin

text \<open>
  \<open>src/bin/kv.rs\<close>: the command line tool. Each run is a process of its own: it opens the datastore, does
  one operation, closes and exits. Parsing the arguments is \<open>clap\<close>'s.
\<close>

section \<open>The program\<close>

datatype command =
    AddCmd text_str text_str
  | GetCmd text_str
  | RmCmd text_str
  | ListCmd
  | MergeCmd

datatype exit_code = Success | Failure

datatype output_line = Stdout text_str | Stderr text_str

definition ascii :: "string \<Rightarrow> text_str" where
  "ascii = map of_char"

type_synonym 'a kv_result = "((error + 'a) \<times> output_line list \<times> engine \<times> world) option"

definition kv_unit :: "((error + unit) \<times> engine \<times> world) option \<Rightarrow> exit_code kv_result" where
  "kv_unit r = map_option (\<lambda>(res, s). (map_sum (\<lambda>e. e) (\<lambda>_. Success) res, [], s)) r"

text \<open>The match of \<open>run\<close>. The listing opens the directory a second time, for reading.\<close>

fun kv_command :: "'h crc32fast \<Rightarrow> flock \<Rightarrow> iter_order \<Rightarrow> u32 \<Rightarrow> command \<Rightarrow> engine \<times> world \<Rightarrow> exit_code kv_result" where
  "kv_command C flk kord now (AddCmd key val) db = kv_unit (engine_put C (as_bytes key) (as_bytes val) now db)"
| "kv_command C flk kord now (GetCmd key) db =
     Some (case engine_get (as_bytes key) db of
       (Inl e, db) \<Rightarrow> (Inl e, [], db)
     | (Inr (Some val), db) \<Rightarrow> (Inr Success, [Stdout (from_utf8_lossy val)], db)
     | (Inr None, db) \<Rightarrow> (Inr Failure, [Stderr (ascii ''key not found'')], db))"
| "kv_command C flk kord now (RmCmd key) db = kv_unit (engine_delete C (as_bytes key) now db)"
| "kv_command C flk kord now ListCmd (eg, w) =
     Some (case engine_open C flk (read_only default_options) w of
       (Inl e, w) \<Rightarrow> (Inl e, [], (eg, w))
     | (Inr ro, w) \<Rightarrow>
         (case list_keys kord (ro, w) of
            (Inl e, ro) \<Rightarrow> (Inl e, [], (eg, engine_drop ro))
          | (Inr keys, ro) \<Rightarrow> (Inr Success, map (\<lambda>key. Stdout (from_utf8_lossy key)) keys, (eg, engine_drop ro))))"
| "kv_command C flk kord now MergeCmd db = kv_unit (Some (engine_merge C db))"

definition kv_run :: "'h crc32fast \<Rightarrow> flock \<Rightarrow> iter_order \<Rightarrow> u32 \<Rightarrow> command \<Rightarrow> world \<Rightarrow>
    ((error + exit_code) \<times> output_line list \<times> world) option" where
  "kv_run C flk kord now cmd w =
     (case engine_open C flk default_options w of
        (Inl e, w) \<Rightarrow> Some (Inl e, [], w)
      | (Inr eg, w) \<Rightarrow>
          (case kv_command C flk kord now cmd (eg, w) of
             None \<Rightarrow> None
           | Some (Inl e, out, db) \<Rightarrow> Some (Inl e, out, engine_drop db)
           | Some (Inr code, out, db) \<Rightarrow>
               (case engine_close db of
                  (Inl e, w) \<Rightarrow> Some (Inl e, out, w)
                | (Inr _, w) \<Rightarrow> Some (Inr code, out, w))))"

definition kv_main :: "(io_error \<Rightarrow> string) \<Rightarrow> 'h crc32fast \<Rightarrow> flock \<Rightarrow> iter_order \<Rightarrow> u32 \<Rightarrow> command \<Rightarrow> world \<Rightarrow>
    (exit_code \<times> output_line list \<times> world) option" where
  "kv_main show_io C flk kord now cmd w =
     map_option (\<lambda>(res, out, w). case res of
         Inr code \<Rightarrow> (code, out, w)
       | Inl err \<Rightarrow> (Failure, out @ [Stderr (ascii (''error: '' @ display show_io err))], w))
       (kv_run C flk kord now cmd w)"

section \<open>A directory between two runs\<close>

definition dir_holds :: "'h crc32fast \<Rightarrow> nat \<Rightarrow> world \<Rightarrow> kv \<Rightarrow> bool" where
  "dir_holds C n w m \<longleftrightarrow> (\<exists>L T. closed_ok C w L T \<and> contents L = m \<and> next_id L + n + 2 < 2 ^ 32)"

lemma default_options_ok: "o_is_read_write default_options" "unat (o_max_file_size default_options) \<le> 2 ^ 63"
  by (simp_all add: default_options_def)

lemma dir_open:
  assumes "dir_holds C n w m" and "flock_ok flk"
  obtains eg w' where "engine_open C flk default_options w = (Inr eg, w')" and "engine_rep C default_options n (eg, w') m"
proof -
  obtain L T where L: "closed_ok C w L T" "contents L = m" "next_id L + n + 2 < 2 ^ 32"
    using assms(1) by (auto simp: dir_holds_def)
  then have "n + 1 < 2 ^ 64" by simp
  from open_refines [OF L(1,3) this assms(2) default_options_ok] show thesis using that L(2) by (metis prod.collapse)
qed

lemma dir_close:
  assumes "engine_rep C opts (Suc n) s m"
  obtains w' where "engine_close s = (Inr (), w')" and "dir_holds C n w' m"
proof -
  obtain eg w L T where s: "s = (eg, w)" and inv: "eng_inv C (eg, w) L T" and m: "contents L = m"
    and r: "room (Suc (Suc n)) eg"
    using assms by (rule engine_repE)
  obtain w' where c: "engine_close (eg, w) = (Inr (), w')" and cl: "closed_ok C w' L T" and L: "L \<noteq> []"
    "fst (last L) < eg_next_file_id eg"
    by (rule engine_close_inv [OF inv])
  have "next_id L + n + 2 < 2 ^ 32" using r L by (simp add: room_def next_id_def word_less_nat_alt)
  then show thesis using that c cl s m by (auto simp: dir_holds_def)
qed

lemma dir_drop:
  assumes "engine_rep C opts (Suc n) s m"
  shows "dir_holds C n (engine_drop s) m"
proof -
  obtain eg w L T where s: "s = (eg, w)" and inv: "eng_inv C (eg, w) L T" and m: "contents L = m"
    and r: "room (Suc (Suc n)) eg"
    using assms by (rule engine_repE)
  note d = engine_drop_inv [OF inv]
  have "next_id L + n + 2 < 2 ^ 32" using r d(2,3) by (simp add: room_def next_id_def word_less_nat_alt)
  then show ?thesis using d(1) m s by (auto simp: dir_holds_def)
qed

section \<open>Opening for reading\<close>

lemma open_read_only:
  assumes "disk C w L T" and "world_ok w" and "w_outs w = []" and "\<not> o_is_read_write opts"
  obtains eg where "engine_open C flk opts w = (Inr eg, warned (recovery_warnings C w T L) w)"
    and "eg_read_inv C (eg, warned (recovery_warnings C w T L) w) L T" and "eg_active eg = None" and "eg_write_lock eg = None"
    and "eg_opts eg = opts"
proof -
  obtain kd where rec: "recover C (map fst L) (keydir_new, w) = (Inr (), (kd, warned (recovery_warnings C w T L) w))"
    and kd: "keydir_ok kd" "indexes kd (index_files L Map.empty)"
    by (rule recover_disk [OF assms(1,3)])
  let ?w = "warned (recovery_warnings C w T L) w" and ?next = "next_id_after (map fst L)"
  let ?eg = "\<lparr>eg_keydir = kd, eg_files = dfs_new, eg_active = None, eg_gc = gc_new,
    eg_next_file_id = ?next + 1, eg_metrics = (if o_metrics opts then Some [] else None), eg_opts = opts,
    eg_write_lock = None\<rparr>"
  have o: "open_files C opts w = (Inr (kd, ?next, None), ?w)"
    using assms(4) by (simp add: open_files_def bindE_def discover_disk [OF assms(1-3)] rec Let_def)
  have "engine_open C flk opts w = (Inr ?eg, ?w)"
    using assms(3,4) by (simp add: engine_open_def bindE_def map_err_def create_dir_all_def sys_no_fault o)
  moreover have "eg_read_inv C (?eg, ?w) L T"
    using assms kd by (simp add: eg_read_inv_def read_inv_def)
  ultimately show thesis by (rule that) simp_all
qed

lemma eng_inv_warned: "eng_inv C (eg, w) L T \<Longrightarrow> eng_inv C (eg, warned ws w) L T"
  by (auto simp: eng_inv_def store_ok_def active_ok_def readers_ok_def)

section \<open>What a run does\<close>

text \<open>What a command does to the map, and what it prints. An empty key is refused.\<close>

fun kv_refused :: "command \<Rightarrow> bool" where
  "kv_refused (AddCmd key val) \<longleftrightarrow> key = []"
| "kv_refused (RmCmd key) \<longleftrightarrow> key = []"
| "kv_refused _ \<longleftrightarrow> False"

fun kv_effect :: "command \<Rightarrow> kv \<Rightarrow> kv" where
  "kv_effect (AddCmd key val) m = (if key = [] then m else m(as_bytes key \<mapsto> as_bytes val))"
| "kv_effect (RmCmd key) m = (if key = [] then m else m(as_bytes key := None))"
| "kv_effect _ m = m"

fun kv_prints :: "command \<Rightarrow> kv \<Rightarrow> exit_code \<Rightarrow> output_line list \<Rightarrow> bool" where
  "kv_prints (AddCmd key val) m code out \<longleftrightarrow>
     (if key = [] then code = Failure \<and> out = [Stderr (ascii ''error: key must not be empty'')] else code = Success \<and> out = [])"
| "kv_prints (RmCmd key) m code out \<longleftrightarrow>
     (if key = [] then code = Failure \<and> out = [Stderr (ascii ''error: key must not be empty'')] else code = Success \<and> out = [])"
| "kv_prints (GetCmd key) m code out \<longleftrightarrow>
     (case m (as_bytes key) of
        Some val \<Rightarrow> code = Success \<and> out = [Stdout (from_utf8_lossy val)]
      | None \<Rightarrow> code = Failure \<and> out = [Stderr (ascii ''key not found'')])"
| "kv_prints ListCmd m code out \<longleftrightarrow>
     code = Success \<and> (\<exists>keys. distinct keys \<and> set keys = dom m \<and> out = map (\<lambda>k. Stdout (from_utf8_lossy k)) keys)"
| "kv_prints MergeCmd m code out \<longleftrightarrow> code = Success \<and> out = []"

text \<open>The sizes an entry can hold; no system passes arguments that long.\<close>

fun kv_fits :: "command \<Rightarrow> bool" where
  "kv_fits (AddCmd key val) \<longleftrightarrow> sizes_ok (as_bytes key) (as_bytes val)"
| "kv_fits (RmCmd key) \<longleftrightarrow> length (as_bytes key) < 2 ^ 31"
| "kv_fits _ \<longleftrightarrow> True"

lemma as_bytes_Nil: "as_bytes key = [] \<longleftrightarrow> key = []"
  by (cases key) (auto simp: as_bytes_def char_bytes_def Let_def)

lemma kv_fits_valid:
  assumes "kv_fits cmd" and "\<not> kv_refused cmd"
  shows "cmd = AddCmd key val \<Longrightarrow> valid_key (as_bytes key) \<and> sizes_ok (as_bytes key) (as_bytes val)"
    and "cmd = RmCmd key \<Longrightarrow> valid_key (as_bytes key)"
  using assms by (auto simp: valid_key_def sizes_ok_def as_bytes_Nil)

lemma kv_list:
  assumes "engine_rep C default_options n (eg, w) m" and "iteration_order kord"
  obtains keys ws where "kv_command C flk kord now ListCmd (eg, w) =
      Some (Inr Success, map (\<lambda>k. Stdout (from_utf8_lossy k)) keys, (eg, warned ws w))"
    and "distinct keys" and "set keys = dom m" and "engine_rep C default_options n (eg, warned ws w) m"
proof -
  obtain L T where inv: "eng_inv C (eg, w) L T" and m: "contents L = m"
    and r: "room (Suc n) eg" "eg_opts eg = default_options"
    using assms(1) by (auto simp: engine_rep_def)
  have d: "disk C w L T" "world_ok w" "w_outs w = []" using inv by (auto simp: eng_inv_def store_ok_def)
  have ro: "\<not> o_is_read_write (read_only default_options)" by (simp add: read_only_def)
  obtain rd where o: "engine_open C flk (read_only default_options) w = (Inr rd, warned (recovery_warnings C w T L) w)"
    and i: "eg_read_inv C (rd, warned (recovery_warnings C w T L) w) L T"
    and none: "eg_active rd = None" "eg_write_lock rd = None"
    by (rule open_read_only [OF d ro])
  obtain keys where k: "list_keys kord (rd, warned (recovery_warnings C w T L) w) =
      (Inr keys, (rd, warned (recovery_warnings C w T L) w))" "distinct keys" "set keys = {k. contents L k \<noteq> None}"
    by (rule list_keys_inv [OF i assms(2)])
  have "engine_drop (rd, warned (recovery_warnings C w T L) w) = warned (recovery_warnings C w T L) w"
    by (simp add: engine_drop_def dirlock_drop_def none)
  then show thesis
    using that [of keys "recovery_warnings C w T L"] o k m engine_repI [OF eng_inv_warned [OF inv] m r] by (simp add: dom_def)
qed

lemma kv_command_ok:
  assumes r: "engine_rep C default_options (n + card (dom m) + 2) s m" and C: "crc32fast_ok C"
    and kord: "iteration_order kord" and ok: "kv_fits cmd" "\<not> kv_refused cmd"
  obtains code out s' where "kv_command C flk kord now cmd s = Some (Inr code, out, s')"
    and "engine_rep C default_options n s' (kv_effect cmd m)" and "kv_prints cmd m code out"
proof -
  have less: "engine_rep C default_options k s m" if "k \<le> n + card (dom m) + 2" for k
    using r that by (auto simp: engine_rep_def intro: room_weaken)
  have n: "engine_rep C default_options (Suc n) s m" "engine_rep C default_options n s m" by (rule less; simp)+
  show thesis
  proof (cases cmd)
    case (AddCmd key val)
    then have v: "valid_key (as_bytes key)" "sizes_ok (as_bytes key) (as_bytes val)" "key \<noteq> []"
      using kv_fits_valid(1) [OF ok] ok(2) by simp_all
    then show thesis using that [of Success "[]"] put_refines [OF n(1) v(1,2), of now] AddCmd by (auto simp: kv_unit_def)
  next
    case (GetCmd key)
    obtain s' where "engine_get (as_bytes key) s = (Inr (m (as_bytes key)), s')" "engine_rep C default_options n s' m"
      using get_refines [OF n(2), of "as_bytes key"] by blast
    then show thesis using that GetCmd by (cases "m (as_bytes key)") auto
  next
    case (RmCmd key)
    then have v: "valid_key (as_bytes key)" "key \<noteq> []" using kv_fits_valid(2) [OF ok] ok(2) by simp_all
    then show thesis using that [of Success "[]"] delete_refines [OF n(1) v(1), of now] RmCmd by (auto simp: kv_unit_def)
  next
    case ListCmd
    obtain eg w where s: "s = (eg, w)" by fastforce
    obtain keys ws where "kv_command C flk kord now ListCmd (eg, w) =
        Some (Inr Success, map (\<lambda>k. Stdout (from_utf8_lossy k)) keys, (eg, warned ws w))"
      "distinct keys" "set keys = dom m" "engine_rep C default_options n (eg, warned ws w) m"
      by (rule kv_list [OF n(2) [unfolded s] kord])
    then show thesis using that [of Success] ListCmd s by auto
  next
    case MergeCmd
    then show thesis using that [of Success "[]"] merge_refines [OF r C] by (auto simp: kv_unit_def)
  qed
qed

lemma kv_command_refused:
  assumes "kv_refused cmd"
  shows "kv_command C flk kord now cmd s = Some (Inl EmptyKey, [], s)" and "kv_effect cmd m = m"
  using assms by (cases cmd; cases s; simp add: kv_unit_def as_bytes_def engine_put_def engine_delete_def)+

lemma kv_main_ok:
  assumes "dir_holds C (n + card (dom m) + 3) w m" and "crc32fast_ok C" and "flock_ok flk" and "iteration_order kord"
    and "kv_fits cmd"
  obtains code out w' where "kv_main show_io C flk kord now cmd w = Some (code, out, w')"
    and "dir_holds C n w' (kv_effect cmd m)" and "kv_prints cmd m code out"
proof -
  obtain eg w1 where o: "engine_open C flk default_options w = (Inr eg, w1)"
    and r: "engine_rep C default_options (n + card (dom m) + 3) (eg, w1) m"
    by (rule dir_open [OF assms(1,3)])
  have r': "engine_rep C default_options (Suc n + card (dom m) + 2) (eg, w1) m" using r by (simp add: numeral_3_eq_3)
  show thesis
  proof (cases "kv_refused cmd")
    case True
    have "kv_main show_io C flk kord now cmd w =
        Some (Failure, [Stderr (ascii ''error: key must not be empty'')], engine_drop (eg, w1))"
      by (simp add: kv_main_def kv_run_def o kv_command_refused(1) [OF True])
    moreover have "engine_rep C default_options (Suc n) (eg, w1) m"
      using r by (auto simp: engine_rep_def intro: room_weaken)
    then have "dir_holds C n (engine_drop (eg, w1)) (kv_effect cmd m)"
      using dir_drop kv_command_refused(2) [OF True] by simp
    moreover have "kv_prints cmd m Failure [Stderr (ascii ''error: key must not be empty'')]"
      using True by (cases cmd) simp_all
    ultimately show thesis by (rule that)
  next
    case False
    obtain code out s' where c: "kv_command C flk kord now cmd (eg, w1) = Some (Inr code, out, s')"
      and r2: "engine_rep C default_options (Suc n) s' (kv_effect cmd m)" and p: "kv_prints cmd m code out"
      by (rule kv_command_ok [OF r' assms(2,4,5) False])
    obtain w' where cl: "engine_close s' = (Inr (), w')" and d: "dir_holds C n w' (kv_effect cmd m)"
      by (rule dir_close [OF r2])
    have "kv_main show_io C flk kord now cmd w = Some (code, out, w')"
      by (simp add: kv_main_def kv_run_def o c cl)
    then show thesis using d p by (rule that)
  qed
qed

text \<open>
  C32: Every run of the tool on a directory that no other process has open, with system calls that work and arguments
  that fit an entry (below 2^31 and 2^32 bytes), does what it documents. \<open>add\<close> and \<open>rm\<close> with a key that is not empty
  update the map on disk, print nothing and succeed; with an empty key they print the error on the standard error, fail
  and change nothing. \<open>get\<close> prints the value, or fails with a message; \<open>list\<close> prints every key once; \<open>merge\<close> changes
  nothing that can be read. The directory a run leaves, failed or not, can be used by the next run.
\<close>

theorem kv_tool_correct:
  assumes "dir_holds C (n + card (dom m) + 3) w m" and "crc32fast_ok C" and "flock_ok flk" and "iteration_order kord"
    and "kv_fits cmd"
  shows "\<exists>code out w'. kv_main show_io C flk kord now cmd w = Some (code, out, w') \<and>
    dir_holds C n w' (kv_effect cmd m) \<and> kv_prints cmd m code out"
  using kv_main_ok [OF assms] by metis

lemma dir_holds_empty: "n < 2 ^ 31 \<Longrightarrow> dir_holds C n empty_world Map.empty"
  using closed_empty [of C] unfolding dir_holds_def
  by (intro exI [of _ "[]"] exI [of _ "\<lambda>_. []"]) (simp add: next_id_def)

lemma kv_tool_correct_witness:
  "\<exists>code out w'. kv_main (\<lambda>_. ''io'') byte_sum toy_flock rev 5 (AddCmd [107, 233] [118]) empty_world =
      Some (code, out, w') \<and>
    dir_holds byte_sum 4 w' [as_bytes [107, 233] \<mapsto> as_bytes [118]] \<and> code = Success \<and> out = []"
proof -
  have d: "dir_holds byte_sum (4 + card (dom (Map.empty :: kv)) + 3) empty_world Map.empty"
    by (rule dir_holds_empty) simp
  show ?thesis
    using kv_tool_correct [OF d byte_sum_ok toy_flock_ok id_order(2), of "AddCmd [107, 233] [118]" "\<lambda>_. ''io''" 5]
    by (simp add: valid_key_def sizes_ok_def as_bytes_def char_bytes_def)
qed

end
