(* ===== verification/BasicUsage.thy ===== *)
theory BasicUsage
  imports Kv
begin

text \<open>
  \<open>examples/basic_usage.rs\<close>: the demonstration of the whole API, as a program that prints. How Rust quotes a string for
  \<open>{:?}\<close> is a parameter, and so are the name of the directory and the clock. Removing the directory before
  and after the run is left out; its result is ignored.
\<close>

section \<open>The program\<close>

text \<open>The lines printed so far and the handle. \<open>None\<close> is an assertion that fails or a call that never returns.\<close>

type_synonym db_state = "text_str list \<times> engine \<times> world"

type_synonym 'a bu = "db_state \<Rightarrow> ((error + 'a) \<times> db_state) option"

definition bindB :: "'a bu \<Rightarrow> ('a \<Rightarrow> 'b bu) \<Rightarrow> 'b bu" where
  "bindB m f = (\<lambda>s. case m s of None \<Rightarrow> None | Some (Inl e, s) \<Rightarrow> Some (Inl e, s) | Some (Inr x, s) \<Rightarrow> f x s)"

definition println :: "text_str \<Rightarrow> unit bu" where
  "println line = (\<lambda>(out, db). Some (Inr (), (out @ [line], db)))"

definition assertB :: "bool \<Rightarrow> unit bu" where
  "assertB b = (\<lambda>s. if b then Some (Inr (), s) else None)"

definition callB :: "(engine \<times> world \<Rightarrow> ((error + 'a) \<times> engine \<times> world) option) \<Rightarrow> 'a bu" where
  "callB call = (\<lambda>(out, db). map_option (\<lambda>(res, db). (res, (out, db))) (call db))"

definition lit :: "string \<Rightarrow> bytes" where
  "lit s = map of_char s"

definition debug_option :: "(text_str \<Rightarrow> text_str) \<Rightarrow> bytes option \<Rightarrow> text_str" where
  "debug_option quote v = (case v of None \<Rightarrow> ascii ''None'' | Some v \<Rightarrow> ascii ''Some('' @ quote (from_utf8_lossy v) @ ascii '')'')"

fun comma_separated :: "text_str list \<Rightarrow> text_str" where
  "comma_separated [] = []"
| "comma_separated [x] = x"
| "comma_separated (x # xs) = x @ ascii '', '' @ comma_separated xs"

definition debug_keys :: "(text_str \<Rightarrow> text_str) \<Rightarrow> bytes list \<Rightarrow> text_str" where
  "debug_keys quote ks = ascii ''['' @ comma_separated (map (quote \<circ> from_utf8_lossy) ks) @ ascii '']''"

text \<open>From the first open to the close; it gives the sorted keys. \<open>clock i\<close> is what the \<open>i\<close>-th look at the clock sees.\<close>

definition first_session :: "'h crc32fast \<Rightarrow> iter_order \<Rightarrow> (text_str \<Rightarrow> text_str) \<Rightarrow> (nat \<Rightarrow> u32) \<Rightarrow> bytes list bu" where
  "first_session C kord quote clock =
     bindB (callB (engine_put C (lit ''language'') (lit ''rust'') (clock 0))) (\<lambda>_.
     bindB (callB (engine_put C (lit ''paper'') (lit ''bitcask'') (clock 1))) (\<lambda>_.
     bindB (callB (engine_put C (lit ''year'') (lit ''2010'') (clock 2))) (\<lambda>_.
     bindB (println (ascii ''wrote 3 keys'')) (\<lambda>_.
     bindB (callB (\<lambda>db. Some (engine_get (lit ''language'') db))) (\<lambda>language.
     bindB (println (ascii ''language = '' @ debug_option quote language)) (\<lambda>_.
     bindB (callB (engine_delete C (lit ''year'') (clock 3))) (\<lambda>_.
     bindB (callB (\<lambda>db. Some (engine_get (lit ''year'') db))) (\<lambda>year.
     bindB (assertB (year = None)) (\<lambda>_.
     bindB (println (ascii ''deleted \"year\"'')) (\<lambda>_.
     bindB (callB (\<lambda>db. Some (list_keys kord db))) (\<lambda>keys.
     let keys = sort keys in
     bindB (println (ascii ''live keys: '' @ debug_keys quote keys)) (\<lambda>_.
     bindB (callB (\<lambda>db. Some (engine_fold kord (\<lambda>key val acc. acc + length val) (0 :: nat) db))) (\<lambda>total_value_bytes.
     bindB (println (ascii ''total live value bytes: '' @ ascii (decimal total_value_bytes))) (\<lambda>_.
     bindB (callB (engine_put C (lit ''language'') (lit ''rust (updated)'') (clock 4))) (\<lambda>_.
     bindB (callB (engine_put C (lit ''language'') (lit ''rust (updated again)'') (clock 5))) (\<lambda>_.
     bindB (callB (\<lambda>db. Some (engine_merge C db))) (\<lambda>_.
     bindB (println (ascii ''merged'')) (\<lambda>_ s.
       Some (Inr keys, s)))))))))))))))))))"

definition second_session :: "iter_order \<Rightarrow> bytes list \<Rightarrow> unit bu" where
  "second_session kord keys =
     bindB (callB (\<lambda>db. Some (list_keys kord db))) (\<lambda>keys_after_reopen.
     let keys_after_reopen = sort keys_after_reopen in
     bindB (assertB (keys = keys_after_reopen)) (\<lambda>_.
     bindB (callB (\<lambda>db. Some (engine_get (lit ''language'') db))) (\<lambda>language.
     bindB (assertB (language = Some (lit ''rust (updated again)''))) (\<lambda>_.
     println (ascii ''reopened: '' @ ascii (decimal (length keys_after_reopen)) @
       ascii '' keys persisted correctly, including the merged value'')))))"

text \<open>Opening, running a session and closing; a session that ends with an error drops the handle.\<close>

definition with_db :: "'h crc32fast \<Rightarrow> flock \<Rightarrow> 'a bu \<Rightarrow> text_str list \<times> world \<Rightarrow> ((error + 'a) \<times> text_str list \<times> world) option" where
  "with_db C flk session = (\<lambda>(out, w).
     case engine_open C flk default_options w of
       (Inl e, w) \<Rightarrow> Some (Inl e, (out, w))
     | (Inr eg, w) \<Rightarrow>
         (case session (out, (eg, w)) of
            None \<Rightarrow> None
          | Some (Inl e, (out, db)) \<Rightarrow> Some (Inl e, (out, engine_drop db))
          | Some (Inr x, (out, db)) \<Rightarrow>
              (case engine_close db of (Inl e, w) \<Rightarrow> Some (Inl e, (out, w)) | (Inr _, w) \<Rightarrow> Some (Inr x, (out, w)))))"

definition basic_usage :: "'h crc32fast \<Rightarrow> flock \<Rightarrow> iter_order \<Rightarrow> (text_str \<Rightarrow> text_str) \<Rightarrow> text_str \<Rightarrow> (nat \<Rightarrow> u32) \<Rightarrow> world \<Rightarrow>
    ((error + unit) \<times> text_str list \<times> world) option" where
  "basic_usage C flk kord quote dir clock w =
     (case with_db C flk (first_session C kord quote clock) ([ascii ''opening datastore at '' @ dir], w) of
        None \<Rightarrow> None
      | Some (Inl e, s) \<Rightarrow> Some (Inl e, s)
      | Some (Inr keys, (out, w)) \<Rightarrow> with_db C flk (second_session kord keys) (out @ [ascii ''closed''], w))"

section \<open>What it prints\<close>

lemma bindB_call: "bindB (callB call) f (out, db) = (case call db of None \<Rightarrow> None
    | Some (Inl e, db) \<Rightarrow> Some (Inl e, (out, db)) | Some (Inr x, db) \<Rightarrow> f x (out, db))"
  by (simp add: bindB_def callB_def split: option.split sum.split)

lemma bindB_println: "bindB (println line) f (out, db) = f () (out @ [line], db)"
  by (simp add: bindB_def println_def)

lemma bindB_assert: "bindB (assertB True) f s = f () s"
  by (simp add: bindB_def assertB_def)

lemmas bindB_simps = bindB_call bindB_println bindB_assert

lemma two_keys:
  assumes "distinct ks" and "set ks = {a, b}" and "a \<noteq> b"
  shows "ks = [a, b] \<or> ks = [b, a]"
proof -
  have "length ks = 2" using assms distinct_card [OF assms(1)] by simp
  then obtain x y where "ks = [x, y]" by (auto simp: numeral_2_eq_2 length_Suc_conv)
  then show ?thesis using assms by auto
qed

lemma lossy_lit:
  assumes "list_all (\<lambda>c. of_char c < (128 :: nat)) s"
  shows "from_utf8_lossy (lit s) = ascii s"
proof -
  have "list_all scalar (ascii s)" using assms by (auto simp: ascii_def scalar_def list_all_iff)
  moreover have "as_bytes (ascii s) = lit s"
    using assms by (induction s) (simp_all add: as_bytes_def ascii_def lit_def char_bytes_def of_nat_of_char)
  ultimately show ?thesis by (metis from_utf8_lossy_as_bytes)
qed

lemma lits: "lit ''language'' \<noteq> lit ''paper''" "lit ''language'' \<noteq> lit ''year''" "lit ''paper'' \<noteq> lit ''year''"
  "lit ''language'' < lit ''paper''" "\<not> lit ''paper'' \<le> lit ''language''"
  by (simp_all add: lit_def list_le_def)

lemma lit_ok [simp]: "valid_key (lit (c # cs)) \<longleftrightarrow> Suc (length cs) < 2 ^ 31" "sizes_ok (lit s) (lit t) \<longleftrightarrow> length s < 2 ^ 31 \<and> length t < 2 ^ 32"
  by (simp_all add: lit_def valid_key_def sizes_ok_def)

definition final_store :: kv where
  "final_store = [lit ''paper'' \<mapsto> lit ''bitcask'', lit ''language'' \<mapsto> lit ''rust (updated again)'']"

lemma sorted_two:
  assumes "list_keys kord s = (Inr ks, s)" and "distinct ks" and "set ks = {lit ''language'', lit ''paper''}"
  shows "sort ks = [lit ''language'', lit ''paper'']"
  using two_keys [OF assms(2,3) lits(1)] lits(4,5) by auto

text \<open>The lines of the first session.\<close>

definition first_lines :: "(text_str \<Rightarrow> text_str) \<Rightarrow> text_str list" where
  "first_lines quote = [ascii ''wrote 3 keys'', ascii ''language = Some('' @ quote (ascii ''rust'') @ ascii '')'',
     ascii ''deleted \"year\"'', ascii ''live keys: ['' @ quote (ascii ''language'') @ ascii '', '' @ quote (ascii ''paper'') @ ascii '']'',
     ascii ''total live value bytes: 11'', ascii ''merged'']"

lemma first_session_ok:
  assumes C: "crc32fast_ok C" and rep: "engine_rep C opts (n + 10) s Map.empty" and ord: "iteration_order kord"
  obtains s' where "first_session C kord quote clock (out, s) =
      Some (Inr [lit ''language'', lit ''paper''], (out @ first_lines quote, s'))"
    and "engine_rep C opts n s' final_store"
proof -
  let ?l = "lit ''language''" and ?p = "lit ''paper''" and ?y = "lit ''year''" and ?r = "lit ''rust''" and ?b = "lit ''bitcask''"
  have r0: "engine_rep C opts (Suc (Suc (Suc (n + 7)))) s Map.empty" using rep by (simp add: eval_nat_numeral)
  obtain s1 where c1: "engine_put C ?l ?r (clock 0) s = Some (Inr (), s1)" and r1: "engine_rep C opts (Suc (Suc (n + 7))) s1 [?l \<mapsto> ?r]"
    using put_refines [OF r0, of ?l ?r "clock 0"] by auto
  obtain s2 where c2: "engine_put C ?p ?b (clock 1) s1 = Some (Inr (), s2)"
    and r2: "engine_rep C opts (Suc (n + 7)) s2 [?l \<mapsto> ?r, ?p \<mapsto> ?b]"
    using put_refines [OF r1, of ?p ?b "clock 1"] by auto
  obtain s3 where c3: "engine_put C ?y (lit ''2010'') (clock 2) s2 = Some (Inr (), s3)"
    and r3: "engine_rep C opts (n + 7) s3 [?l \<mapsto> ?r, ?p \<mapsto> ?b, ?y \<mapsto> lit ''2010'']"
    using put_refines [OF r2, of ?y "lit ''2010''" "clock 2"] by auto
  obtain s4 where c4: "engine_get ?l s3 = (Inr (Some ?r), s4)" and r4: "engine_rep C opts (n + 7) s4 [?l \<mapsto> ?r, ?p \<mapsto> ?b, ?y \<mapsto> lit ''2010'']"
    using get_refines [OF r3, of ?l] lits by auto
  have r4': "engine_rep C opts (Suc (n + 6)) s4 [?l \<mapsto> ?r, ?p \<mapsto> ?b, ?y \<mapsto> lit ''2010'']" using r4 by (simp add: eval_nat_numeral)
  have m5: "[?l \<mapsto> ?r, ?p \<mapsto> ?b, ?y \<mapsto> lit ''2010''](?y := None) = [?l \<mapsto> ?r, ?p \<mapsto> ?b]" using lits by auto
  obtain s5 where c5: "engine_delete C ?y (clock 3) s4 = Some (Inr (), s5)" and r5: "engine_rep C opts (n + 6) s5 [?l \<mapsto> ?r, ?p \<mapsto> ?b]"
    using delete_refines [OF r4', of ?y "clock 3"] unfolding m5 by auto
  obtain s6 where c6: "engine_get ?y s5 = (Inr None, s6)" and r6: "engine_rep C opts (n + 6) s6 [?l \<mapsto> ?r, ?p \<mapsto> ?b]"
    using get_refines [OF r5, of ?y] lits by auto
  obtain ks s7 where c7: "list_keys kord s6 = (Inr ks, s6)" and ks: "distinct ks" "set ks = dom [?l \<mapsto> ?r, ?p \<mapsto> ?b]"
    and c8: "engine_fold kord (\<lambda>key val acc. acc + length val) 0 s6 =
      (Inr (fold (\<lambda>k acc. acc + length (the ([?l \<mapsto> ?r, ?p \<mapsto> ?b] k))) ks 0), s7)"
    and r7: "engine_rep C opts (n + 6) s7 [?l \<mapsto> ?r, ?p \<mapsto> ?b]"
    using fold_refines [OF r6 ord, of "\<lambda>key val acc. acc + length val" 0] by blast
  have ks2: "set ks = {?l, ?p}" using ks(2) lits by auto
  note sort = sorted_two [OF c7 ks(1) ks2]
  have sum: "fold (\<lambda>k acc. acc + length (the ([?l \<mapsto> ?r, ?p \<mapsto> ?b] k))) ks 0 = 11"
    using two_keys [OF ks(1) ks2 lits(1)] lits by (auto simp: lit_def)
  have r7': "engine_rep C opts (Suc (Suc (n + 4))) s7 [?l \<mapsto> ?r, ?p \<mapsto> ?b]" using r7 by (simp add: eval_nat_numeral)
  obtain s8 where c9: "engine_put C ?l (lit ''rust (updated)'') (clock 4) s7 = Some (Inr (), s8)"
    and r8: "engine_rep C opts (Suc (n + 4)) s8 ([?l \<mapsto> ?r, ?p \<mapsto> ?b](?l \<mapsto> lit ''rust (updated)''))"
    using put_refines [OF r7', of ?l "lit ''rust (updated)''" "clock 4"] by auto
  have m9: "[?l \<mapsto> ?r, ?p \<mapsto> ?b](?l \<mapsto> lit ''rust (updated)'', ?l \<mapsto> lit ''rust (updated again)'') = final_store"
    using lits by (auto simp: final_store_def)
  obtain s9 where c10: "engine_put C ?l (lit ''rust (updated again)'') (clock 5) s8 = Some (Inr (), s9)"
    and r9: "engine_rep C opts (n + 4) s9 final_store"
    using put_refines [OF r8, of ?l "lit ''rust (updated again)''" "clock 5"] unfolding m9 by auto
  have "card (dom final_store) = 2" using lits by (simp add: final_store_def)
  then have "n + 4 = n + card (dom final_store) + 2" by simp
  then have "engine_rep C opts (n + card (dom final_store) + 2) s9 final_store" using r9 by (rule subst)
  from merge_refines [OF this C] obtain s10 where c11: "engine_merge C s9 = (Inr (), s10)" and r10: "engine_rep C opts n s10 final_store"
    by blast
  have shown: "from_utf8_lossy ?r = ascii ''rust''" "from_utf8_lossy ?l = ascii ''language''" "from_utf8_lossy ?p = ascii ''paper''"
    "decimal 11 = ''11''"
    by (simp_all add: lossy_lit) (simp add: decimal.simps digit_char_def char_of_def bit_0)
  have "first_session C kord quote clock (out, s) = Some (Inr [?l, ?p], (out @ first_lines quote, s10))"
    by (simp add: first_session_def bindB_simps c1 c2 c3 c4 c5 c6 c7 c8 [unfolded sum] c9 c10 c11 sort shown first_lines_def
        debug_option_def debug_keys_def Let_def del: One_nat_def)
      (simp add: ascii_def)
  then show thesis using r10 by (rule that)
qed

lemma second_session_ok:
  assumes rep: "engine_rep C opts n s final_store" and ord: "iteration_order kord"
  obtains s' where "second_session kord [lit ''language'', lit ''paper''] (out, s) =
      Some (Inr (), (out @ [ascii ''reopened: 2 keys persisted correctly, including the merged value''], s'))"
    and "engine_rep C opts n s' final_store"
proof -
  let ?l = "lit ''language''"
  obtain ks where c1: "list_keys kord s = (Inr ks, s)" and ks: "distinct ks" "set ks = dom final_store"
    using list_keys_refines [OF rep ord] by blast
  have "set ks = {?l, lit ''paper''}" using ks(2) lits by (auto simp: final_store_def)
  note sort = sorted_two [OF c1 ks(1) this] and len = arg_cong [OF sorted_two [OF c1 ks(1) this], of length]
  obtain s' where c2: "engine_get ?l s = (Inr (Some (lit ''rust (updated again)'')), s')" and r2: "engine_rep C opts n s' final_store"
    using get_refines [OF rep, of ?l] by (auto simp: final_store_def)
  have "second_session kord [?l, lit ''paper''] (out, s) =
      println (ascii ''reopened: '' @ ascii (decimal 2) @ ascii '' keys persisted correctly, including the merged value'') (out, s')"
    by (simp add: second_session_def bindB_simps c1 c2 sort len [simplified] Let_def numeral_2_eq_2)
  then show thesis using that [OF _ r2] by (simp add: println_def decimal.simps digit_char_def ascii_def)
qed

text \<open>Opening and closing around a session that succeeds.\<close>

lemma with_db_ok:
  assumes "dir_holds C n w m" and "flock_ok flk"
    and "\<And>s. engine_rep C default_options n s m \<Longrightarrow> \<exists>s'. session (out, s) = Some (Inr x, (out', s')) \<and>
      engine_rep C default_options (Suc n') s' m'"
  shows "\<exists>w'. with_db C flk session (out, w) = Some (Inr x, (out', w')) \<and> dir_holds C n' w' m'"
proof -
  obtain eg w1 where o: "engine_open C flk default_options w = (Inr eg, w1)" and r: "engine_rep C default_options n (eg, w1) m"
    by (rule dir_open [OF assms(1,2)])
  obtain s' where s: "session (out, (eg, w1)) = Some (Inr x, (out', s'))" and r': "engine_rep C default_options (Suc n') s' m'"
    using assms(3) [OF r] by blast
  obtain w' where "engine_close s' = (Inr (), w')" and "dir_holds C n' w' m'" by (rule dir_close [OF r'])
  then show ?thesis using o s by (simp add: with_db_def)
qed

text \<open>
  C36: The demonstration of the API works: in an empty directory, whatever the clock, the checksum and the order in which a \<open>HashMap\<close>
  yields its keys, no call fails, both assertions of the example and the comparison of the keys hold, and it prints exactly these lines.
  Afterwards the directory holds the two keys with their last values.
\<close>

theorem basic_usage_prints:
  assumes C: "crc32fast_ok C" and flk: "flock_ok flk" and ord: "iteration_order kord" and dir: "dir_holds C (n + 12) w Map.empty"
  shows "\<exists>w'. basic_usage C flk kord quote dir clock w = Some (Inr (),
      [ascii ''opening datastore at '' @ dir, ascii ''wrote 3 keys'', ascii ''language = Some('' @ quote (ascii ''rust'') @ ascii '')'',
       ascii ''deleted \"year\"'', ascii ''live keys: ['' @ quote (ascii ''language'') @ ascii '', '' @ quote (ascii ''paper'') @ ascii '']'',
       ascii ''total live value bytes: 11'', ascii ''merged'', ascii ''closed'',
       ascii ''reopened: 2 keys persisted correctly, including the merged value''], w') \<and>
    dir_holds C n w' [lit ''paper'' \<mapsto> lit ''bitcask'', lit ''language'' \<mapsto> lit ''rust (updated again)'']"
proof -
  let ?out = "[ascii ''opening datastore at '' @ dir]" and ?keys = "[lit ''language'', lit ''paper'']"
  let ?out' = "(?out @ first_lines quote) @ [ascii ''closed'']"
  let ?last = "[ascii ''reopened: 2 keys persisted correctly, including the merged value'']"
  have one: "\<exists>s'. first_session C kord quote clock (?out, s) = Some (Inr ?keys, (?out @ first_lines quote, s')) \<and>
      engine_rep C default_options (Suc (n + 1)) s' final_store" if "engine_rep C default_options (n + 12) s Map.empty" for s
  proof -
    have "engine_rep C default_options (Suc (n + 1) + 10) s Map.empty" using that by (simp add: eval_nat_numeral)
    then show ?thesis by (rule first_session_ok [OF C _ ord]) blast
  qed
  have "\<exists>w1. with_db C flk (first_session C kord quote clock) (?out, w) = Some (Inr ?keys, (?out @ first_lines quote, w1)) \<and>
      dir_holds C (n + 1) w1 final_store"
    by (rule with_db_ok [OF dir flk]) (rule one)
  then obtain w1 where w1: "with_db C flk (first_session C kord quote clock) (?out, w) = Some (Inr ?keys, (?out @ first_lines quote, w1))"
    and d: "dir_holds C (n + 1) w1 final_store" by blast
  have two: "\<exists>s'. second_session kord ?keys (?out', s) = Some (Inr (), (?out' @ ?last, s')) \<and>
      engine_rep C default_options (Suc n) s' final_store" if "engine_rep C default_options (n + 1) s final_store" for s
    by (rule second_session_ok [OF that ord, of ?out']) auto
  have "\<exists>w2. with_db C flk (second_session kord ?keys) (?out', w1) = Some (Inr (), (?out' @ ?last, w2)) \<and> dir_holds C n w2 final_store"
    by (rule with_db_ok [OF d flk]) (rule two)
  then obtain w2 where w2: "with_db C flk (second_session kord ?keys) (?out', w1) = Some (Inr (), (?out' @ ?last, w2))"
    and "dir_holds C n w2 final_store" by blast
  then show ?thesis using w1 unfolding final_store_def by (simp add: basic_usage_def first_lines_def)
qed

lemma basic_usage_prints_witness:
  "\<exists>lines w'. basic_usage byte_sum toy_flock rev (\<lambda>s. s) (ascii ''/tmp'') (\<lambda>i. 7) empty_world = Some (Inr (), (lines, w')) \<and> length lines = 9"
proof -
  have "dir_holds byte_sum (0 + 12) empty_world Map.empty"
    unfolding dir_holds_def by (rule exI [of _ "[]"], rule exI [of _ "\<lambda>_. []"]) (simp add: closed_empty next_id_def)
  from basic_usage_prints [OF byte_sum_ok toy_flock_ok id_order(2) this, of "\<lambda>s. s" "ascii ''/tmp''" "\<lambda>i. 7"]
  show ?thesis by (elim exE conjE) (intro exI conjI, assumption, simp)
qed

end
