(* ===== verification/Xtask.thy ===== *)
theory Xtask
  imports Kv
begin

text \<open>
  \<open>xtask/src/main.rs\<close>: the release task. Running a process and parsing JSON are other code: parameters. A
  process is run in an environment \<open>'e\<close>; the state of the task is that environment and what it has printed.
\<close>

section \<open>What the task relies on\<close>

record proc_output =
  po_success :: bool
  po_stdout :: bytes
  po_stderr :: bytes

text \<open>\<open>Command::new(cmd).args(args).output()\<close>: the message of an \<open>io::Error\<close>, or what the process left.\<close>

type_synonym 'e exec = "text_str \<Rightarrow> text_str list \<Rightarrow> 'e \<Rightarrow> (text_str + proc_output) \<times> 'e"

text \<open>What the code uses of \<open>serde_json\<close>.\<close>

record 'j serde =
  from_slice :: "bytes \<Rightarrow> text_str + 'j"
  json_index :: "'j \<Rightarrow> text_str \<Rightarrow> 'j"
  json_array :: "'j \<Rightarrow> 'j list option"
  json_str :: "'j \<Rightarrow> text_str option"
  json_eq_str :: "'j \<Rightarrow> text_str \<Rightarrow> bool"

type_synonym ('e, 'a) task = "('e \<times> output_line list, text_str, 'a) act"

definition exec_output :: "'e exec \<Rightarrow> text_str \<Rightarrow> text_str list \<Rightarrow> text_str \<Rightarrow> ('e, proc_output) task" where
  "exec_output exec cmd args failed = (\<lambda>(e, out).
     case exec cmd args e of
       (Inl err, e) \<Rightarrow> (Inl (failed @ err), (e, out))
     | (Inr po, e) \<Rightarrow> (Inr po, (e, out)))"

definition println :: "text_str \<Rightarrow> ('e, unit) task" where
  "println line = (\<lambda>(e, out). (Inr (), (e, out @ [Stdout line])))"

definition throw :: "text_str \<Rightarrow> ('e, 'a) task" where
  "throw msg = (\<lambda>s. (Inl msg, s))"

section \<open>The task\<close>

definition working_tree_is_clean :: "'e exec \<Rightarrow> ('e, bool) task" where
  "working_tree_is_clean exec =
     bindE (exec_output exec (ascii ''git'') [ascii ''status'', ascii ''--porcelain''] (ascii ''failed to run git status: ''))
       (\<lambda>output. retE (po_stdout output = []))"

definition tag_exists :: "'e exec \<Rightarrow> text_str \<Rightarrow> ('e, bool) task" where
  "tag_exists exec tag =
     bindE (exec_output exec (ascii ''git'') [ascii ''tag'', ascii ''--list'', tag] (ascii ''failed to run git tag --list: ''))
       (\<lambda>output. retE (po_stdout output \<noteq> []))"

definition join_args :: "text_str list \<Rightarrow> text_str" where
  "join_args args = concat (case args of [] \<Rightarrow> [] | a # as \<Rightarrow> a # map (\<lambda>x. ascii '' '' @ x) as)"

definition xtask_run :: "'e exec \<Rightarrow> text_str \<Rightarrow> text_str list \<Rightarrow> ('e, unit) task" where
  "xtask_run exec cmd args =
     bindE (exec_output exec cmd args (ascii ''failed to run '' @ cmd @ ascii '': '')) (\<lambda>status.
       if \<not> po_success status then throw (ascii ''`'' @ cmd @ ascii '' '' @ join_args args @ ascii ''` failed'')
       else retE ())"

definition find_version :: "'j serde \<Rightarrow> 'j \<Rightarrow> text_str option" where
  "find_version J metadata =
     Option.bind (json_array J (json_index J metadata (ascii ''packages''))) (\<lambda>packages.
     Option.bind (List.find (\<lambda>p. json_eq_str J (json_index J p (ascii ''name'')) (ascii ''yabiir'')) packages) (\<lambda>p.
     json_str J (json_index J p (ascii ''version''))))"

definition yabiir_version :: "'e exec \<Rightarrow> 'j serde \<Rightarrow> ('e, text_str) task" where
  "yabiir_version exec J =
     bindE (exec_output exec (ascii ''cargo'') [ascii ''metadata'', ascii ''--no-deps'', ascii ''--format-version'', ascii ''1'']
         (ascii ''failed to run cargo metadata: '')) (\<lambda>output.
       if \<not> po_success output then throw (ascii ''cargo metadata failed: '' @ from_utf8_lossy (po_stderr output))
       else case from_slice J (po_stdout output) of
         Inl e \<Rightarrow> throw (ascii ''failed to parse cargo metadata output: '' @ e)
       | Inr metadata \<Rightarrow>
           (case find_version J metadata of
              None \<Rightarrow> throw (ascii ''could not find yabiir's version in cargo metadata output'')
            | Some v \<Rightarrow> retE v))"

definition dash :: text_str where
  "dash = [0x2014]"

definition release :: "'e exec \<Rightarrow> 'j serde \<Rightarrow> ('e, unit) task" where
  "release exec J =
     bindE (working_tree_is_clean exec) (\<lambda>clean.
       if \<not> clean then throw (ascii ''working tree has uncommitted changes '' @ dash @
         ascii '' commit or stash them before releasing'')
       else bindE (yabiir_version exec J) (\<lambda>version.
         let tag = ascii ''v'' @ version
         in bindE (tag_exists exec tag) (\<lambda>exists.
           if exists then throw (ascii ''tag '' @ tag @ ascii '' already exists'')
           else bindE (println (ascii ''tagging '' @ tag @ ascii '' (yabiir v'' @ version @ ascii '')'')) (\<lambda>_.
             bindE (xtask_run exec (ascii ''git'') [ascii ''tag'', tag]) (\<lambda>_.
             bindE (println (ascii ''pushing '' @ tag @ ascii '' to origin'')) (\<lambda>_.
             bindE (xtask_run exec (ascii ''git'') [ascii ''push'', ascii ''origin'', tag]) (\<lambda>_.
             println (ascii ''done '' @ dash @ ascii '' .github/workflows/publish.yml will publish '' @ tag @
               ascii '' to crates.io''))))))))"

definition run_release :: "'e exec \<Rightarrow> 'j serde \<Rightarrow> 'e \<times> output_line list \<Rightarrow> exit_code \<times> 'e \<times> output_line list" where
  "run_release exec J s =
     (case release exec J s of
        (Inr _, s) \<Rightarrow> (Success, s)
      | (Inl msg, (e, out)) \<Rightarrow> (Failure, (e, out @ [Stderr (ascii ''error: '' @ msg)])))"

definition USAGE :: text_str where
  "USAGE = ascii ''usage: cargo xtask <task>'' @ [10, 10] @ ascii ''available tasks:'' @ [10] @
     ascii ''  release   tag the current commit vX.Y.Z (from Cargo.toml) and push it, triggering the crates.io publish workflow''"

text \<open>\<open>show_debug\<close> is the \<open>{other:?}\<close> of the standard library.\<close>

definition xtask_main :: "(text_str \<Rightarrow> text_str) \<Rightarrow> 'e exec \<Rightarrow> 'j serde \<Rightarrow> text_str list \<Rightarrow> 'e \<times> output_line list \<Rightarrow>
    exit_code \<times> 'e \<times> output_line list" where
  "xtask_main show_debug exec J args = (\<lambda>(e, out).
     case drop 1 args of
       [] \<Rightarrow> (Failure, (e, out @ [Stderr USAGE]))
     | task # _ \<Rightarrow>
         (if task = ascii ''release'' then run_release exec J (e, out)
          else (Failure, (e, out @ [Stderr (ascii ''unknown task '' @ show_debug task @ [10] @ USAGE)]))))"

section \<open>When it tags and pushes\<close>

text \<open>An environment that also keeps the commands that were run, with their results.\<close>

type_synonym exec_log = "(text_str \<times> text_str list \<times> (text_str + proc_output)) list"

definition logged :: "'e exec \<Rightarrow> ('e \<times> exec_log) exec" where
  "logged exec cmd args = (\<lambda>(e, log). case exec cmd args e of (r, e) \<Rightarrow> (r, (e, log @ [(cmd, args, r)])))"

text \<open>
  The commands of a release of version \<open>v\<close>, and the results after which it goes on: of the two questions to \<open>git\<close>,
  whether there are changes and whether the tag exists, the task looks at the standard output only.
\<close>

definition release_cmds :: "text_str \<Rightarrow> (text_str \<times> text_str list) list" where
  "release_cmds v =
     [(ascii ''git'', [ascii ''status'', ascii ''--porcelain'']),
      (ascii ''cargo'', [ascii ''metadata'', ascii ''--no-deps'', ascii ''--format-version'', ascii ''1'']),
      (ascii ''git'', [ascii ''tag'', ascii ''--list'', ascii ''v'' @ v]),
      (ascii ''git'', [ascii ''tag'', ascii ''v'' @ v]),
      (ascii ''git'', [ascii ''push'', ascii ''origin'', ascii ''v'' @ v])]"

definition taken_for_success :: "'j serde \<Rightarrow> text_str \<Rightarrow> nat \<Rightarrow> text_str + proc_output \<Rightarrow> bool" where
  "taken_for_success J v i r =
     (case r of Inl _ \<Rightarrow> False
      | Inr po \<Rightarrow>
          (if i = 0 \<or> i = 2 then po_stdout po = []
           else if i = 1 then po_success po \<and> map_sum (\<lambda>e. e) (find_version J) (from_slice J (po_stdout po)) = Inr (Some v)
           else po_success po))"

lemmas task_simps = bindE_def retE_def exec_output_def println_def throw_def working_tree_is_clean_def
  tag_exists_def xtask_run_def yabiir_version_def logged_def

text \<open>The run, step by step: it stops after the first result that is not good.\<close>

definition ran_in_order :: "'j serde \<Rightarrow> text_str \<Rightarrow> text_str + unit \<Rightarrow> exec_log \<Rightarrow> bool" where
  "ran_in_order J v res log \<longleftrightarrow>
     map (\<lambda>(cmd, args, r). (cmd, args)) log = take (length log) (release_cmds v) \<and> log \<noteq> [] \<and>
     (\<forall>i. Suc i < length log \<longrightarrow> taken_for_success J v i (snd (snd (log ! i)))) \<and>
     (res = Inr () \<longleftrightarrow> length log = 5 \<and> taken_for_success J v 4 (snd (snd (log ! 4))))"

lemma release_steps:
  assumes r: "release (logged exec) J ((e, []), out) = (res, ((e', log), out'))"
  shows "\<exists>v. ran_in_order J v res log"
proof -
  note sim = release_def task_simps taken_for_success_def Let_def
  note fin = ran_in_order_def release_cmds_def taken_for_success_def less_Suc_eq
  obtain r0 e1 where x0: "exec (ascii ''git'') [ascii ''status'', ascii ''--porcelain''] e = (r0, e1)" by fastforce
  obtain r1 e2 where x1: "exec (ascii ''cargo'') [ascii ''metadata'', ascii ''--no-deps'', ascii ''--format-version'', ascii ''1''] e1 = (r1, e2)"
    by fastforce
  show ?thesis
  proof (cases "taken_for_success J [] 0 r0")
    case False
    then have "log = [(ascii ''git'', [ascii ''status'', ascii ''--porcelain''], r0)]" "res \<noteq> Inr ()"
      using r x0 by (auto simp: sim split: sum.splits if_splits)
    then show ?thesis by (intro exI [of _ "[]"]) (simp add: fin)
  next
    case ok0: True
    show ?thesis
    proof (cases "\<exists>v. taken_for_success J v 1 r1")
      case False
      then have "log = [(ascii ''git'', [ascii ''status'', ascii ''--porcelain''], r0),
          (ascii ''cargo'', [ascii ''metadata'', ascii ''--no-deps'', ascii ''--format-version'', ascii ''1''], r1)]" "res \<noteq> Inr ()"
        using r x0 x1 ok0 by (auto simp: sim split: sum.splits if_splits option.splits)
      then show ?thesis using ok0 by (intro exI [of _ "[]"]) (simp add: fin)
    next
      case True
      then obtain v where ok1: "taken_for_success J v 1 r1" by blast
      have ok0: "taken_for_success J v 0 r0" using ok0 by (auto simp: taken_for_success_def split: sum.splits)
      let ?tag = "ascii ''v'' @ v"
      obtain r2 e3 where x2: "exec (ascii ''git'') [ascii ''tag'', ascii ''--list'', ?tag] e2 = (r2, e3)" by fastforce
      obtain r3 e4 where x3: "exec (ascii ''git'') [ascii ''tag'', ?tag] e3 = (r3, e4)" by fastforce
      obtain r4 e5 where x4: "exec (ascii ''git'') [ascii ''push'', ascii ''origin'', ?tag] e4 = (r4, e5)" by fastforce
      define all where "all = [(ascii ''git'', [ascii ''status'', ascii ''--porcelain''], r0),
          (ascii ''cargo'', [ascii ''metadata'', ascii ''--no-deps'', ascii ''--format-version'', ascii ''1''], r1),
          (ascii ''git'', [ascii ''tag'', ascii ''--list'', ?tag], r2), (ascii ''git'', [ascii ''tag'', ?tag], r3),
          (ascii ''git'', [ascii ''push'', ascii ''origin'', ?tag], r4)]"
      define n :: nat where "n = (if \<not> taken_for_success J v 2 r2 then 3 else if \<not> taken_for_success J v 3 r3 then 4 else 5)"
      have "log = take n all" "res = Inr () \<longleftrightarrow> n = 5 \<and> taken_for_success J v 4 r4"
        using r x0 x1 x2 x3 x4 ok0 ok1 unfolding n_def all_def
        by (auto simp: sim split: sum.splits if_splits option.splits)
      moreover have "i < 2 \<longleftrightarrow> i = 0 \<or> i = 1" "i < 3 \<longleftrightarrow> i = 0 \<or> i = 1 \<or> i = 2"
        "i < 4 \<longleftrightarrow> i = 0 \<or> i = 1 \<or> i = 2 \<or> i = 3" for i :: nat by linarith+
      ultimately show ?thesis
        using ok0 ok1 by (intro exI [of _ v]) (auto simp: ran_in_order_def release_cmds_def less_Suc_eq n_def all_def split: if_splits)
    qed
  qed
qed

text \<open>
  C39: The release task runs nothing but these five commands, in this order, and stops after the first whose result it
  does not take for a success. So it tags only after \<open>git status --porcelain\<close> and \<open>git tag --list\<close> have printed nothing
  on their standard output and \<open>cargo metadata\<close> has succeeded and named the version, it pushes only after \<open>git tag\<close>
  has succeeded, and it reports success exactly when \<open>git push\<close> has succeeded, too.
\<close>

theorem release_in_order:
  assumes "release (logged exec) J ((e, []), out) = (res, ((e', log), out'))"
  shows "\<exists>v. map (\<lambda>(cmd, args, r). (cmd, args)) log = take (length log) (release_cmds v) \<and> log \<noteq> [] \<and>
    (\<forall>i. Suc i < length log \<longrightarrow> taken_for_success J v i (snd (snd (log ! i)))) \<and>
    (res = Inr () \<longleftrightarrow> length log = 5 \<and> taken_for_success J v 4 (snd (snd (log ! 4))))"
  using release_steps [OF assms] by (simp add: ran_in_order_def)

text \<open>An environment where every process succeeds and prints nothing, and a parser that finds version 1.\<close>

definition quiet_exec :: "unit exec" where
  "quiet_exec cmd args = (\<lambda>e. (Inr \<lparr>po_success = True, po_stdout = [], po_stderr = []\<rparr>, e))"

definition one_json :: "unit serde" where
  "one_json = \<lparr>from_slice = (\<lambda>_. Inr ()), json_index = (\<lambda>_ _. ()), json_array = (\<lambda>_. Some [()]),
     json_str = (\<lambda>_. Some [49]), json_eq_str = (\<lambda>_ _. True)\<rparr>"

lemma release_in_order_witness:
  "case release (logged quiet_exec) one_json (((), []), []) of (res, ((e', log), out')) \<Rightarrow>
    \<exists>v. map (\<lambda>(cmd, args, r). (cmd, args)) log = take (length log) (release_cmds v) \<and> log \<noteq> [] \<and>
    (\<forall>i. Suc i < length log \<longrightarrow> taken_for_success one_json v i (snd (snd (log ! i)))) \<and>
    (res = Inr () \<longleftrightarrow> length log = 5 \<and> taken_for_success one_json v 4 (snd (snd (log ! 4))))"
proof -
  obtain res e' log out' where r: "release (logged quiet_exec) one_json (((), []), []) = (res, ((e', log), out'))"
    by (metis prod.exhaust)
  show ?thesis using release_in_order [OF r] by (simp add: r)
qed

section \<open>Questions that fail\<close>

text \<open>The two questions to \<open>git\<close>, and an environment in which they fail, whatever they print.\<close>

definition is_query :: "text_str \<Rightarrow> text_str list \<Rightarrow> bool" where
  "is_query cmd args \<longleftrightarrow> cmd = ascii ''git'' \<and>
     (args = [ascii ''status'', ascii ''--porcelain''] \<or> take 2 args = [ascii ''tag'', ascii ''--list''])"

definition queries_fail :: "'e exec \<Rightarrow> 'e exec" where
  "queries_fail exec cmd args e =
     (case exec cmd args e of
        (Inl err, e) \<Rightarrow> (Inl err, e)
      | (Inr po, e) \<Rightarrow> (Inr (if is_query cmd args then po\<lparr>po_success := False\<rparr> else po), e))"

lemma ascii_inj [simp]: "ascii a = ascii b \<longleftrightarrow> a = b"
proof -
  have "inj (of_char :: char \<Rightarrow> nat)" by (rule inj_of_char)
  then show ?thesis by (auto simp: ascii_def dest: map_injective)
qed

lemma not_a_query: "\<not> is_query cmd args \<Longrightarrow> queries_fail exec cmd args = exec cmd args"
  by (auto simp: queries_fail_def fun_eq_iff split: prod.splits sum.splits)

lemma query_unchanged:
  "working_tree_is_clean (queries_fail exec) = working_tree_is_clean exec" "tag_exists (queries_fail exec) tag = tag_exists exec tag"
  by (auto simp: working_tree_is_clean_def tag_exists_def exec_output_def bindE_def retE_def queries_fail_def fun_eq_iff
      split: prod.splits sum.splits)

text \<open>
  C40: Whether the two questions to \<open>git\<close> succeed does not matter: in an environment where they fail, with the same
  standard output, the task does the same. A \<open>git status\<close> that fails without an output on its standard output, as it
  does outside of a repository, counts as a clean tree, and a failing \<open>git tag --list\<close> as a tag that does not exist.
\<close>

theorem release_ignores_failed_queries:
  "release (queries_fail exec) J s = release exec J s"
proof -
  have "xtask_run (queries_fail exec) (ascii ''git'') args = xtask_run exec (ascii ''git'') args"
    if "\<not> is_query (ascii ''git'') args" for args
    by (simp add: xtask_run_def exec_output_def not_a_query [OF that])
  moreover have "\<not> is_query (ascii ''git'') [ascii ''tag'', ascii ''v'' @ v]"
    "\<not> is_query (ascii ''git'') [ascii ''push'', ascii ''origin'', ascii ''v'' @ v]" for v
    by (simp_all add: is_query_def) (simp add: ascii_def)
  moreover have "yabiir_version (queries_fail exec) J = yabiir_version exec J"
    by (simp add: yabiir_version_def exec_output_def not_a_query is_query_def)
  ultimately show ?thesis by (simp add: release_def query_unchanged Let_def cong: if_cong)
qed

end
