(* ===== verification/Loadtest.thy ===== *)
theory Loadtest
  imports Xtask "HOL-Library.Multiset"
begin

text \<open>
  \<open>src/bin/loadtest.rs\<close>: the parts of the load generator that compute. Floating-point arithmetic and the
  formatting of floating-point numbers are parameters; threads, clocks and argument parsing are left out.
\<close>

section \<open>Operations and samples\<close>

datatype op_kind = OpGet | OpPut | OpDelete | OpMerge

definition ALL_KINDS :: "op_kind list" where
  "ALL_KINDS = [OpGet, OpPut, OpDelete, OpMerge]"

fun label :: "op_kind \<Rightarrow> text_str" where
  "label OpGet = ascii ''get''"
| "label OpPut = ascii ''put''"
| "label OpDelete = ascii ''delete''"
| "label OpMerge = ascii ''merge''"

text \<open>A sample: seconds since the start (a float \<open>'f\<close>), the kind, the latency.\<close>

type_synonym 'f sample = "'f \<times> op_kind \<times> u64"

section \<open>The random number generator\<close>

definition rng_new :: "u64 \<Rightarrow> u64" where
  "rng_new seed = max seed 1"

definition next_u64 :: "u64 \<Rightarrow> u64 \<times> u64" where
  "next_u64 x =
     (let x = x XOR push_bit 13 x; x = x XOR drop_bit 7 x; x = x XOR push_bit 17 x in (x, x))"

definition key_bytes :: "u64 \<Rightarrow> bytes" where
  "key_bytes k = map of_char (''key-'' @ zero_padded 12 (unat k))"

section \<open>Percentiles\<close>

text \<open>\<open>scale n p\<close> is \<open>((n as f64) * p).round() as usize\<close>; indexing out of range panics.\<close>

definition percentile :: "(nat \<Rightarrow> 'p \<Rightarrow> nat) \<Rightarrow> u64 list \<Rightarrow> 'p \<Rightarrow> u64 option" where
  "percentile scale sorted_ns p =
     (if sorted_ns = [] then Some 0
      else let idx = scale (length sorted_ns - 1) p
           in if idx < length sorted_ns then Some (sorted_ns ! idx) else None)"

text \<open>\<open>float2 ns d\<close> is \<open>format!("{:.2}", ns as f64 / d)\<close>.\<close>

definition fmt_ns :: "(u64 \<Rightarrow> nat \<Rightarrow> text_str) \<Rightarrow> u64 \<Rightarrow> text_str" where
  "fmt_ns float2 ns =
     (if ns \<ge> 1000000000 then float2 ns 1000000000 @ ascii ''s''
      else if ns \<ge> 1000000 then float2 ns 1000000 @ ascii ''ms''
      else if ns \<ge> 1000 then float2 ns 1000 @ ascii ''us''
      else ascii (decimal (unat ns)) @ ascii ''ns'')"

section \<open>Draining and reporting\<close>

text \<open>The map from kinds to latencies, \<open>entry(kind).or_default().push(ns)\<close>.\<close>

type_synonym kind_map = "op_kind \<Rightarrow> u64 list option"

definition push_sample :: "op_kind \<Rightarrow> u64 \<Rightarrow> kind_map \<Rightarrow> kind_map" where
  "push_sample kind ns m = m(kind \<mapsto> (case m kind of None \<Rightarrow> [] | Some v \<Rightarrow> v) @ [ns])"

definition csv_line :: "('f \<Rightarrow> text_str) \<Rightarrow> 'f sample \<Rightarrow> text_str" where
  "csv_line float6 = (\<lambda>(t, kind, ns). float6 t @ ascii '','' @ label kind @ ascii '','' @ ascii (decimal (unat ns)))"

fun drain_loop :: "('f \<Rightarrow> text_str) \<Rightarrow> 'f sample list \<Rightarrow> kind_map \<Rightarrow> text_str list option \<Rightarrow> kind_map \<times> text_str list option" where
  "drain_loop float6 [] all_samples csv = (all_samples, csv)"
| "drain_loop float6 ((t, kind, ns) # window) all_samples csv =
     drain_loop float6 window (push_sample kind ns all_samples)
       (map_option (\<lambda>lines. lines @ [csv_line float6 (t, kind, ns)]) csv)"

text \<open>What is left in the shared list, the accumulators, and the window.\<close>

definition drain_samples :: "('f \<Rightarrow> text_str) \<Rightarrow> 'f sample list \<Rightarrow> kind_map \<Rightarrow> text_str list option \<Rightarrow>
    'f sample list \<times> kind_map \<times> text_str list option \<times> 'f sample list" where
  "drain_samples float6 samples all_samples csv =
     (case drain_loop float6 samples all_samples csv of (all_samples, csv) \<Rightarrow> ([], all_samples, csv, samples))"

text \<open>One row of a report before it is padded: the kind, the count, the percentiles and the maximum.\<close>

definition report_row :: "(nat \<Rightarrow> 'p \<Rightarrow> nat) \<Rightarrow> 'p list \<Rightarrow> op_kind \<Rightarrow> u64 list \<Rightarrow> op_kind \<times> nat \<times> u64 option list \<times> u64" where
  "report_row scale ps kind v =
     (let v = sort v in (kind, length v, map (percentile scale v) ps, last v))"

definition report_rows :: "(nat \<Rightarrow> 'p \<Rightarrow> nat) \<Rightarrow> 'p list \<Rightarrow> kind_map \<Rightarrow> (op_kind \<times> nat \<times> u64 option list \<times> u64) list" where
  "report_rows scale ps by_kind =
     List.map_filter (\<lambda>kind. map_option (report_row scale ps kind) (by_kind kind)) ALL_KINDS"

definition print_window :: "(nat \<Rightarrow> 'p \<Rightarrow> nat) \<Rightarrow> 'p list \<Rightarrow> 'f sample list \<Rightarrow> (op_kind \<times> nat \<times> u64 option list \<times> u64) list" where
  "print_window scale ps window =
     (if window = [] then []
      else report_rows scale ps (fold (\<lambda>(t, kind, ns). push_sample kind ns) window Map.empty))"

section \<open>One step of a worker\<close>

text \<open>The operation a worker picks, with relative weights \<open>read_w\<close>, \<open>write_w\<close> out of \<open>total_weight\<close>.\<close>

definition pick_kind :: "u64 \<Rightarrow> u64 \<Rightarrow> u64 \<Rightarrow> op_kind" where
  "pick_kind read_w write_w pick =
     (if pick < read_w then OpGet else if pick < read_w + write_w then OpPut else OpDelete)"

definition worker_choice :: "u64 \<Rightarrow> u64 \<Rightarrow> u64 \<Rightarrow> u64 \<Rightarrow> u64 \<Rightarrow> (op_kind \<times> bytes) \<times> u64" where
  "worker_choice keys read_w write_w total_weight rng =
     (let (r, rng) = next_u64 rng; k = key_bytes (r mod keys);
          (p, rng) = next_u64 rng; pick = p mod total_weight
      in ((pick_kind read_w write_w pick, k), rng))"

section \<open>Properties\<close>

lemma xor_eq_0: "(x XOR y :: u64) = 0 \<longleftrightarrow> x = y"
  by (auto simp: bit_eq_iff bit_xor_iff)

lemma xor_shift_zero:
  fixes x :: u64
  assumes "0 < k"
  shows "x XOR push_bit k x = 0 \<Longrightarrow> x = 0" and "x XOR drop_bit k x = 0 \<Longrightarrow> x = 0"
proof -
  assume "x XOR push_bit k x = 0"
  then have e: "x = push_bit k x" by (simp add: xor_eq_0)
  have "bit x n = False" for n
  proof (induction n rule: less_induct)
    case (less n)
    have "bit x n = bit (push_bit k x) n" using e by simp
    then show ?case using less [of "n - k"] assms by (auto simp: bit_push_bit_iff)
  qed
  then show "x = 0" by (simp add: bit_eq_iff)
next
  assume "x XOR drop_bit k x = 0"
  then have e: "x = drop_bit k x" by (simp add: xor_eq_0)
  have "bit x n = False" if "64 - n = m" for n m
    using that
  proof (induction m arbitrary: n rule: less_induct)
    case (less m)
    show ?case
    proof (cases "n < 64")
      case True
      have "bit x n = bit (drop_bit k x) n" using e by simp
      also have "\<dots> = bit x (k + n)" by (simp add: bit_drop_bit_eq)
      also have "\<dots> = False" using True less.prems assms by (intro less.IH [of "64 - (k + n)"]) auto
      finally show ?thesis .
    next
      case False
      then show ?thesis using bit_imp_le_length [of x n] by auto
    qed
  qed
  then show "x = 0" by (intro bit_word_eqI) simp
qed

text \<open>The generator never gets stuck at zero: whatever the seed, no state it reaches is zero.\<close>

theorem rng_never_zero:
  "rng_new seed \<noteq> 0 \<and> (x \<noteq> 0 \<longrightarrow> fst (next_u64 x) \<noteq> 0 \<and> snd (next_u64 x) \<noteq> 0)"
proof (intro conjI impI)
  show "rng_new seed \<noteq> 0" by (auto simp: rng_new_def max_def not_le word_gt_0)
  assume x: "x \<noteq> 0"
  have s: "x XOR push_bit 13 x \<noteq> 0" "x XOR drop_bit 7 x \<noteq> 0" "x XOR push_bit 17 x \<noteq> 0" if "x \<noteq> 0" for x :: u64
    using that xor_shift_zero(1) [of 13 x] xor_shift_zero(2) [of 7 x] xor_shift_zero(1) [of 17 x] by auto
  show "fst (next_u64 x) \<noteq> 0" "snd (next_u64 x) \<noteq> 0"
    unfolding next_u64_def Let_def fst_conv snd_conv using s [OF s(2) [OF s(1) [OF x]]] by blast+
qed

lemma rng_never_zero_witness: "fst (next_u64 (rng_new 0)) \<noteq> 0"
  using rng_never_zero [of 0 "rng_new 0"] by simp

text \<open>The index of a percentile: within range, and monotone in the length and the fraction.\<close>

definition rounds :: "(nat \<Rightarrow> 'p::linorder \<Rightarrow> nat) \<Rightarrow> bool" where
  "rounds scale \<longleftrightarrow> (\<forall>n p. scale n p \<le> n) \<and> (\<forall>n p q. p \<le> q \<longrightarrow> scale n p \<le> scale n q)"

lemma percentile_nth:
  assumes "rounds scale" and "v \<noteq> []"
  shows "percentile scale (sort v) p = Some (sort v ! scale (length v - 1) p)" and "scale (length v - 1) p < length v"
proof -
  have "scale (length v - 1) p \<le> length v - 1" using assms(1) by (simp add: rounds_def)
  moreover have "0 < length v" using assms(2) by simp
  ultimately show b: "scale (length v - 1) p < length v" by linarith
  have "sort v \<noteq> []" using assms(2) by (metis length_0_conv length_sort)
  then show "percentile scale (sort v) p = Some (sort v ! scale (length v - 1) p)"
    using b by (simp add: percentile_def Let_def)
qed

text \<open>
  In a report, every percentile of a non-empty list of latencies is one of them (the index is never out of
  range), percentiles grow with the fraction, and none exceeds the reported maximum.
\<close>

theorem percentiles_ordered:
  assumes "rounds scale" and "v \<noteq> []" and "p \<le> q"
  shows "\<exists>a b. percentile scale (sort v) p = Some a \<and> percentile scale (sort v) q = Some b \<and>
    a \<in> set v \<and> b \<in> set v \<and> a \<le> b \<and> b \<le> last (sort v)"
proof -
  let ?i = "scale (length v - 1) p" and ?j = "scale (length v - 1) q"
  note pp = percentile_nth [OF assms(1,2), of p] and qq = percentile_nth [OF assms(1,2), of q]
  have ij: "?i \<le> ?j" using assms(1,3) by (simp add: rounds_def)
  have "sort v ! ?i \<le> sort v ! ?j" using ij qq(2) by (intro sorted_nth_mono) simp_all
  moreover have "sort v \<noteq> []" using assms(2) by (metis length_0_conv length_sort)
  then have "last (sort v) = sort v ! (length v - 1)" by (simp add: last_conv_nth)
  moreover have "sort v ! ?j \<le> sort v ! (length v - 1)" using qq(2) by (intro sorted_nth_mono) simp_all
  moreover have "sort v ! ?i \<in> set v" "sort v ! ?j \<in> set v"
    using nth_mem [of ?i "sort v"] nth_mem [of ?j "sort v"] pp(2) qq(2) by simp_all
  ultimately show ?thesis using pp(1) qq(1) by auto
qed

lemma percentiles_ordered_witness:
  "\<exists>a b. percentile (\<lambda>n p. if p \<le> (1 :: nat) then n * p else n) (sort [30, 10, 20]) 0 = Some a \<and>
    percentile (\<lambda>n p. if p \<le> (1 :: nat) then n * p else n) (sort [30, 10, 20]) 1 = Some b \<and>
    a \<in> {30, 10, 20} \<and> b \<in> {30, 10, 20} \<and> a \<le> b \<and> b \<le> last (sort [30, 10, 20])"
proof -
  have r: "rounds (\<lambda>n p. if p \<le> (1 :: nat) then n * p else n)"
    by (auto simp: rounds_def le_Suc_eq)
  show ?thesis using percentiles_ordered [OF r, of "[30, 10, 20]" 0 1] by simp
qed

text \<open>What has been recorded of a kind.\<close>

definition recorded :: "kind_map \<Rightarrow> op_kind \<Rightarrow> u64 list" where
  "recorded m kind = (case m kind of None \<Rightarrow> [] | Some v \<Rightarrow> v)"

lemma recorded_push [simp]: "recorded (push_sample k ns m) kind = recorded m kind @ (if kind = k then [ns] else [])"
  by (simp add: recorded_def push_sample_def)

lemma drain_loop_all:
  "recorded (fst (drain_loop float6 window m csv)) kind =
     recorded m kind @ map (\<lambda>(t, k, ns). ns) (filter (\<lambda>(t, k, ns). k = kind) window)"
  "snd (drain_loop float6 window m csv) = map_option (\<lambda>lines. lines @ map (csv_line float6) window) csv"
  by (induction float6 window m csv rule: drain_loop.induct) (auto simp: option.map_comp comp_def option.map_ident)

text \<open>
  Draining loses nothing and counts nothing twice: the shared list is left empty, every sample of the
  window is appended to the latencies of its kind and, in the same order, to the CSV file.
\<close>

theorem drain_keeps_every_sample:
  "case drain_samples float6 samples m csv of (rest, m', csv', window) \<Rightarrow>
    rest = [] \<and> window = samples \<and> csv' = map_option (\<lambda>lines. lines @ map (csv_line float6) samples) csv \<and>
    (\<forall>kind. recorded m' kind = recorded m kind @ map (\<lambda>(t, k, ns). ns) (filter (\<lambda>(t, k, ns). k = kind) samples))"
  using drain_loop_all [of float6 samples m csv]
  by (cases "drain_loop float6 samples m csv") (simp add: drain_samples_def)

end
