(* ===== verification/LoadRun.thy ===== *)
theory LoadRun
  imports Loadtest Demo
begin

text \<open>
  \<open>src/bin/loadtest.rs\<close>: the run of the load generator. Workers, the merge thread and the reporting loop of \<open>main\<close> are
  threads over a shared state; a turn of a thread is what it does up to the next point where another thread
  can see the difference: a call on the datastore, a look at a flag, a section that holds the lock of the samples.
  What the clock says comes with the turn. A panic, \<open>unwrap\<close> of an error included, is \<open>None\<close>; an index out of range in a
  percentile is a \<open>None\<close> in the row that is printed. Calls on the datastore are atomic here. Among puts, deletes and gets
  that loses nothing (\<open>concurrent_calls_linearizable\<close>: no call fails and each takes effect at one moment), but a get that
  races with a merge can fail (\<open>get_racing_merge_fails\<close>), and the worker that made it then panics. That no thread panics
  is therefore stated for runs without the merge thread.
\<close>

section \<open>Threads and what they share\<close>

record args =
  ar_duration_secs :: u64
  ar_warmup_secs :: u64
  ar_threads :: nat
  ar_keys :: u64
  ar_value_size :: nat
  ar_read_weight :: u32
  ar_write_weight :: u32
  ar_delete_weight :: u32
  ar_max_file_size :: u64
  ar_sync_on_put :: bool
  ar_merge :: bool
  ar_csv :: bool

text \<open>
  Where a thread is. \<open>Looping\<close>: before it looks at \<open>stop\<close>. \<open>Timed\<close>: its call has returned and it will look at \<open>recording\<close>.
  \<open>Filled\<close>: it will hand over its local samples. \<open>Leaving\<close>: it has seen \<open>stop\<close>.
\<close>

datatype 'f worker_stage = Looping | Timed "'f sample" | Filled | Leaving | Exited

datatype 'f merger_stage = Sleeping | Merged "'f sample" | Ended

record 'f worker =
  wk_rng :: u64
  wk_local :: "'f sample list"
  wk_stage :: "'f worker_stage"

datatype main_stage = Reporting | Draining | Joining | Finished

type_synonym row = "op_kind \<times> nat \<times> u64 option list \<times> u64"

text \<open>\<open>ld_taken\<close> is a ghost: every sample that a thread has recorded, in order.\<close>

record ('s, 'f) load =
  ld_db :: 's
  ld_samples :: "'f sample list"
  ld_stop :: bool
  ld_recording :: bool
  ld_workers :: "'f worker list"
  ld_merger :: "'f merger_stage"
  ld_main :: main_stage
  ld_announced :: bool
  ld_all :: kind_map
  ld_csv :: "text_str list option"
  ld_printed :: "row list"
  ld_taken :: "'f sample list"

section \<open>A worker\<close>

text \<open>
  The sum of the weights is computed in 32 bits. It wraps around in a release build; a debug build panics if it does,
  which is why the property below assumes that it does not.
\<close>

definition total_weight :: "args \<Rightarrow> u64" where
  "total_weight a = ucast (ar_read_weight a + ar_write_weight a + ar_delete_weight a)"

definition worker_start :: "nat \<Rightarrow> 'f worker" where
  "worker_start worker_id =
     \<lparr>wk_rng = rng_new (0x9E3779B97F4A7C15 + (of_nat worker_id + 1)), wk_local = [], wk_stage = Looping\<rparr>"

definition load_value :: "args \<Rightarrow> bytes" where
  "load_value a = replicate (ar_value_size a) 0xAB"

fun worker_call :: "'s bitcask \<Rightarrow> bytes \<Rightarrow> u32 \<Rightarrow> op_kind \<Rightarrow> bytes \<Rightarrow> 's \<Rightarrow> 's option" where
  "worker_call api val now OpPut k db = db_put api k val now db"
| "worker_call api val now OpDelete k db = db_delete api k now db"
| "worker_call api val now _ k db = map_option snd (db_get api k db)"

text \<open>The remainder of a division by \<open>keys\<close> panics when it is zero.\<close>

definition worker_op :: "'s bitcask \<Rightarrow> args \<Rightarrow> u32 \<Rightarrow> 'f \<Rightarrow> u64 \<Rightarrow> 's \<Rightarrow> 'f worker \<Rightarrow> ('s \<times> 'f worker) option" where
  "worker_op api a now t ns db wk =
     (if ar_keys a = 0 then None
      else case worker_choice (ar_keys a) (ucast (ar_read_weight a)) (ucast (ar_write_weight a)) (total_weight a) (wk_rng wk) of
        ((kind, k), rng) \<Rightarrow>
          map_option (\<lambda>db. (db, wk\<lparr>wk_rng := rng, wk_stage := Timed (t, kind, ns)\<rparr>))
            (worker_call api (load_value a) now kind k db))"

definition take_sample :: "'f sample \<Rightarrow> 'f worker \<Rightarrow> 'f worker" where
  "take_sample x wk =
     (let local = wk_local wk @ [x]
      in wk\<lparr>wk_local := local, wk_stage := if 64 \<le> length local then Filled else Looping\<rparr>)"

definition set_worker :: "nat \<Rightarrow> 'f worker \<Rightarrow> ('s, 'f) load \<Rightarrow> ('s, 'f) load" where
  "set_worker i wk ld = ld\<lparr>ld_workers := (ld_workers ld)[i := wk]\<rparr>"

text \<open>The closure of a worker thread.\<close>

definition worker_turn :: "'s bitcask \<Rightarrow> args \<Rightarrow> nat \<Rightarrow> u32 \<Rightarrow> 'f \<Rightarrow> u64 \<Rightarrow> ('s, 'f) load \<Rightarrow> ('s, 'f) load option" where
  "worker_turn api a i now t ns ld =
     (let wk = ld_workers ld ! i in
      case wk_stage wk of
        Looping \<Rightarrow>
          if ld_stop ld then Some (set_worker i (wk\<lparr>wk_stage := Leaving\<rparr>) ld)
          else map_option (\<lambda>(db, wk). set_worker i wk (ld\<lparr>ld_db := db\<rparr>)) (worker_op api a now t ns (ld_db ld) wk)
      | Timed x \<Rightarrow>
          Some (if ld_recording ld then set_worker i (take_sample x wk) (ld\<lparr>ld_taken := ld_taken ld @ [x]\<rparr>)
                else set_worker i (wk\<lparr>wk_stage := Looping\<rparr>) ld)
      | Filled \<Rightarrow>
          Some (set_worker i (wk\<lparr>wk_local := [], wk_stage := Looping\<rparr>) (ld\<lparr>ld_samples := ld_samples ld @ wk_local wk\<rparr>))
      | Leaving \<Rightarrow>
          Some (set_worker i (wk\<lparr>wk_local := [], wk_stage := Exited\<rparr>) (ld\<lparr>ld_samples := ld_samples ld @ wk_local wk\<rparr>))
      | Exited \<Rightarrow> Some ld)"

section \<open>The merge thread and the reporting loop\<close>

text \<open>\<open>sleep_or_stop\<close> returns the flag; a merge that takes longer is a turn that comes later.\<close>

definition merger_turn :: "'s bitcask \<Rightarrow> 'f \<Rightarrow> u64 \<Rightarrow> ('s, 'f) load \<Rightarrow> ('s, 'f) load option" where
  "merger_turn api t ns ld =
     (case ld_merger ld of
        Sleeping \<Rightarrow>
          if ld_stop ld then Some (ld\<lparr>ld_merger := Ended\<rparr>)
          else map_option (\<lambda>db. ld\<lparr>ld_db := db, ld_merger := Merged (t, OpMerge, ns)\<rparr>) (db_merge api (ld_db ld))
      | Merged x \<Rightarrow>
          Some (if ld_recording ld
                then ld\<lparr>ld_samples := ld_samples ld @ [x], ld_taken := ld_taken ld @ [x], ld_merger := Sleeping\<rparr>
                else ld\<lparr>ld_merger := Sleeping\<rparr>)
      | Ended \<Rightarrow> Some ld)"

text \<open>
  Floating point is a parameter: \<open>float6\<close> formats, \<open>scale\<close> finds the index of a fraction, \<open>ps\<close> are the four fractions.
\<close>

record ('f, 'p) floats =
  fl_float6 :: "'f \<Rightarrow> text_str"
  fl_scale :: "nat \<Rightarrow> 'p \<Rightarrow> nat"
  fl_fractions :: "'p list"

definition drain_and_print :: "('f, 'p) floats \<Rightarrow> ('s, 'f) load \<Rightarrow> ('s, 'f) load" where
  "drain_and_print fl ld =
     (case drain_samples (fl_float6 fl) (ld_samples ld) (ld_all ld) (ld_csv ld) of
        (samples, all_samples, csv, window) \<Rightarrow>
          ld\<lparr>ld_samples := samples, ld_all := all_samples, ld_csv := csv,
             ld_printed := ld_printed ld @ print_window (fl_scale fl) (fl_fractions fl) window\<rparr>)"

definition final_summary :: "('f, 'p) floats \<Rightarrow> ('s, 'f) load \<Rightarrow> row list" where
  "final_summary fl ld = report_rows (fl_scale fl) (fl_fractions fl) (ld_all ld)"

definition joined :: "('s, 'f) load \<Rightarrow> bool" where
  "joined ld \<longleftrightarrow> list_all (\<lambda>wk. wk_stage wk = Exited) (ld_workers ld) \<and> ld_merger ld = Ended"

text \<open>\<open>again\<close>: the run is not over yet; \<open>warm\<close>: the warm-up is. Joining waits for the other threads.\<close>

definition main_turn :: "('f, 'p) floats \<Rightarrow> bool \<Rightarrow> bool \<Rightarrow> ('s, 'f) load \<Rightarrow> ('s, 'f) load" where
  "main_turn fl again warm ld =
     (case ld_main ld of
        Reporting \<Rightarrow>
          if \<not> again then ld\<lparr>ld_stop := True, ld_main := Joining\<rparr>
          else if \<not> ld_announced ld \<and> warm then ld\<lparr>ld_recording := True, ld_announced := True, ld_main := Draining\<rparr>
          else ld\<lparr>ld_main := Draining\<rparr>
      | Draining \<Rightarrow> (drain_and_print fl ld)\<lparr>ld_main := Reporting\<rparr>
      | Joining \<Rightarrow>
          if joined ld
          then let ld = drain_and_print fl ld
               in ld\<lparr>ld_printed := ld_printed ld @ final_summary fl ld, ld_main := Finished\<rparr>
          else ld
      | Finished \<Rightarrow> ld)"

section \<open>The whole run\<close>

datatype 'f turn = WorkerTurn nat u32 'f u64 | MergerTurn 'f u64 | MainTurn bool bool

fun load_turn :: "'s bitcask \<Rightarrow> ('f, 'p) floats \<Rightarrow> args \<Rightarrow> 'f turn \<Rightarrow> ('s, 'f) load \<Rightarrow> ('s, 'f) load option" where
  "load_turn api fl a (WorkerTurn i now t ns) ld =
     (if i < length (ld_workers ld) then worker_turn api a i now t ns ld else Some ld)"
| "load_turn api fl a (MergerTurn t ns) ld = merger_turn api t ns ld"
| "load_turn api fl a (MainTurn again warm) ld = Some (main_turn fl again warm ld)"

fun load_run :: "'s bitcask \<Rightarrow> ('f, 'p) floats \<Rightarrow> args \<Rightarrow> 'f turn list \<Rightarrow> ('s, 'f) load \<Rightarrow> ('s, 'f) load option" where
  "load_run api fl a [] ld = Some ld"
| "load_run api fl a (x # xs) ld = Option.bind (load_turn api fl a x ld) (load_run api fl a xs)"

text \<open>Filling the datastore: one put for every key, \<open>clock k\<close> being the time of the \<open>k\<close>-th.\<close>

fun populate :: "'s bitcask \<Rightarrow> (nat \<Rightarrow> u32) \<Rightarrow> bytes \<Rightarrow> nat list \<Rightarrow> 's \<Rightarrow> 's option" where
  "populate api clock val [] db = Some db"
| "populate api clock val (k # ks) db =
     Option.bind (db_put api (key_bytes (of_nat k)) val (clock k) db) (populate api clock val ks)"

definition csv_header :: text_str where
  "csv_header = ascii ''elapsed_secs,op,latency_ns''"

definition load_start :: "args \<Rightarrow> 's \<Rightarrow> ('s, 'f) load" where
  "load_start a db =
     \<lparr>ld_db = db, ld_samples = [], ld_stop = False, ld_recording = (ar_warmup_secs a = 0),
      ld_workers = map worker_start [0..<ar_threads a], ld_merger = if ar_merge a then Sleeping else Ended,
      ld_main = Reporting, ld_announced = (ar_warmup_secs a = 0), ld_all = Map.empty,
      ld_csv = (if ar_csv a then Some [csv_header] else None), ld_printed = [], ld_taken = []\<rparr>"


text \<open>\<open>main\<close> from an open datastore to the start of the threads; then the threads.\<close>

definition load_main :: "'s bitcask \<Rightarrow> ('f, 'p) floats \<Rightarrow> args \<Rightarrow> (nat \<Rightarrow> u32) \<Rightarrow> 'f turn list \<Rightarrow> 's \<Rightarrow> ('s, 'f) load option" where
  "load_main api fl a clock turns db =
     Option.bind (populate api clock (load_value a) [0..<unat (ar_keys a)] db) (\<lambda>db.
       if total_weight a = 0 then None else load_run api fl a turns (load_start a db))"


section \<open>No sample is lost\<close>

text \<open>Every recorded sample is drained, in the shared list, or in the local list of one worker.\<close>

definition locals :: "('s, 'f) load \<Rightarrow> 'f sample list" where
  "locals ld = concat (map wk_local (ld_workers ld))"

definition drained :: "('f, 'p) floats \<Rightarrow> args \<Rightarrow> ('s, 'f) load \<Rightarrow> 'f sample list \<Rightarrow> bool" where
  "drained fl a ld d \<longleftrightarrow>
     ld_csv ld = (if ar_csv a then Some (csv_header # map (csv_line (fl_float6 fl)) d) else None) \<and>
     (\<forall>kind. recorded (ld_all ld) kind = map (\<lambda>(t, k, ns). ns) (filter (\<lambda>(t, k, ns). k = kind) d))"

definition samples_inv :: "('f, 'p) floats \<Rightarrow> args \<Rightarrow> ('s, 'f) load \<Rightarrow> bool" where
  "samples_inv fl a ld \<longleftrightarrow>
     (\<exists>d. drained fl a ld d \<and> mset (ld_taken ld) = mset d + mset (ld_samples ld) + mset (locals ld)) \<and>
     (\<forall>wk \<in> set (ld_workers ld). wk_stage wk = Exited \<longrightarrow> wk_local wk = []) \<and>
     (ld_main ld = Finished \<longrightarrow> joined ld \<and> ld_samples ld = [])"

lemma mset_concat_update:
  "i < length xs \<Longrightarrow> mset (concat (map f (xs[i := x]))) + mset (f (xs ! i)) = mset (concat (map f xs)) + mset (f x)"
  by (induction xs arbitrary: i) (auto simp: nth_Cons' less_Suc_eq_0_disj split: nat.splits)

lemma mset_locals:
  assumes "i < length (ld_workers ld)"
  shows "mset (locals (set_worker i wk ld)) + mset (wk_local (ld_workers ld ! i)) = mset (locals ld) + mset (wk_local wk)"
  using mset_concat_update [OF assms, of wk_local wk] by (simp add: locals_def set_worker_def)

text \<open>A turn of a worker moves samples from what it has recorded, or from its local list, to the shared list.\<close>

lemma inv_set_worker:
  assumes inv: "samples_inv fl a ld" and i: "i < length (ld_workers ld)" and live: "wk_stage (ld_workers ld ! i) \<noteq> Exited"
    and same: "ld_workers ld1 = ld_workers ld" "ld_csv ld1 = ld_csv ld" "ld_all ld1 = ld_all ld" "ld_main ld1 = ld_main ld"
    and moved: "ld_samples ld1 = ld_samples ld @ S" "ld_taken ld1 = ld_taken ld @ T"
    and bal: "mset T + mset (wk_local (ld_workers ld ! i)) = mset S + mset (wk_local wk)"
    and out: "wk_stage wk = Exited \<longrightarrow> wk_local wk = []"
  shows "samples_inv fl a (set_worker i wk ld1)"
proof -
  obtain d where d: "drained fl a ld d" and m: "mset (ld_taken ld) = mset d + mset (ld_samples ld) + mset (locals ld)"
    using inv by (auto simp: samples_inv_def)
  have l: "mset (locals (set_worker i wk ld1)) + mset (wk_local (ld_workers ld ! i)) = mset (locals ld) + mset (wk_local wk)"
    using mset_locals [of i ld1 wk] i same by (simp add: locals_def)
  have "mset (ld_taken ld1) + mset (wk_local (ld_workers ld ! i)) =
      mset d + mset (ld_samples ld) + mset (locals ld) + (mset S + mset (wk_local wk))"
    using m moved bal by (simp add: ac_simps)
  also have "\<dots> = mset d + mset (ld_samples ld1) + mset (locals (set_worker i wk ld1)) + mset (wk_local (ld_workers ld ! i))"
    using l moved by (simp add: ac_simps)
  finally have "mset (ld_taken ld1) = mset d + mset (ld_samples ld1) + mset (locals (set_worker i wk ld1))" by simp
  then have "\<exists>d. drained fl a (set_worker i wk ld1) d \<and> mset (ld_taken (set_worker i wk ld1)) =
      mset d + mset (ld_samples (set_worker i wk ld1)) + mset (locals (set_worker i wk ld1))"
    using d same by (intro exI [of _ d]) (simp add: drained_def set_worker_def)
  moreover have "ld_main ld \<noteq> Finished"
    using inv i live by (auto simp: samples_inv_def joined_def list_all_length)
  moreover have "wk_stage x = Exited \<longrightarrow> wk_local x = []" if "x \<in> set ((ld_workers ld)[i := wk])" for x
    using that inv out set_update_subset_insert [of "ld_workers ld" i wk] by (auto simp: samples_inv_def)
  ultimately show ?thesis using same by (simp add: samples_inv_def set_worker_def)
qed

lemma worker_op_local:
  "worker_op api a now t ns db wk = Some (db', wk') \<Longrightarrow> wk_local wk' = wk_local wk \<and> (\<exists>x. wk_stage wk' = Timed x)"
  by (auto simp: worker_op_def split: if_splits prod.splits)

lemma worker_turn_inv:
  assumes "samples_inv fl a ld" and "i < length (ld_workers ld)" and "worker_turn api a i now t ns ld = Some ld'"
  shows "samples_inv fl a ld'"
proof -
  let ?wk = "ld_workers ld ! i"
  note set = inv_set_worker [OF assms(1,2)]
  show ?thesis
  proof (cases "wk_stage ?wk")
    case Looping
    show ?thesis
    proof (cases "ld_stop ld")
      case True
      then have "ld' = set_worker i (?wk\<lparr>wk_stage := Leaving\<rparr>) ld" using assms(3) Looping by (simp add: worker_turn_def)
      then show ?thesis using Looping by (auto intro!: set [of _ "[]" "[]"])
    next
      case False
      then obtain db wk where w: "worker_op api a now t ns (ld_db ld) ?wk = Some (db, wk)"
        and ld': "ld' = set_worker i wk (ld\<lparr>ld_db := db\<rparr>)"
        using assms(3) Looping by (auto simp: worker_turn_def)
      show ?thesis unfolding ld' using Looping worker_op_local [OF w] by (auto intro!: set [of _ "[]" "[]"])
    qed
  next
    case (Timed x)
    show ?thesis
    proof (cases "ld_recording ld")
      case True
      then have ld': "ld' = set_worker i (take_sample x ?wk) (ld\<lparr>ld_taken := ld_taken ld @ [x]\<rparr>)"
        using assms(3) Timed by (simp add: worker_turn_def)
      show ?thesis unfolding ld' using Timed by (intro set [of _ "[]" "[x]"]) (simp_all add: take_sample_def Let_def)
    next
      case False
      then have "ld' = set_worker i (?wk\<lparr>wk_stage := Looping\<rparr>) ld" using assms(3) Timed by (simp add: worker_turn_def)
      then show ?thesis using Timed by (auto intro!: set [of _ "[]" "[]"])
    qed
  next
    case Filled
    then have ld': "ld' = set_worker i (?wk\<lparr>wk_local := [], wk_stage := Looping\<rparr>) (ld\<lparr>ld_samples := ld_samples ld @ wk_local ?wk\<rparr>)"
      using assms(3) by (simp add: worker_turn_def Let_def)
    show ?thesis unfolding ld' using Filled by (intro set [of _ "wk_local ?wk" "[]"]) simp_all
  next
    case Leaving
    then have ld': "ld' = set_worker i (?wk\<lparr>wk_local := [], wk_stage := Exited\<rparr>) (ld\<lparr>ld_samples := ld_samples ld @ wk_local ?wk\<rparr>)"
      using assms(3) by (simp add: worker_turn_def Let_def)
    show ?thesis unfolding ld' using Leaving by (intro set [of _ "wk_local ?wk" "[]"]) simp_all
  next
    case Exited
    then show ?thesis using assms(1,3) by (simp add: worker_turn_def)
  qed
qed

lemma merger_turn_inv:
  assumes inv: "samples_inv fl a ld" and t: "merger_turn api t ns ld = Some ld'"
  shows "samples_inv fl a ld'"
proof (cases "ld_merger ld")
  case Sleeping
  then have "ld_main ld \<noteq> Finished" using inv by (auto simp: samples_inv_def joined_def)
  then show ?thesis using inv t Sleeping
    by (auto simp: merger_turn_def samples_inv_def drained_def locals_def joined_def split: if_splits)
next
  case (Merged x)
  then have "ld_main ld \<noteq> Finished" using inv by (auto simp: samples_inv_def joined_def)
  then show ?thesis using inv t Merged
    by (auto simp: merger_turn_def samples_inv_def drained_def locals_def joined_def split: if_splits)
qed (use inv t in \<open>simp_all add: merger_turn_def\<close>)

lemma drain_inv:
  assumes "drained fl a ld d"
  shows "drained fl a (drain_and_print fl ld) (d @ ld_samples ld)" and "ld_samples (drain_and_print fl ld) = []"
    and "ld_taken (drain_and_print fl ld) = ld_taken ld" and "ld_workers (drain_and_print fl ld) = ld_workers ld"
    and "ld_merger (drain_and_print fl ld) = ld_merger ld"
proof -
  obtain al cs where dr: "drain_loop (fl_float6 fl) (ld_samples ld) (ld_all ld) (ld_csv ld) = (al, cs)" by fastforce
  have e: "drain_and_print fl ld = ld\<lparr>ld_samples := [], ld_all := al, ld_csv := cs,
      ld_printed := ld_printed ld @ print_window (fl_scale fl) (fl_fractions fl) (ld_samples ld)\<rparr>"
    by (simp add: drain_and_print_def drain_samples_def dr)
  show "drained fl a (drain_and_print fl ld) (d @ ld_samples ld)"
    using assms drain_loop_all [of "fl_float6 fl" "ld_samples ld" "ld_all ld" "ld_csv ld", unfolded dr fst_conv snd_conv]
    by (cases "ar_csv a") (simp_all add: e drained_def)
  show "ld_samples (drain_and_print fl ld) = []" "ld_taken (drain_and_print fl ld) = ld_taken ld"
    "ld_workers (drain_and_print fl ld) = ld_workers ld" "ld_merger (drain_and_print fl ld) = ld_merger ld"
    by (simp_all add: e)
qed

lemma main_turn_inv:
  assumes inv: "samples_inv fl a ld"
  shows "samples_inv fl a (main_turn fl again warm ld)"
proof -
  obtain d where d: "drained fl a ld d" and m: "mset (ld_taken ld) = mset d + mset (ld_samples ld) + mset (locals ld)"
    using inv by (auto simp: samples_inv_def)
  have w: "\<forall>wk \<in> set (ld_workers ld). wk_stage wk = Exited \<longrightarrow> wk_local wk = []" using inv by (simp add: samples_inv_def)
  note dr = drain_inv [OF d]
  have m': "mset (ld_taken ld) = mset (d @ ld_samples ld) + mset [] + mset (locals (drain_and_print fl ld))"
    using m by (simp add: locals_def dr ac_simps)
  show ?thesis
  proof (cases "ld_main ld")
    case Reporting
    then show ?thesis using inv by (simp add: main_turn_def samples_inv_def drained_def locals_def)
  next
    case Draining
    then show ?thesis using m' w dr unfolding main_turn_def samples_inv_def drained_def locals_def
      by (auto intro!: exI [of _ "d @ ld_samples ld"])
  next
    case Joining
    show ?thesis
    proof (cases "joined ld")
      case True
      then show ?thesis using Joining m' w dr unfolding main_turn_def samples_inv_def drained_def locals_def joined_def Let_def
        by (auto intro!: exI [of _ "d @ ld_samples ld"])
    next
      case False
      then show ?thesis using Joining inv by (simp add: main_turn_def)
    qed
  next
    case Finished
    then show ?thesis using inv by (simp add: main_turn_def)
  qed
qed

lemma load_run_inv: "samples_inv fl a ld \<Longrightarrow> load_run api fl a turns ld = Some ld' \<Longrightarrow> samples_inv fl a ld'"
proof (induction turns arbitrary: ld)
  case (Cons x xs)
  then obtain ld1 where t: "load_turn api fl a x ld = Some ld1" and r: "load_run api fl a xs ld1 = Some ld'"
    by (auto split: Option.bind_splits)
  have "samples_inv fl a ld1"
    using t Cons.prems(1) by (cases x) (auto intro: worker_turn_inv merger_turn_inv main_turn_inv split: if_splits)
  then show ?case using Cons.IH r by blast
qed simp

lemma load_start_inv: "samples_inv fl a (load_start a db)"
proof -
  have "concat (map wk_local (map worker_start [0..<n])) = ([] :: 'b sample list)" for n
    by (simp add: worker_start_def comp_def)
  then show ?thesis
    by (auto simp: samples_inv_def load_start_def drained_def locals_def recorded_def worker_start_def intro!: exI [of _ "[]"])
qed

section \<open>No thread panics\<close>

text \<open>The keys that a run may write, and the value it writes.\<close>

definition keyspace :: "args \<Rightarrow> bytes set" where
  "keyspace a = (\<lambda>k. key_bytes (of_nat k)) ` {..<unat (ar_keys a)}"

lemma keyspace_mod: "ar_keys a \<noteq> 0 \<Longrightarrow> key_bytes (r mod ar_keys a) \<in> keyspace a"
proof -
  assume "ar_keys a \<noteq> 0"
  then have "unat (r mod ar_keys a) < unat (ar_keys a)" by (simp add: unat_mod unat_gt_0)
  then show ?thesis unfolding keyspace_def by (intro image_eqI [of _ _ "unat (r mod ar_keys a)"]) simp_all
qed

lemma key_bytes_valid [simp]: "valid_key (key_bytes k)" "length (key_bytes k) < 2147483648"
proof -
  have "unat k < 2 ^ 64" using unsigned_less [of k, where 'a = nat] by simp
  then have "unat k < 10 ^ 20" by simp
  then have "length (decimal (unat k)) \<le> 20" by (intro length_decimal) simp_all
  then have "length (zero_padded 12 (unat k)) \<le> 20" by (simp add: zero_padded_def)
  then show "length (key_bytes k) < 2147483648" by (simp add: key_bytes_def)
  then show "valid_key (key_bytes k)" by (simp add: valid_key_def) (simp add: key_bytes_def)
qed

lemma load_start_db [simp]: "ld_db (load_start a db) = db"
  by (simp add: load_start_def)

lemma finite_keyspace [simp]: "finite (keyspace a)" and card_keyspace: "card (keyspace a) \<le> unat (ar_keys a)"
  using card_image_le [of "{..<unat (ar_keys a)}"] by (simp_all add: keyspace_def)

context kv_store
begin

lemma worker_call_ok:
  assumes "rep (Suc n) db m" and "valid_key k" and "sizes_ok k v"
  shows "\<exists>db' m'. worker_call api v now kind k db = Some db' \<and> rep n db' m' \<and> dom m' \<subseteq> insert k (dom m)"
proof -
  have "rep n db m" using assms(1) by (rule weaken) simp
  note calls = put [OF assms, of now] delete [OF assms(1,2), of now] get [OF this, of k]
  show ?thesis
  proof (cases kind)
    case OpPut
    then show ?thesis using calls(1) by (metis dom_fun_upd option.distinct(1) order_refl worker_call.simps(1))
  next
    case OpDelete
    obtain db' where "db_delete api k now db = Some db'" "rep n db' (m(k := None))" using calls(2) by blast
    moreover have "dom (m(k := None)) \<subseteq> insert k (dom m)" by auto
    ultimately show ?thesis unfolding OpDelete by auto
  qed (use calls(3) in auto)
qed

lemma store_turn_ok:
  assumes K: "finite K" "keyspace a \<subseteq> K" "dom m \<subseteq> K" and rep: "rep (n + card K + 2) (ld_db ld) m"
    and a: "ar_keys a \<noteq> 0" "ar_value_size a < 2 ^ 32"
  shows "\<exists>ld' m'. load_turn api fl a x ld = Some ld' \<and> rep n (ld_db ld') m' \<and> dom m' \<subseteq> K"
proof -
  have 0: "rep n (ld_db ld) m" and 1: "rep (Suc n) (ld_db ld) m" using weaken [OF rep] by simp_all
  have same: ?thesis if "load_turn api fl a x ld = Some ld'" "ld_db ld' = ld_db ld" for ld'
    using that 0 K(3) by auto
  show ?thesis
  proof (cases x)
    case (WorkerTurn i now t ns)
    let ?wk = "ld_workers ld ! i"
    show ?thesis
    proof (cases "i < length (ld_workers ld) \<and> wk_stage ?wk = Looping \<and> \<not> ld_stop ld")
      case True
      obtain kind k rng where w: "worker_choice (ar_keys a) (ucast (ar_read_weight a)) (ucast (ar_write_weight a))
          (total_weight a) (wk_rng ?wk) = ((kind, k), rng)" by (metis prod.exhaust)
      then have k: "k \<in> keyspace a" "valid_key k" "sizes_ok k (load_value a)"
        using keyspace_mod [OF a(1)] a(2) by (auto simp: worker_choice_def Let_def sizes_ok_def load_value_def split: prod.splits)
      obtain db' m' where "worker_call api (load_value a) now kind k (ld_db ld) = Some db'" "rep n db' m'" "dom m' \<subseteq> insert k (dom m)"
        using worker_call_ok [OF 1 k(2,3)] by blast
      moreover from this(3) have "dom m' \<subseteq> K" using k(1) K by blast
      ultimately show ?thesis using True WorkerTurn a(1) w
        by (auto simp: worker_turn_def Let_def worker_op_def set_worker_def)
    next
      case False
      then show ?thesis using same WorkerTurn
        by (cases "wk_stage ?wk") (auto simp: worker_turn_def Let_def set_worker_def)
    qed
  next
    case (MergerTurn t ns)
    show ?thesis
    proof (cases "ld_merger ld = Sleeping \<and> \<not> ld_stop ld")
      case True
      have "card (dom m) \<le> card K" using K by (intro card_mono)
      then have "rep (n + card (dom m) + 2) (ld_db ld) m" using weaken [OF rep] by simp
      from merge [OF this] show ?thesis using True MergerTurn K(3) by (auto simp: merger_turn_def)
    next
      case False
      then show ?thesis using same MergerTurn by (cases "ld_merger ld") (auto simp: merger_turn_def)
    qed
  next
    case (MainTurn again warm)
    then show ?thesis using same
      by (cases "ld_main ld") (auto simp: main_turn_def drain_and_print_def drain_samples_def Let_def split: prod.splits)
  qed
qed

lemma store_run_ok:
  assumes K: "finite K" "keyspace a \<subseteq> K" and a: "ar_keys a \<noteq> 0" "ar_value_size a < 2 ^ 32"
    and "rep (n + length turns * (card K + 2)) (ld_db ld) m" and "dom m \<subseteq> K"
  shows "\<exists>ld' m'. load_run api fl a turns ld = Some ld' \<and> rep n (ld_db ld') m' \<and> dom m' \<subseteq> K"
  using assms(5,6)
proof (induction turns arbitrary: ld m)
  case (Cons x xs)
  have "rep (n + length xs * (card K + 2) + card K + 2) (ld_db ld) m" using Cons.prems(1) by (simp add: ac_simps)
  from store_turn_ok [OF K Cons.prems(2) this a]
  obtain ld1 m1 where "load_turn api fl a x ld = Some ld1" "rep (n + length xs * (card K + 2)) (ld_db ld1) m1" "dom m1 \<subseteq> K"
    by blast
  then show ?case using Cons.IH by auto
qed auto

lemma populate_ok:
  assumes "rep (n + length ks) db m" and "length v < 2 ^ 32"
  shows "\<exists>db' m'. populate api clock v ks db = Some db' \<and> rep n db' m' \<and> dom m' = dom m \<union> (\<lambda>k. key_bytes (of_nat k)) ` set ks"
  using assms(1)
proof (induction ks arbitrary: db m)
  case (Cons k ks)
  let ?k = "key_bytes (of_nat k)"
  have "rep (Suc (n + length ks)) db m" "sizes_ok ?k v" using Cons.prems assms(2) by (simp_all add: sizes_ok_def)
  then obtain db1 where p: "db_put api ?k v (clock k) db = Some db1" and r: "rep (n + length ks) db1 (m(?k \<mapsto> v))"
    using put [of "n + length ks" db m ?k v "clock k"] by auto
  obtain db' m' where "populate api clock v ks db1 = Some db'" "rep n db' m'"
    "dom m' = dom (m(?k \<mapsto> v)) \<union> (\<lambda>k. key_bytes (of_nat k)) ` set ks"
    using Cons.IH [OF r] by blast
  then show ?case using p by (intro exI [of _ db'] exI [of _ m']) auto
qed auto

lemma load_main_ok:
  assumes fin: "finite (dom m)" and a: "ar_keys a \<noteq> 0" "ar_value_size a < 2 ^ 32" "total_weight a \<noteq> 0"
    and rep: "rep (unat (ar_keys a) + length turns * (card (dom m) + unat (ar_keys a) + 2)) db m"
  shows "\<exists>ld. load_main api fl a clock turns db = Some ld \<and> samples_inv fl a ld"
proof -
  let ?K = "dom m \<union> keyspace a"
  have K: "finite ?K" "keyspace a \<subseteq> ?K" using fin by simp_all
  have "card ?K \<le> card (dom m) + unat (ar_keys a)"
    by (rule order_trans [OF card_Un_le]) (simp add: card_keyspace)
  then have "length turns * (card ?K + 2) \<le> length turns * (card (dom m) + unat (ar_keys a) + 2)" by (intro mult_le_mono2) simp
  then have "rep (length turns * (card ?K + 2) + length [0..<unat (ar_keys a)]) db m" by (intro weaken [OF rep]) simp
  from populate_ok [OF this, of "load_value a" clock] a(2)
  obtain db' m' where p: "populate api clock (load_value a) [0..<unat (ar_keys a)] db = Some db'"
    and r: "rep (0 + length turns * (card ?K + 2)) db' m'" and "dom m' \<subseteq> ?K"
    by (auto simp: load_value_def keyspace_def atLeast0LessThan)
  then obtain ld where "load_run api fl a turns (load_start a db') = Some ld"
    using store_run_ok [OF K a(1,2), of 0 turns "load_start a db'" m' fl, unfolded load_start_db] by blast
  moreover from this have "samples_inv fl a ld" by (rule load_run_inv [OF load_start_inv])
  ultimately show ?thesis using p a(3) by (simp add: load_main_def)
qed

end

section \<open>Percentiles are in range\<close>










section \<open>The run ends\<close>

text \<open>How many turns a thread still needs once it is told to stop.\<close>

fun turns_left :: "'f worker_stage \<Rightarrow> nat" where
  "turns_left Exited = 0"
| "turns_left Leaving = 1"
| "turns_left Looping = 2"
| "turns_left Filled = 3"
| "turns_left (Timed x) = 4"

fun merger_left :: "'f merger_stage \<Rightarrow> nat" where
  "merger_left Ended = 0"
| "merger_left Sleeping = 1"
| "merger_left (Merged x) = 2"

fun is_worker_turn :: "nat \<Rightarrow> 'f turn \<Rightarrow> bool" where
  "is_worker_turn i (WorkerTurn j now t ns) \<longleftrightarrow> j = i"
| "is_worker_turn i _ \<longleftrightarrow> False"

fun is_merger_turn :: "'f turn \<Rightarrow> bool" where
  "is_merger_turn (MergerTurn t ns) \<longleftrightarrow> True"
| "is_merger_turn _ \<longleftrightarrow> False"

text \<open>\<open>nearer\<close>: no thread has gone back, and those that had a turn are nearer to their end.\<close>

definition nearer :: "(nat \<Rightarrow> nat) \<Rightarrow> nat \<Rightarrow> ('s, 'f) load \<Rightarrow> ('s, 'f) load \<Rightarrow> bool" where
  "nearer cs c ld ld' \<longleftrightarrow> ld_stop ld' \<and> length (ld_workers ld') = length (ld_workers ld) \<and>
     (\<forall>i < length (ld_workers ld). turns_left (wk_stage (ld_workers ld' ! i)) \<le> turns_left (wk_stage (ld_workers ld ! i)) - cs i) \<and>
     merger_left (ld_merger ld') \<le> merger_left (ld_merger ld) - c \<and>
     (ld_main ld \<in> {Joining, Finished} \<longrightarrow> ld_main ld' \<in> {Joining, Finished})"

lemma nearer_trans:
  assumes "nearer cs c ld ld1" and "nearer cs' c' ld1 ld'"
  shows "nearer (\<lambda>i. cs i + cs' i) (c + c') ld ld'"
proof -
  have le: "x'' \<le> x - (b + b')" if "x' \<le> x - b" "x'' \<le> x' - b'" for x x' x'' b b' :: nat using that by simp
  show ?thesis using assms unfolding nearer_def by (auto intro: le)
qed

lemma nearer_turn:
  assumes "ld_stop ld" and "load_turn api fl a x ld = Some ld'"
  shows "nearer (\<lambda>i. if is_worker_turn i x then 1 else 0) (if is_merger_turn x then 1 else 0) ld ld'"
proof (cases x)
  case (WorkerTurn i now t ns)
  then show ?thesis using assms
    by (cases "wk_stage (ld_workers ld ! i)")
      (auto simp: nearer_def worker_turn_def set_worker_def take_sample_def Let_def nth_list_update split: if_splits)
next
  case (MergerTurn t ns)
  then show ?thesis using assms by (cases "ld_merger ld"; cases "ld_recording ld") (auto simp: nearer_def merger_turn_def)
next
  case (MainTurn again warm)
  then show ?thesis using assms
    by (cases "ld_main ld") (auto simp: nearer_def main_turn_def drain_and_print_def drain_samples_def Let_def split: prod.splits)
qed

lemma nearer_run:
  assumes "ld_stop ld" and "load_run api fl a turns ld = Some ld'"
  shows "nearer (\<lambda>i. length (filter (is_worker_turn i) turns)) (length (filter is_merger_turn turns)) ld ld'"
  using assms
proof (induction turns arbitrary: ld)
  case Nil
  then show ?case by (simp add: nearer_def)
next
  case (Cons x xs)
  then obtain ld1 where t: "load_turn api fl a x ld = Some ld1" and r: "load_run api fl a xs ld1 = Some ld'"
    by (auto split: Option.bind_splits)
  have n: "nearer (\<lambda>i. if is_worker_turn i x then 1 else 0) (if is_merger_turn x then 1 else 0) ld ld1"
    by (rule nearer_turn [OF Cons.prems(1) t])
  then have "ld_stop ld1" by (simp add: nearer_def)
  moreover have "(\<lambda>i. length (filter (is_worker_turn i) (x # xs))) =
      (\<lambda>i. (if is_worker_turn i x then 1 else 0) + length (filter (is_worker_turn i) xs))"
    "length (filter is_merger_turn (x # xs)) = (if is_merger_turn x then 1 else 0) + length (filter is_merger_turn xs)"
    by auto
  ultimately show ?case using nearer_trans [OF n Cons.IH] r by metis
qed

lemma stopped_run: "ld_stop ld \<Longrightarrow> \<exists>ld'. load_run api fl a turns ld = Some ld'"
proof (induction turns arbitrary: ld)
  case (Cons x xs)
  have "\<exists>ld1. load_turn api fl a x ld = Some ld1"
    using Cons.prems by (cases x) (auto simp: worker_turn_def merger_turn_def Let_def split: worker_stage.splits merger_stage.splits)
  then obtain ld1 where t: "load_turn api fl a x ld = Some ld1" ..
  then have "ld_stop ld1" using nearer_turn [OF Cons.prems t] by (simp add: nearer_def)
  then show ?case using Cons.IH t by simp
qed simp

lemma load_run_append: "load_run api fl a (xs @ ys) ld = Option.bind (load_run api fl a xs ld) (load_run api fl a ys)"
  by (induction xs arbitrary: ld) (simp_all split: Option.bind_split)

text \<open>
  C38: The load generator stops. Once \<open>main\<close> has set the flag, whatever the threads are doing and in whatever order they run, four
  turns of each worker and two of the merge thread are enough for the join: the
  next turn of \<open>main\<close> finishes the run.
\<close>

theorem load_generator_stops:
  assumes "ld_stop ld" and "ld_main ld = Joining"
    and "\<forall>i < length (ld_workers ld). 4 \<le> length (filter (is_worker_turn i) turns)" and "2 \<le> length (filter is_merger_turn turns)"
  shows "\<exists>ld'. load_run api fl a (turns @ [MainTurn again warm]) ld = Some ld' \<and> ld_main ld' = Finished"
proof -
  obtain ld1 where r: "load_run api fl a turns ld = Some ld1" using stopped_run [OF assms(1)] by blast
  note n = nearer_run [OF assms(1) r, unfolded nearer_def]
  have le: "turns_left st \<le> 4" for st :: "'b worker_stage" by (cases st) simp_all
  have zero: "turns_left st = 0 \<longleftrightarrow> st = Exited" for st :: "'b worker_stage" by (cases st) simp_all
  have le': "merger_left st \<le> 2" and zero': "merger_left st = 0 \<longleftrightarrow> st = Ended" for st :: "'b merger_stage" by (cases st, simp_all)+
  have "turns_left (wk_stage (ld_workers ld1 ! i)) = 0" if "i < length (ld_workers ld1)" for i
    using n assms(3) that le [of "wk_stage (ld_workers ld ! i)"] by fastforce
  moreover have "merger_left (ld_merger ld1) = 0" using n assms(4) le' [of "ld_merger ld"] by linarith
  ultimately have "joined ld1" by (simp add: joined_def list_all_length zero zero')
  then have "ld_main (main_turn fl again warm ld1) = Finished" using n assms(2) by (auto simp: main_turn_def Let_def)
  then show ?thesis by (simp add: load_run_append r)
qed

definition demo_args :: args where
  "demo_args = \<lparr>ar_duration_secs = 20, ar_warmup_secs = 0, ar_threads = 2, ar_keys = 3, ar_value_size = 128, ar_read_weight = 8,
     ar_write_weight = 2, ar_delete_weight = 1, ar_max_file_size = 1024, ar_sync_on_put = True, ar_merge = True, ar_csv = True\<rparr>"

definition demo_floats :: "(nat, nat) floats" where
  "demo_floats = \<lparr>fl_float6 = (\<lambda>n. ascii (decimal n)), fl_scale = (\<lambda>n p. n * p div 1000), fl_fractions = [500, 900, 990, 999]\<rparr>"



lemma load_generator_stops_witness:
  "\<exists>ld'. load_run (engine_api byte_sum toy_flock sync_options rev) demo_floats demo_args
      ([WorkerTurn 0 8 1 300, WorkerTurn 1 8 2 400, MergerTurn 2 9000, MergerTurn 2 9000, WorkerTurn 1 9 3 0, WorkerTurn 1 9 3 0,
        WorkerTurn 0 9 3 0, WorkerTurn 0 9 3 0, WorkerTurn 1 9 3 0, WorkerTurn 0 9 3 0] @ [MainTurn True True])
      ((load_start demo_args demo_db)\<lparr>ld_stop := True, ld_main := Joining\<rparr>) = Some ld' \<and> ld_main ld' = Finished"
  by (rule load_generator_stops) (auto simp: load_start_def demo_args_def less_Suc_eq numeral_2_eq_2)

end
