(* ===== verification/Todo.thy ===== *)
theory Todo
  imports Kv "HOL-Library.Multiset"
begin

text \<open>
  \<open>examples/todo_tui.rs\<close>: a todo tracker over the engine, without its drawing. What is on the screen is what
  is in the store, after any keys.
\<close>

section \<open>Todos\<close>

record todo =
  td_id :: u64
  td_title :: text_str
  td_done :: bool
  td_created_at :: u32

definition todo_key :: "u64 \<Rightarrow> bytes" where
  "todo_key i = map of_char (decimal (unat i))"

definition encode_todo :: "todo \<Rightarrow> bytes" where
  "encode_todo t = [of_bool (td_done t)] @ le32 (td_created_at t) @ as_bytes (td_title t)"

text \<open>Indexing a value of fewer than five bytes panics (\<open>None\<close>).\<close>

definition decode_todo :: "u64 \<Rightarrow> bytes \<Rightarrow> todo option" where
  "decode_todo i bs =
     (if length bs < 5 then None
      else Some \<lparr>td_id = i, td_title = from_utf8_lossy (drop 5 bs), td_done = (bs ! 0 \<noteq> 0),
        td_created_at = le_decode (take 4 (drop 1 bs))\<rparr>)"

text \<open>\<open>str::parse::<u64>\<close>: digits, perhaps after a plus sign, of a value that fits.\<close>

fun parse_digits :: "nat \<Rightarrow> text_str \<Rightarrow> u64 option" where
  "parse_digits acc [] = Some (of_nat acc)"
| "parse_digits acc (c # cs) =
     (if 48 \<le> c \<and> c \<le> 57 \<and> acc * 10 + (c - 48) < 2 ^ 64 then parse_digits (acc * 10 + (c - 48)) cs else None)"

definition parse_u64 :: "text_str \<Rightarrow> u64 option" where
  "parse_u64 s =
     (case s of
        [] \<Rightarrow> None
      | c # cs \<Rightarrow> (if c = 43 then (if cs = [] then None else parse_digits 0 cs) else parse_digits 0 s))"

text \<open>\<open>char::is_whitespace\<close>\<close>

definition is_whitespace :: "nat \<Rightarrow> bool" where
  "is_whitespace c \<longleftrightarrow> 9 \<le> c \<and> c \<le> 13 \<or> 0x2000 \<le> c \<and> c \<le> 0x200A \<or>
     c \<in> {32, 0x85, 0xA0, 0x1680, 0x2028, 0x2029, 0x202F, 0x205F, 0x3000}"

section \<open>The application\<close>

datatype mode = Normal | AddingTitle text_str

record app =
  ap_db :: "engine \<times> world"
  ap_todos :: "todo list"
  ap_selected :: nat
  ap_next_id :: u64
  ap_mode :: mode
  ap_status :: "text_str option"

definition collect_todo :: "bytes \<Rightarrow> bytes \<Rightarrow> todo list option \<Rightarrow> todo list option" where
  "collect_todo key val acc =
     (case parse_u64 (case from_utf8 key of Some s \<Rightarrow> s | None \<Rightarrow> []) of
        None \<Rightarrow> acc
      | Some i \<Rightarrow> Option.bind acc (\<lambda>ts. map_option (\<lambda>t. ts @ [t]) (decode_todo i val)))"

definition next_id_of :: "todo list \<Rightarrow> u64" where
  "next_id_of ts = (if ts = [] then 0 else Max (td_id ` set ts) + 1)"

text \<open>\<open>App::open\<close>; a panic is \<open>None\<close>.\<close>

definition app_open :: "'h crc32fast \<Rightarrow> flock \<Rightarrow> iter_order \<Rightarrow> world \<Rightarrow> ((error + app) \<times> world) option" where
  "app_open C flk kord w =
     (case engine_open C flk default_options w of
        (Inl e, w) \<Rightarrow> Some (Inl e, w)
      | (Inr eg, w) \<Rightarrow>
          (case engine_fold kord collect_todo (Some []) (eg, w) of
             (Inl e, db) \<Rightarrow> Some (Inl e, engine_drop db)
           | (Inr None, db) \<Rightarrow> None
           | (Inr (Some ts), db) \<Rightarrow>
               (let todos = sort_key td_id ts
                in Some (Inr \<lparr>ap_db = db, ap_todos = todos, ap_selected = 0, ap_next_id = next_id_of todos,
                     ap_mode = Normal, ap_status = None\<rparr>, snd db))))"

definition move_selection :: "int \<Rightarrow> app \<Rightarrow> app" where
  "move_selection delta a =
     (if ap_todos a = [] then a
      else a\<lparr>ap_selected := nat ((int (ap_selected a) + delta) mod int (length (ap_todos a)))\<rparr>)"

type_synonym 'a app_result = "((error + 'a) \<times> app) option"

text \<open>A write to the store, with what follows when it succeeds.\<close>

definition app_write :: "(engine \<times> world \<Rightarrow> ((error + unit) \<times> engine \<times> world) option) \<Rightarrow> (app \<Rightarrow> app) \<Rightarrow> app \<Rightarrow> unit app_result" where
  "app_write write fin a =
     map_option (\<lambda>(res, db). (res, (if isl res then (\<lambda>a. a) else fin) (a\<lparr>ap_db := db\<rparr>))) (write (ap_db a))"

definition toggle_selected :: "'h crc32fast \<Rightarrow> u32 \<Rightarrow> app \<Rightarrow> unit app_result" where
  "toggle_selected C now a =
     (if ap_selected a < length (ap_todos a)
      then let t = ap_todos a ! ap_selected a; t = t\<lparr>td_done := \<not> td_done t\<rparr>
           in app_write (engine_put C (todo_key (td_id t)) (encode_todo t) now) (\<lambda>a. a)
                (a\<lparr>ap_todos := (ap_todos a)[ap_selected a := t]\<rparr>)
      else Some (Inr (), a))"

definition remove_at :: "nat \<Rightarrow> 'a list \<Rightarrow> 'a list" where
  "remove_at i xs = take i xs @ drop (Suc i) xs"

definition delete_selected :: "'h crc32fast \<Rightarrow> u32 \<Rightarrow> app \<Rightarrow> unit app_result" where
  "delete_selected C now a =
     (if ap_selected a < length (ap_todos a)
      then app_write (engine_delete C (todo_key (td_id (ap_todos a ! ap_selected a))) now)
             (\<lambda>a. if ap_selected a \<ge> length (ap_todos a) \<and> ap_selected a > 0
                then a\<lparr>ap_selected := ap_selected a - 1\<rparr> else a)
             (a\<lparr>ap_todos := remove_at (ap_selected a) (ap_todos a)\<rparr>)
      else Some (Inr (), a))"

definition add_todo :: "'h crc32fast \<Rightarrow> u32 \<Rightarrow> u32 \<Rightarrow> text_str \<Rightarrow> app \<Rightarrow> unit app_result" where
  "add_todo C now now' title a =
     (if list_all is_whitespace title then Some (Inr (), a)
      else let t = \<lparr>td_id = ap_next_id a, td_title = title, td_done = False, td_created_at = now\<rparr>
           in app_write (engine_put C (todo_key (td_id t)) (encode_todo t) now')
                (\<lambda>a. a\<lparr>ap_next_id := ap_next_id a + 1, ap_todos := ap_todos a @ [t],
                   ap_selected := length (ap_todos a @ [t]) - 1\<rparr>) a)"

section \<open>Keys\<close>

datatype key_code = Enter | Esc | Backspace | KeyDown | KeyUp | KeyChar nat | OtherKey

definition stay :: "unit app_result \<Rightarrow> bool app_result" where
  "stay r = map_option (\<lambda>(res, a). (map_sum (\<lambda>e. e) (\<lambda>_. False) res, a)) r"

definition char_code :: "char \<Rightarrow> nat" where
  "char_code = of_char"

fun key_adding :: "'h crc32fast \<Rightarrow> u32 \<Rightarrow> u32 \<Rightarrow> text_str \<Rightarrow> key_code \<Rightarrow> app \<Rightarrow> bool app_result" where
  "key_adding C now now' buf Enter a = stay (add_todo C now now' buf (a\<lparr>ap_mode := Normal\<rparr>))"
| "key_adding C now now' buf Esc a = Some (Inr False, a\<lparr>ap_mode := Normal\<rparr>)"
| "key_adding C now now' buf Backspace a = Some (Inr False, a\<lparr>ap_mode := AddingTitle (butlast buf)\<rparr>)"
| "key_adding C now now' buf (KeyChar c) a = Some (Inr False, a\<lparr>ap_mode := AddingTitle (buf @ [c])\<rparr>)"
| "key_adding C now now' buf _ a = Some (Inr False, a)"

text \<open>A call on the store that sets the status line.\<close>

definition app_call :: "(engine \<times> world \<Rightarrow> (error + unit) \<times> engine \<times> world) \<Rightarrow> string \<Rightarrow> app \<Rightarrow> bool app_result" where
  "app_call call status a = stay (app_write (\<lambda>db. Some (call db)) (\<lambda>a. a\<lparr>ap_status := Some (ascii status)\<rparr>) a)"

definition key_normal :: "'h crc32fast \<Rightarrow> u32 \<Rightarrow> key_code \<Rightarrow> app \<Rightarrow> bool app_result" where
  "key_normal C now key a =
     (if key = KeyChar (char_code CHR ''q'') \<or> key = Esc then Some (Inr True, a)
      else if key = KeyChar (char_code CHR ''j'') \<or> key = KeyDown then Some (Inr False, move_selection 1 a)
      else if key = KeyChar (char_code CHR ''k'') \<or> key = KeyUp then Some (Inr False, move_selection (- 1) a)
      else if key = KeyChar (char_code CHR ''a'') then Some (Inr False, a\<lparr>ap_mode := AddingTitle []\<rparr>)
      else if key = KeyChar (char_code CHR '' '') \<or> key = Enter then stay (toggle_selected C now a)
      else if key = KeyChar (char_code CHR ''d'') then stay (delete_selected C now a)
      else if key = KeyChar (char_code CHR ''m'') then app_call (engine_merge C) ''merged'' a
      else if key = KeyChar (char_code CHR ''s'') then app_call engine_sync ''synced'' a
      else Some (Inr False, a))"

definition handle_key :: "'h crc32fast \<Rightarrow> u32 \<Rightarrow> u32 \<Rightarrow> key_code \<Rightarrow> app \<Rightarrow> bool app_result" where
  "handle_key C now now' key a =
     (case ap_mode a of
        AddingTitle buf \<Rightarrow> key_adding C now now' buf key a
      | Normal \<Rightarrow> key_normal C now key a)"

section \<open>Encoding\<close>

lemma decode_encode_todo:
  assumes "list_all scalar (td_title t)"
  shows "decode_todo (td_id t) (encode_todo t) = Some t"
  using assms by (simp add: decode_todo_def encode_todo_def nth_append)

lemma ascii_digits:
  assumes "list_all is_ascii_digit s"
  shows "as_bytes (ascii s) = map of_char s" and "list_all scalar (ascii s)"
  using assms
  by (induction s) (auto simp: as_bytes_def ascii_def char_bytes_def is_ascii_digit_def scalar_def of_nat_of_char)

lemma foldl_digits_mono: "acc \<le> foldl (\<lambda>a c. a * 10 + digit_value c) acc s"
proof (induction s arbitrary: acc)
  case (Cons c s)
  have "acc \<le> acc * 10 + digit_value c" by simp
  also note Cons.IH [of "acc * 10 + digit_value c"]
  finally show ?case by simp
qed simp

lemma parse_digits_ascii:
  "list_all is_ascii_digit s \<Longrightarrow> foldl (\<lambda>a c. a * 10 + digit_value c) acc s < 2 ^ 64 \<Longrightarrow>
     parse_digits acc (ascii s) = Some (of_nat (foldl (\<lambda>a c. a * 10 + digit_value c) acc s))"
proof (induction s arbitrary: acc)
  case (Cons c s)
  have "acc * 10 + digit_value c < 2 ^ 64"
    using Cons.prems foldl_digits_mono [of "acc * 10 + digit_value c" s] by simp
  then show ?case using Cons by (simp add: ascii_def is_ascii_digit_def digit_value_def)
qed (simp add: ascii_def)

lemma decimal_nonempty: "decimal n \<noteq> []"
  by (subst decimal.simps) simp

lemma parse_todo_key: "parse_u64 (case from_utf8 (todo_key i) of Some s \<Rightarrow> s | None \<Rightarrow> []) = Some i"
proof -
  let ?s = "decimal (unat i)"
  have d: "list_all is_ascii_digit ?s" by (rule decimal_digits)
  have "from_utf8 (todo_key i) = Some (ascii ?s)"
    using ascii_digits [OF d] from_utf8_as_bytes [of "ascii ?s"] by (simp add: todo_key_def)
  moreover have "parse_digits 0 (ascii ?s) = Some i"
    using parse_digits_ascii [OF d, of 0] num_of_decimal [of "unat i"] unsigned_less [of i] by (simp add: num_of_def)
  moreover obtain c cs where c: "?s = c # cs" using decimal_nonempty by (cases ?s) auto
  moreover have "of_char c \<noteq> (43 :: nat)" using d c by (auto simp: is_ascii_digit_def)
  ultimately show ?thesis by (simp add: parse_u64_def ascii_def)
qed

lemma todo_key_inject [simp]: "todo_key i = todo_key j \<longleftrightarrow> i = j"
  by (metis option.inject parse_todo_key)

lemma todo_key_valid [simp]: "valid_key (todo_key i)"
proof -
  have "unat i < 2 ^ 64" using unsigned_less [of i] by simp
  then have "length (decimal (unat i)) \<le> 20" by (intro length_decimal) simp_all
  then show ?thesis using decimal_nonempty [of "unat i"] by (simp add: valid_key_def todo_key_def)
qed

section \<open>The screen and the store\<close>

definition store_of :: "todo list \<Rightarrow> kv" where
  "store_of ts = map_of (map (\<lambda>t. (todo_key (td_id t), encode_todo t)) ts)"

definition todo_ok :: "todo \<Rightarrow> bool" where
  "todo_ok t \<longleftrightarrow> list_all scalar (td_title t) \<and> length (td_title t) < 2 ^ 29"

text \<open>
  The store holds exactly the todos of the list, which is sorted by id below the next id; the selection is on
  a todo if there is one.
\<close>

definition app_inv :: "'h crc32fast \<Rightarrow> nat \<Rightarrow> app \<Rightarrow> bool" where
  "app_inv C n a \<longleftrightarrow> engine_rep C default_options n (ap_db a) (store_of (ap_todos a)) \<and>
     sorted_wrt (<) (map td_id (ap_todos a)) \<and> (\<forall>t \<in> set (ap_todos a). td_id t < ap_next_id a) \<and>
     list_all todo_ok (ap_todos a) \<and> (ap_selected a < length (ap_todos a) \<or> ap_todos a = [] \<and> ap_selected a = 0) \<and>
     (\<forall>buf. ap_mode a = AddingTitle buf \<longrightarrow> list_all scalar buf)"

lemma store_of_fresh: "i \<notin> td_id ` set ts \<Longrightarrow> store_of ts (todo_key i) = None"
  by (auto simp: store_of_def map_of_eq_None_iff)

lemma store_of_insert:
  assumes "td_id t \<notin> td_id ` set (pre @ post)"
  shows "store_of (pre @ t # post) = (store_of (pre @ post))(todo_key (td_id t) \<mapsto> encode_todo t)"
proof
  fix k
  have "store_of pre (todo_key (td_id t)) = None" using assms by (intro store_of_fresh) auto
  then show "store_of (pre @ t # post) k = ((store_of (pre @ post))(todo_key (td_id t) \<mapsto> encode_todo t)) k"
    by (auto simp: store_of_def map_add_def split: option.splits)
qed

lemma store_of_remove:
  assumes "td_id t \<notin> td_id ` set (pre @ post)"
  shows "(store_of (pre @ t # post))(todo_key (td_id t) := None) = store_of (pre @ post)"
  using store_of_fresh [OF assms] by (auto simp: store_of_insert [OF assms])

lemma at_position:
  assumes "i < length ts" and "sorted_wrt (<) (map td_id ts)"
  obtains pre t post where "ts = pre @ t # post" and "length pre = i" and "ts ! i = t"
    and "td_id t \<notin> td_id ` set (pre @ post)" and "remove_at i ts = pre @ post" and "\<And>t'. ts[i := t'] = pre @ t' # post"
proof -
  let ?pre = "take i ts" and ?post = "drop (Suc i) ts"
  have ts: "ts = ?pre @ ts ! i # ?post" using assms(1) by (simp add: id_take_nth_drop)
  have "distinct (map td_id ts)" using assms(2) by (simp add: strict_sorted_iff)
  then have "distinct (map td_id (?pre @ ts ! i # ?post))" using ts by simp
  then have fresh: "td_id (ts ! i) \<notin> td_id ` set (?pre @ ?post)" by auto
  show thesis
    by (rule that [OF ts _ refl fresh]) (use assms(1) in \<open>simp_all add: remove_at_def upd_conv_take_nth_drop\<close>)
qed

lemma todo_sizes:
  assumes "todo_ok t"
  shows "sizes_ok (todo_key i) (encode_todo t)"
proof -
  have "length (as_bytes s) \<le> 4 * length s" for s
    by (induction s) (auto simp: as_bytes_def char_bytes_def)
  then have "length (as_bytes (td_title t)) \<le> 4 * length (td_title t)" .
  then have "length (encode_todo t) < 2 ^ 32" using assms by (simp add: todo_ok_def encode_todo_def)
  moreover have "length (todo_key i) < 2 ^ 31" using todo_key_valid [of i] by (simp add: valid_key_def)
  ultimately show ?thesis by (simp add: sizes_ok_def)
qed

lemma card_store: "card (dom (store_of ts)) \<le> length ts"
  using card_dom_map_of [of "map (\<lambda>t. (todo_key (td_id t), encode_todo t)) ts"] by (simp add: store_of_def)

lemma app_inv_weaken: "app_inv C n a \<Longrightarrow> n' \<le> n \<Longrightarrow> app_inv C n' a"
  unfolding app_inv_def using engine_rep_weaken by blast

lemma app_write_ok:
  "write (ap_db a) = Some (Inr (), db) \<Longrightarrow> app_write write fin a = Some (Inr (), fin (a\<lparr>ap_db := db\<rparr>))"
  by (simp add: app_write_def)

lemma toggle_selected_ok:
  assumes "app_inv C (Suc n) a"
  obtains a' where "toggle_selected C now a = Some (Inr (), a')" and "app_inv C n a'" and "length (ap_todos a') = length (ap_todos a)"
proof (cases "ap_selected a < length (ap_todos a)")
  case True
  have so: "sorted_wrt (<) (map td_id (ap_todos a))" using assms by (simp add: app_inv_def)
  obtain pre t post where ts: "ap_todos a = pre @ t # post" and t: "ap_todos a ! ap_selected a = t"
    and fresh: "td_id t \<notin> td_id ` set (pre @ post)" and upd: "\<And>t'. (ap_todos a)[ap_selected a := t'] = pre @ t' # post"
    by (rule at_position [OF True so]) blast
  let ?t = "t\<lparr>td_done := \<not> td_done t\<rparr>"
  have "todo_ok ?t" using assms ts by (simp add: app_inv_def todo_ok_def)
  then have sz: "sizes_ok (todo_key (td_id t)) (encode_todo ?t)" by (rule todo_sizes)
  have rep: "engine_rep C default_options (Suc n) (ap_db a) (store_of (pre @ t # post))" using assms ts by (simp add: app_inv_def)
  obtain db where put: "engine_put C (todo_key (td_id t)) (encode_todo ?t) now (ap_db a) = Some (Inr (), db)"
    and r: "engine_rep C default_options n db ((store_of (pre @ t # post))(todo_key (td_id t) \<mapsto> encode_todo ?t))"
    using put_refines [OF rep todo_key_valid sz] by blast
  have "(store_of (pre @ t # post))(todo_key (td_id t) \<mapsto> encode_todo ?t) = store_of (pre @ ?t # post)"
    using store_of_insert [OF fresh] store_of_insert [of ?t pre post] fresh by simp
  then have "app_inv C n (a\<lparr>ap_todos := pre @ ?t # post, ap_db := db\<rparr>)"
    using assms r ts \<open>todo_ok ?t\<close> by (auto simp: app_inv_def sorted_wrt_append)
  moreover have "toggle_selected C now a = Some (Inr (), a\<lparr>ap_todos := pre @ ?t # post, ap_db := db\<rparr>)"
    using True put by (simp add: toggle_selected_def t Let_def upd app_write_ok)
  ultimately show thesis using that ts by simp
next
  case False
  moreover have "app_inv C n a" by (rule app_inv_weaken [OF assms]) simp
  ultimately show thesis using that by (simp add: toggle_selected_def)
qed

lemma delete_selected_ok:
  assumes "app_inv C (Suc n) a"
  obtains a' where "delete_selected C now a = Some (Inr (), a')" and "app_inv C n a'"
proof (cases "ap_selected a < length (ap_todos a)")
  case True
  have so: "sorted_wrt (<) (map td_id (ap_todos a))" using assms by (simp add: app_inv_def)
  obtain pre t post where ts: "ap_todos a = pre @ t # post" and len: "length pre = ap_selected a"
    and t: "ap_todos a ! ap_selected a = t" and fresh: "td_id t \<notin> td_id ` set (pre @ post)"
    and rm: "remove_at (ap_selected a) (ap_todos a) = pre @ post"
    by (rule at_position [OF True so]) blast
  have rep: "engine_rep C default_options (Suc n) (ap_db a) (store_of (pre @ t # post))" using assms ts by (simp add: app_inv_def)
  obtain db where del: "engine_delete C (todo_key (td_id t)) now (ap_db a) = Some (Inr (), db)"
    and r: "engine_rep C default_options n db (store_of (pre @ post))"
    using delete_refines [OF rep todo_key_valid [of "td_id t"], of now] unfolding store_of_remove [OF fresh] by blast
  let ?a = "a\<lparr>ap_todos := pre @ post, ap_db := db\<rparr>"
  let ?a' = "if ap_selected ?a \<ge> length (ap_todos ?a) \<and> ap_selected ?a > 0
    then ?a\<lparr>ap_selected := ap_selected ?a - 1\<rparr> else ?a"
  have "app_inv C n ?a'"
    using assms r ts len by (auto simp: app_inv_def sorted_wrt_append)
  moreover have "delete_selected C now a = Some (Inr (), ?a')"
    using True del by (simp add: delete_selected_def t rm app_write_ok)
  ultimately show thesis using that by blast
next
  case False
  moreover have "app_inv C n a" by (rule app_inv_weaken [OF assms]) simp
  ultimately show thesis using that by (simp add: delete_selected_def)
qed

lemma add_todo_ok:
  assumes "app_inv C (Suc n) a" and "list_all scalar title" and "length title < 2 ^ 29" and "unat (ap_next_id a) < 2 ^ 64 - 1"
  obtains a' where "add_todo C now now' title a = Some (Inr (), a')" and "ap_mode a = Normal \<longrightarrow> app_inv C n a'"
proof (cases "list_all is_whitespace title")
  case True
  moreover have "app_inv C n a" by (rule app_inv_weaken [OF assms(1)]) simp
  ultimately show thesis using that by (simp add: add_todo_def)
next
  case False
  let ?t = "\<lparr>td_id = ap_next_id a, td_title = title, td_done = False, td_created_at = now\<rparr>"
  have ok: "todo_ok ?t" using assms(2,3) by (simp add: todo_ok_def)
  have fresh: "td_id ?t \<notin> td_id ` set (ap_todos a @ [])" using assms(1) by (auto simp: app_inv_def)
  have rep: "engine_rep C default_options (Suc n) (ap_db a) (store_of (ap_todos a))" using assms(1) by (simp add: app_inv_def)
  obtain db where put: "engine_put C (todo_key (td_id ?t)) (encode_todo ?t) now' (ap_db a) = Some (Inr (), db)"
    and r: "engine_rep C default_options n db (store_of (ap_todos a @ [?t]))"
    using put_refines [OF rep todo_key_valid [of "td_id ?t"] todo_sizes [OF ok], of now'] store_of_insert [OF fresh] by auto
  let ?a' = "a\<lparr>ap_db := db, ap_next_id := ap_next_id a + 1, ap_todos := ap_todos a @ [?t], ap_selected := length (ap_todos a)\<rparr>"
  have up: "ap_next_id a < ap_next_id a + 1"
    using assms(4) unat_add_lem [of "ap_next_id a" 1] by (simp add: word_less_nat_alt)
  have "\<forall>t \<in> set (ap_todos a). td_id t < ap_next_id a" using assms(1) by (simp add: app_inv_def)
  then have "\<forall>t \<in> set (ap_todos a @ [?t]). td_id t < ap_next_id a + 1" using up by (auto intro: less_trans)
  then have "app_inv C n ?a'"
    using assms(1) r ok by (auto simp: app_inv_def sorted_wrt_append)
  moreover have "add_todo C now now' title a = Some (Inr (), ?a')"
    using False put by (simp add: add_todo_def app_write_ok)
  ultimately show thesis using that by blast
qed

lemma move_selection_inv: "app_inv C n a \<Longrightarrow> app_inv C n (move_selection d a)"
  by (auto simp: move_selection_def app_inv_def nat_less_iff)

lemma app_call_ok:
  assumes "app_inv C n a" and "\<exists>db. call (ap_db a) = (Inr (), db) \<and> engine_rep C default_options n' db (store_of (ap_todos a))"
  obtains a' where "app_call call status a = Some (Inr False, a')" and "app_inv C n' a'"
proof -
  obtain db where db: "call (ap_db a) = (Inr (), db)" "engine_rep C default_options n' db (store_of (ap_todos a))"
    using assms(2) by blast
  have "app_inv C n' (a\<lparr>ap_db := db, ap_status := Some (ascii status)\<rparr>)" using assms(1) db(2) by (simp add: app_inv_def)
  moreover have "app_call call status a = Some (Inr False, a\<lparr>ap_db := db, ap_status := Some (ascii status)\<rparr>)"
    by (simp add: app_call_def stay_def app_write_ok db(1))
  ultimately show thesis using that by blast
qed

lemma app_inv_mode:
  "app_inv C n a \<Longrightarrow> (\<And>buf. m = AddingTitle buf \<Longrightarrow> list_all scalar buf) \<Longrightarrow> app_inv C n (a\<lparr>ap_mode := m\<rparr>)"
  by (simp add: app_inv_def)

lemma key_adding_ok:
  assumes inv: "app_inv C (Suc n) a" and b: "list_all scalar b" "length b < 2 ^ 29"
    and key: "\<And>c. key = KeyChar c \<Longrightarrow> scalar c" and nid: "unat (ap_next_id a) < 2 ^ 64 - 1"
  obtains quit a' where "key_adding C now now' b key a = Some (Inr quit, a')" and "app_inv C n a'"
proof -
  have n: "app_inv C n a" by (rule app_inv_weaken [OF inv]) simp
  show thesis
  proof (cases key)
    case Enter
    have normal: "app_inv C (Suc n) (a\<lparr>ap_mode := Normal\<rparr>)" by (rule app_inv_mode [OF inv]) simp
    obtain a' where "add_todo C now now' b (a\<lparr>ap_mode := Normal\<rparr>) = Some (Inr (), a')" "app_inv C n a'"
      using add_todo_ok [OF normal b] nid by auto
    then show thesis using that [of False] Enter by (simp add: stay_def)
  next
    case Backspace
    have "list_all scalar (butlast b)" using b(1) by (auto simp: list_all_iff dest: in_set_butlastD)
    then show thesis using that [of False] app_inv_mode [OF n, of "AddingTitle (butlast b)"] Backspace by simp
  next
    case (KeyChar c)
    then show thesis using that [of False] app_inv_mode [OF n, of "AddingTitle (b @ [c])"] b(1) key by simp
  qed (use that [of False] n app_inv_mode [OF n, of Normal] in simp_all)
qed

lemma key_normal_ok:
  assumes inv: "app_inv C (n + length (ap_todos a) + 2) a" and C: "crc32fast_ok C"
  obtains quit a' where "key_normal C now key a = Some (Inr quit, a')" and "app_inv C n a'"
proof -
  have n: "app_inv C (Suc n) a" "app_inv C n a" by (rule app_inv_weaken [OF inv]; simp)+
  obtain t where t: "toggle_selected C now a = Some (Inr (), t)" "app_inv C n t" by (rule toggle_selected_ok [OF n(1)])
  obtain d where d: "delete_selected C now a = Some (Inr (), d)" "app_inv C n d" by (rule delete_selected_ok [OF n(1)])
  have r1: "engine_rep C default_options (n + card (dom (store_of (ap_todos a))) + 2) (ap_db a) (store_of (ap_todos a))"
    using inv card_store [of "ap_todos a"] by (auto simp: app_inv_def intro: engine_rep_weaken)
  obtain mg where mg: "app_call (engine_merge C) ''merged'' a = Some (Inr False, mg)" "app_inv C n mg"
    by (rule app_call_ok [where call = "engine_merge C", OF n(2) merge_refines [OF r1 C]])
  have r2: "engine_rep C default_options n (ap_db a) (store_of (ap_todos a))" using n(2) by (simp add: app_inv_def)
  obtain sy where sy: "app_call engine_sync ''synced'' a = Some (Inr False, sy)" "app_inv C n sy"
    by (rule app_call_ok [where call = engine_sync, OF n(2) sync_refines [OF r2]])
  have add: "app_inv C n (a\<lparr>ap_mode := AddingTitle []\<rparr>)" by (rule app_inv_mode [OF n(2)]) simp
  have "\<exists>quit a'. key_normal C now key a = Some (Inr quit, a') \<and> app_inv C n a'"
    using t d mg sy add n(2) move_selection_inv [OF n(2)] by (auto simp: key_normal_def stay_def char_code_def)
  then show thesis using that by blast
qed

section \<open>Starting again\<close>

lemma collect_all:
  assumes "list_all todo_ok ts" and "\<And>t. t \<in> set ts \<Longrightarrow> store_of ts' (todo_key (td_id t)) = Some (encode_todo t)"
  shows "fold (\<lambda>k. collect_todo k (the (store_of ts' k))) (map (\<lambda>t. todo_key (td_id t)) ts) (Some acc) = Some (acc @ ts)"
  using assms
proof (induction ts arbitrary: acc)
  case (Cons t ts)
  have "collect_todo (todo_key (td_id t)) (encode_todo t) (Some acc) = Some (acc @ [t])"
    using Cons.prems(1) parse_todo_key [of "td_id t"] decode_encode_todo [of t]
    by (simp add: collect_todo_def todo_ok_def)
  then show ?case using Cons by simp
qed simp

lemma store_of_mem:
  assumes "distinct (map td_id ts)" and "t \<in> set ts"
  shows "store_of ts (todo_key (td_id t)) = Some (encode_todo t)"
proof -
  have "distinct (map (\<lambda>t. todo_key (td_id t)) ts)"
    using assms(1) distinct_map [of todo_key "map td_id ts"] by (simp add: comp_def inj_on_def)
  then show ?thesis using assms(2) unfolding store_of_def by (intro map_of_is_SomeI) (auto simp: comp_def)
qed

lemma dom_store_of: "dom (store_of ts) = (\<lambda>t. todo_key (td_id t)) ` set ts"
  by (simp add: store_of_def dom_map_of_conv_image_fst image_image)

text \<open>Any order of the keys comes from an order of the todos.\<close>

lemma keys_of_todos:
  assumes "distinct (map td_id ts)" and "distinct ks" and "set ks = dom (store_of ts)"
  obtains us where "ks = map (\<lambda>t. todo_key (td_id t)) us" and "mset us = mset ts"
proof -
  let ?f = "\<lambda>t. todo_key (td_id t)"
  have inj: "inj_on ?f (set ts)" using assms(1) by (auto simp: inj_on_def distinct_map)
  define us where "us = map (the_inv_into (set ts) ?f) ks"
  have ks: "set ks = ?f ` set ts" using assms(3) dom_store_of by simp
  have "map ?f us = ks" using ks f_the_inv_into_f [OF inj] by (simp add: us_def) (rule map_idI, simp)
  moreover have "set us = set ts"
    using ks the_inv_into_f_f [OF inj] by (force simp: us_def)
  moreover have "distinct us" using \<open>map ?f us = ks\<close> assms(2) by (metis distinct_map)
  moreover have "distinct ts" using assms(1) by (simp add: distinct_map)
  ultimately show thesis using that [of us] set_eq_iff_mset_eq_distinct [of us ts] by simp
qed

lemma app_open_ok:
  assumes d: "dir_holds C n w (store_of ts)" and s: "sorted_wrt (<) (map td_id ts)" and ok: "list_all todo_ok ts"
    and flk: "flock_ok flk" and kord: "iteration_order kord" and nid: "\<forall>t \<in> set ts. unat (td_id t) < 2 ^ 64 - 1"
  obtains a w' where "app_open C flk kord w = Some (Inr a, w')" and "app_inv C n a" and "ap_todos a = ts"
    and "ap_mode a = Normal" and "ap_next_id a = next_id_of ts"
proof -
  have dist: "distinct (map td_id ts)" using s by (simp add: strict_sorted_iff)
  obtain eg w1 where o: "engine_open C flk default_options w = (Inr eg, w1)"
    and r: "engine_rep C default_options n (eg, w1) (store_of ts)"
    by (rule dir_open [OF d flk])
  obtain ks db where ks: "distinct ks" "set ks = dom (store_of ts)"
    and f: "engine_fold kord collect_todo (Some []) (eg, w1) =
        (Inr (fold (\<lambda>k. collect_todo k (the (store_of ts k))) ks (Some [])), db)"
    and r': "engine_rep C default_options n db (store_of ts)"
    using fold_refines [OF r kord, of collect_todo "Some []"] by blast
  obtain us where us: "ks = map (\<lambda>t. todo_key (td_id t)) us" "mset us = mset ts"
    by (rule keys_of_todos [OF dist ks])
  have set: "set us = set ts" using us(2) by (metis set_mset_mset)
  have "fold (\<lambda>k. collect_todo k (the (store_of ts k))) ks (Some []) = Some us"
    using collect_all [of us ts "[]"] ok set store_of_mem [OF dist] us(1) by (simp add: list_all_iff)
  moreover have "sort_key td_id us = ts"
    using us(2) dist s by (intro sort_key_inj_key_eq) (auto simp: distinct_map strict_sorted_iff set)
  moreover have "td_id t < next_id_of ts" if "t \<in> set ts" for t
  proof -
    have "td_id t \<le> Max (td_id ` set ts)" using that by (intro Max_ge) auto
    moreover have "Max (td_id ` set ts) \<in> td_id ` set ts" using that by (intro Max_in) auto
    then have "unat (Max (td_id ` set ts)) < 2 ^ 64 - 1" using nid by auto
    then have "Max (td_id ` set ts) < Max (td_id ` set ts) + 1"
      using unat_add_lem [of "Max (td_id ` set ts)" 1] by (simp add: word_less_nat_alt)
    ultimately show ?thesis using that by (auto simp: next_id_of_def)
  qed
  ultimately show thesis
    using that o f r' s ok by (simp add: app_open_def app_inv_def Let_def)
qed

text \<open>
  Whatever keys are pressed, the store holds exactly the todos on the screen, the list stays sorted, every
  id in it is below the next one to be given, and the selection stays on a todo: no key fails, blocks or panics.
\<close>

lemma handle_key_ok:
  assumes "app_inv C (n + length (ap_todos a) + 2) a" and "crc32fast_ok C"
    and "\<And>c. key = KeyChar c \<Longrightarrow> scalar c" and "\<And>buf. ap_mode a = AddingTitle buf \<Longrightarrow> length buf < 2 ^ 29"
    and "unat (ap_next_id a) < 2 ^ 64 - 1"
  shows "\<exists>quit a'. handle_key C now now' key a = Some (Inr quit, a') \<and> app_inv C n a'"
proof (cases "ap_mode a")
  case Normal
  then show ?thesis using key_normal_ok [OF assms(1,2)] by (simp add: handle_key_def) metis
next
  case (AddingTitle b)
  have "app_inv C (Suc n) a" by (rule app_inv_weaken [OF assms(1)]) simp
  moreover have "list_all scalar b" using assms(1) AddingTitle by (simp add: app_inv_def)
  ultimately show ?thesis
    using key_adding_ok [of C n a b key now now'] assms(3-5) AddingTitle by (simp add: handle_key_def) metis
qed

lemma empty_app:
  assumes "n < 2 ^ 31"
  obtains a w where "app_open byte_sum toy_flock rev empty_world = Some (Inr a, w)" and "app_inv byte_sum n a"
    and "ap_todos a = []" and "ap_mode a = Normal" and "ap_next_id a = 0"
proof -
  have "dir_holds byte_sum n empty_world (store_of [])" using dir_holds_empty [OF assms] by (simp add: store_of_def)
  from app_open_ok [OF this _ _ toy_flock_ok id_order(2)] show thesis
    using that by (auto simp: next_id_of_def)
qed

text \<open>
  Starting the tracker on a directory that holds a list of todos shows exactly that list, every title, flag
  and date as it was, whatever the order in which the store yields them.
\<close>

theorem todo_restart:
  assumes "dir_holds C n w (store_of ts)" and "sorted_wrt (<) (map td_id ts)" and "list_all todo_ok ts"
    and "flock_ok flk" and "iteration_order kord" and "\<forall>t \<in> set ts. unat (td_id t) < 2 ^ 64 - 1"
  shows "\<exists>a w'. app_open C flk kord w = Some (Inr a, w') \<and> app_inv C n a \<and> ap_todos a = ts"
  using app_open_ok [OF assms] by metis

lemma todo_restart_witness:
  "\<exists>a w'. app_open byte_sum toy_flock rev empty_world = Some (Inr a, w') \<and> app_inv byte_sum 5 a \<and> ap_todos a = []"
proof -
  have d: "dir_holds byte_sum 5 empty_world (store_of [])" using dir_holds_empty [of 5 byte_sum] by (simp add: store_of_def)
  show ?thesis by (rule todo_restart [OF d _ _ toy_flock_ok id_order(2)]) simp_all
qed

end
