(* ===== verification/TodoRun.thy ===== *)
theory TodoRun
  imports Todo
begin

text \<open>
  \<open>examples/todo_tui.rs\<close>: what the todo tracker draws, as text, and its loop of drawing and handling keys. Borders, colours and the
  layout are \<open>ratatui\<close>'s; the events of the terminal, with what the clock says when they are handled, are the input.
\<close>

section \<open>Drawing\<close>

record screen =
  sc_header :: text_str
  sc_items :: "text_str list"
  sc_selected :: "nat option"
  sc_footer :: text_str

definition item_line :: "todo \<Rightarrow> text_str" where
  "item_line t = (if td_done t then ascii ''[x]'' else ascii ''[ ]'') @ ascii '' '' @ td_title t"

definition help_line :: text_str where
  "help_line = ascii ''j/k move  a add  space/enter toggle  d delete  m merge  s sync  q quit''"

text \<open>The dash is \<open>U+2014\<close>.\<close>

definition footer_text :: "app \<Rightarrow> text_str" where
  "footer_text a =
     (case ap_mode a of
        AddingTitle buf \<Rightarrow> ascii ''New todo: '' @ buf @ ascii ''_''
      | Normal \<Rightarrow>
          (case ap_status a of
             Some status \<Rightarrow> help_line @ ascii ''  '' @ [0x2014] @ ascii ''  '' @ status
           | None \<Rightarrow> help_line))"

definition header_text :: "nat \<Rightarrow> text_str" where
  "header_text n = ascii ''yabiir todo '' @ [0x2014] @ ascii '' '' @ ascii (decimal n) @ ascii '' items''"

definition draw :: "app \<Rightarrow> screen" where
  "draw a = \<lparr>sc_header = header_text (length (ap_todos a)), sc_items = map item_line (ap_todos a),
     sc_selected = (if ap_todos a \<noteq> [] then Some (ap_selected a) else None), sc_footer = footer_text a\<rparr>"

section \<open>The loop\<close>

text \<open>
  What a round of the loop meets: no event within the time, or one that is not a key press; a key press, with the two times that
  \<open>handle_key\<close> may read; an error of the terminal while drawing, or while polling or reading.
\<close>

datatype term_event = Quiet | Press u32 u32 key_code | DrawError io_error | TermError io_error

text \<open>
  The result is \<open>None\<close> while the loop goes on, and the frames are kept with the datastore at that moment. A
  panic is \<open>None\<close> on the outside.
\<close>

type_synonym frame = "(engine \<times> world) \<times> screen"

fun todo_run :: "'h crc32fast \<Rightarrow> term_event list \<Rightarrow> app \<Rightarrow> frame list \<Rightarrow> ((error + unit) option \<times> app \<times> frame list) option" where
  "todo_run C [] a frames = Some (None, a, frames)"
| "todo_run C (DrawError e # evs) a frames = Some (Some (Inl (Io e)), a, frames)"
| "todo_run C (TermError e # evs) a frames = Some (Some (Inl (Io e)), a, frames @ [(ap_db a, draw a)])"
| "todo_run C (Quiet # evs) a frames = todo_run C evs a (frames @ [(ap_db a, draw a)])"
| "todo_run C (Press now now' key # evs) a frames =
     (case handle_key C now now' key a of
        None \<Rightarrow> None
      | Some (Inl e, a') \<Rightarrow> Some (Some (Inl e), a', frames @ [(ap_db a, draw a)])
      | Some (Inr quit, a') \<Rightarrow>
          if quit then Some (Some (Inr ()), a', frames @ [(ap_db a, draw a)])
          else todo_run C evs a' (frames @ [(ap_db a, draw a)]))"

section \<open>The screens show the store\<close>

text \<open>How fast the list, the next id and the title that is typed grow.\<close>

definition typed :: "app \<Rightarrow> nat" where
  "typed a = (case ap_mode a of AddingTitle buf \<Rightarrow> length buf | Normal \<Rightarrow> 0)"

definition grown :: "app \<Rightarrow> app \<Rightarrow> bool" where
  "grown a a' \<longleftrightarrow> length (ap_todos a') \<le> Suc (length (ap_todos a)) \<and> unat (ap_next_id a') \<le> Suc (unat (ap_next_id a)) \<and>
     typed a' \<le> Suc (typed a)"

lemma unat_inc_le: "unat (x + 1 :: u64) \<le> Suc (unat x)"
  using unat_plus_if' [of x 1] by (simp split: if_splits)

lemma handle_key_grown:
  assumes "handle_key C now now' key a = Some (res, a')"
  shows "grown a a'"
proof (cases "ap_mode a")
  case (AddingTitle buf)
  then show ?thesis using assms unat_inc_le [of "ap_next_id a"]
    by (cases key) (auto simp: handle_key_def stay_def add_todo_def Let_def grown_def typed_def app_write_def split: if_splits)
next
  case Normal
  then show ?thesis using assms
    by (auto simp: handle_key_def key_normal_def stay_def app_call_def toggle_selected_def delete_selected_def remove_at_def move_selection_def
        Let_def grown_def typed_def app_write_def split: if_splits prod.splits)
qed

text \<open>One key, with the budget for the rest of the run.\<close>

definition run_inv :: "'h crc32fast \<Rightarrow> nat \<Rightarrow> nat \<Rightarrow> app \<Rightarrow> bool" where
  "run_inv C k b a \<longleftrightarrow> app_inv C (k * (b + 2)) a \<and> length (ap_todos a) + k \<le> b \<and> typed a + k < 2 ^ 29 \<and> unat (ap_next_id a) + k < 2 ^ 64"

lemma run_inv_less: "run_inv C (Suc k) b a \<Longrightarrow> run_inv C k b a"
  by (auto simp: run_inv_def elim: app_inv_weaken)

lemma run_inv_key:
  assumes inv: "run_inv C (Suc k) b a" and C: "crc32fast_ok C" and key: "\<And>c. key = KeyChar c \<Longrightarrow> scalar c"
  obtains quit a' where "handle_key C now now' key a = Some (Inr quit, a')" and "run_inv C k b a'"
proof -
  have "k * (b + 2) + length (ap_todos a) + 2 \<le> Suc k * (b + 2)" using inv by (simp add: run_inv_def)
  then have i: "app_inv C (k * (b + 2) + length (ap_todos a) + 2) a" using inv app_inv_weaken unfolding run_inv_def by blast
  have buf: "\<And>buf. ap_mode a = AddingTitle buf \<Longrightarrow> length buf < 2 ^ 29" using inv by (auto simp: run_inv_def typed_def)
  have nid: "unat (ap_next_id a) < 2 ^ 64 - 1" using inv by (simp add: run_inv_def)
  obtain quit a' where h: "handle_key C now now' key a = Some (Inr quit, a')" and i': "app_inv C (k * (b + 2)) a'"
    using handle_key_ok [OF i C key buf nid] by blast
  have "grown a a'" by (rule handle_key_grown [OF h])
  then have "run_inv C k b a'" using inv i' by (auto simp: run_inv_def grown_def)
  with h show thesis by (rule that)
qed

text \<open>What a frame shows, and what the store held when it was drawn.\<close>

definition shows_store :: "'h crc32fast \<Rightarrow> frame \<Rightarrow> bool" where
  "shows_store C = (\<lambda>(db, sc). \<exists>ts. engine_rep C default_options 0 db (store_of ts) \<and> sorted_wrt (<) (map td_id ts) \<and>
     sc_items sc = map item_line ts \<and> sc_header sc = header_text (length ts) \<and>
     (case sc_selected sc of None \<Rightarrow> ts = [] | Some i \<Rightarrow> i < length ts))"

lemma draw_shows_store: "run_inv C k b a \<Longrightarrow> shows_store C (ap_db a, draw a)"
  by (auto simp: run_inv_def app_inv_def shows_store_def draw_def intro!: exI [of _ "ap_todos a"] elim: engine_rep_weaken)

lemma todo_run_ok:
  assumes "run_inv C (length evs) b a" and C: "crc32fast_ok C" and "\<forall>now now' c. Press now now' (KeyChar c) \<in> set evs \<longrightarrow> scalar c"
    and "\<forall>fr \<in> set frames. shows_store C fr"
  shows "\<exists>res a' frames'. todo_run C evs a frames = Some (res, a', frames') \<and> app_inv C 0 a' \<and> (\<forall>fr \<in> set frames'. shows_store C fr) \<and>
    (\<forall>e. res = Some (Inl e) \<longrightarrow> (\<exists>io. e = Io io \<and> (DrawError io \<in> set evs \<or> TermError io \<in> set evs)))"
  using assms(1,3,4)
proof (induction evs arbitrary: a frames)
  case Nil
  then show ?case by (simp add: run_inv_def)
next
  case (Cons ev evs)
  have inv: "run_inv C (Suc (length evs)) b a" using Cons.prems(1) by simp
  have now: "app_inv C 0 a" using inv by (auto simp: run_inv_def elim: app_inv_weaken)
  have fr: "\<forall>fr \<in> set (frames @ [(ap_db a, draw a)]). shows_store C fr" using Cons.prems(3) draw_shows_store [OF inv] by auto
  have chars: "\<forall>now now' c. Press now now' (KeyChar c) \<in> set evs \<longrightarrow> scalar c" using Cons.prems(2) by auto
  show ?case
  proof (cases ev)
    case Quiet
    then show ?thesis using Cons.IH [OF run_inv_less [OF inv] chars fr] by auto
  next
    case (Press t t' key)
    have "scalar c" if "key = KeyChar c" for c using Cons.prems(2) Press that by auto
    from run_inv_key [OF inv C this] obtain quit a' where h: "handle_key C t t' key a = Some (Inr quit, a')" and i: "run_inv C (length evs) b a'"
      by blast
    have "app_inv C 0 a'" using i by (auto simp: run_inv_def elim: app_inv_weaken)
    then show ?thesis using Press h fr Cons.IH [OF i chars fr] by (cases quit) auto
  next
    case (DrawError e)
    then show ?thesis using now Cons.prems(3) by auto
  next
    case (TermError e)
    then show ?thesis using now fr by auto
  qed
qed

text \<open>
  C33: In a session of the todo tracker, whatever keys are pressed, every screen lists exactly the todos that the datastore
  holds at that moment, in the order of their ids, with their number in the header and the selection on one of them. No key fails,
  blocks or panics: the session ends with an error only when the terminal gives one.
\<close>

theorem todo_session:
  assumes "app_inv C (length evs * (length (ap_todos a) + length evs + 2)) a" and "crc32fast_ok C"
    and "\<forall>now now' c. Press now now' (KeyChar c) \<in> set evs \<longrightarrow> scalar c"
    and "typed a + length evs < 2 ^ 29" and "unat (ap_next_id a) + length evs < 2 ^ 64"
  shows "\<exists>res a' frames. todo_run C evs a [] = Some (res, a', frames) \<and> app_inv C 0 a' \<and> (\<forall>fr \<in> set frames. shows_store C fr) \<and>
    (\<forall>e. res = Some (Inl e) \<longrightarrow> (\<exists>io. e = Io io \<and> (DrawError io \<in> set evs \<or> TermError io \<in> set evs)))"
proof -
  have "run_inv C (length evs) (length (ap_todos a) + length evs) a" using assms(1,4,5) by (simp add: run_inv_def)
  from todo_run_ok [OF this assms(2,3)] show ?thesis by simp
qed

lemma todo_session_witness:
  "\<exists>a w res a' frames. app_open byte_sum toy_flock rev empty_world = Some (Inr a, w) \<and>
     todo_run byte_sum [Press 1 2 (KeyChar 97), Quiet, Press 1 2 (KeyChar 98), Press 1 2 Enter, Press 1 2 (KeyChar 113)] a [] = Some (res, a', frames) \<and>
     (\<forall>fr \<in> set frames. shows_store byte_sum fr)"
proof -
  let ?evs = "[Press 1 2 (KeyChar 97), Quiet, Press 1 2 (KeyChar 98), Press 1 2 Enter, Press 1 2 (KeyChar 113)]"
  obtain a w where o: "app_open byte_sum toy_flock rev empty_world = Some (Inr a, w)" and i: "app_inv byte_sum 35 a"
    and t: "ap_todos a = []" and m: "ap_mode a = Normal" and n: "ap_next_id a = 0"
    by (rule empty_app [of 35]) simp_all
  have "length ?evs * (length (ap_todos a) + length ?evs + 2) = 35" using t by simp
  then have "app_inv byte_sum (length ?evs * (length (ap_todos a) + length ?evs + 2)) a" using i by (simp only:)
  from todo_session [OF this byte_sum_ok] show ?thesis
    using o m n by (auto simp: scalar_def typed_def)
qed

end
