(* ===== verification/Firehose.thy ===== *)
theory Firehose
  imports Kv
begin

text \<open>
  \<open>examples/bsky_firehose.rs\<close>: a consumer that stores every post of a stream, with counters. Decoding frames,
  commits, blocks and dates is other crates' work: parameters. The connection, the terminal and the dashboard
  are left out.
\<close>

section \<open>Records\<close>

definition post_key :: "text_str \<Rightarrow> text_str \<Rightarrow> bytes" where
  "post_key repo_did rkey = as_bytes (repo_did @ ascii ''/'' @ rkey)"

definition encode_post :: "text_str \<Rightarrow> u32 \<Rightarrow> bytes" where
  "encode_post text created_at_unix = le32 created_at_unix @ as_bytes text"

definition truncate_for_display :: "text_str \<Rightarrow> nat \<Rightarrow> text_str" where
  "truncate_for_display s max_chars =
     map (\<lambda>c. if c = 10 then 32 else c) (take max_chars s @ (if length s > max_chars then [0x2026] else []))"

section \<open>Counters\<close>

definition HISTORY_LEN :: nat where
  "HISTORY_LEN = 120"

definition LOG_LEN :: nat where
  "LOG_LEN = 200"

definition MERGE_INTERVAL_TICKS :: u32 where
  "MERGE_INTERVAL_TICKS = 30"

text \<open>\<open>push_back\<close> on a deque that drops its oldest element when it is full.\<close>

definition push_bounded :: "nat \<Rightarrow> 'a \<Rightarrow> 'a list \<Rightarrow> 'a list" where
  "push_bounded cap x xs = (if length xs \<ge> cap then tl xs else xs) @ [x]"

record counter =
  ct_label :: text_str
  ct_total :: u64
  ct_this_tick :: u64
  ct_history :: "u64 list"

definition counter_new :: "string \<Rightarrow> counter" where
  "counter_new label = \<lparr>ct_label = ascii label, ct_total = 0, ct_this_tick = 0, ct_history = []\<rparr>"

definition counter_record :: "u64 \<Rightarrow> counter \<Rightarrow> counter" where
  "counter_record n ct = ct\<lparr>ct_total := ct_total ct + n, ct_this_tick := ct_this_tick ct + n\<rparr>"

definition counter_tick :: "counter \<Rightarrow> counter" where
  "counter_tick ct = ct\<lparr>ct_history := push_bounded HISTORY_LEN (ct_this_tick ct) (ct_history ct), ct_this_tick := 0\<rparr>"

definition last_rate :: "counter \<Rightarrow> u64" where
  "last_rate ct = (if ct_history ct = [] then 0 else last (ct_history ct))"

section \<open>The metrics collector\<close>

record collector =
  put_count :: u64
  put_nanos :: u64
  get_count :: u64
  get_nanos :: u64
  delete_count :: u64
  delete_nanos :: u64
  merge_count :: u64
  merge_nanos :: u64
  sync_count :: u64
  sync_nanos :: u64
  merge_batches :: u64
  max_pending_queue_depth :: u64
  last_merge_input_files :: u64
  last_merge_live_entries :: u64

definition collector_default :: collector where
  "collector_default = \<lparr>put_count = 0, put_nanos = 0, get_count = 0, get_nanos = 0, delete_count = 0, delete_nanos = 0,
     merge_count = 0, merge_nanos = 0, sync_count = 0, sync_nanos = 0, merge_batches = 0, max_pending_queue_depth = 0,
     last_merge_input_files = 0, last_merge_live_entries = 0\<rparr>"

text \<open>What the collector does with a call of the engine that took \<open>nanos\<close> nanoseconds.\<close>

fun collect :: "u64 \<Rightarrow> metric \<Rightarrow> collector \<Rightarrow> collector" where
  "collect nanos RecordPut c = c\<lparr>put_count := put_count c + 1, put_nanos := put_nanos c + nanos\<rparr>"
| "collect nanos RecordGet c = c\<lparr>get_count := get_count c + 1, get_nanos := get_nanos c + nanos\<rparr>"
| "collect nanos RecordDelete c = c\<lparr>delete_count := delete_count c + 1, delete_nanos := delete_nanos c + nanos\<rparr>"
| "collect nanos RecordMerge c = c\<lparr>merge_count := merge_count c + 1, merge_nanos := merge_nanos c + nanos\<rparr>"
| "collect nanos RecordSync c = c\<lparr>sync_count := sync_count c + 1, sync_nanos := sync_nanos c + nanos\<rparr>"
| "collect nanos (RecordPendingQueueDepth depth) c =
     c\<lparr>merge_batches := merge_batches c + 1, max_pending_queue_depth := max (max_pending_queue_depth c) (of_nat depth)\<rparr>"
| "collect nanos (RecordMergeSummary input_files live) c =
     c\<lparr>last_merge_input_files := of_nat input_files, last_merge_live_entries := of_nat live\<rparr>"

definition checked_div :: "u64 \<Rightarrow> u64 \<Rightarrow> u64 option" where
  "checked_div a b = (if b = 0 then None else Some (a div b))"

definition unwrap_or :: "'a \<Rightarrow> 'a option \<Rightarrow> 'a" where
  "unwrap_or d x = (case x of None \<Rightarrow> d | Some a \<Rightarrow> a)"

definition collector_snapshot :: "u64 \<Rightarrow> u64 \<Rightarrow> u64 \<times> u64" where
  "collector_snapshot count nanos = (count, unwrap_or 0 (checked_div nanos count))"

text \<open>
  The engine shares the collector with the application, so what the application sees is what the calls the
  engine has made leave in it; \<open>dur i\<close> is how long the \<open>i\<close>th call took.
\<close>

fun collect_from :: "(nat \<Rightarrow> u64) \<Rightarrow> nat \<Rightarrow> metric list \<Rightarrow> collector \<Rightarrow> collector" where
  "collect_from dur i [] c = c"
| "collect_from dur i (x # xs) c = collect_from dur (Suc i) xs (collect (dur i) x c)"

definition engine_collector :: "(nat \<Rightarrow> u64) \<Rightarrow> engine \<Rightarrow> collector" where
  "engine_collector dur eg = collect_from dur 0 (unwrap_or [] (eg_metrics eg)) collector_default"

record latency =
  lm_label :: text_str
  lm_last_count :: u64
  lm_last_nanos :: u64
  lm_history :: "u64 list"

definition latency_new :: "string \<Rightarrow> latency" where
  "latency_new label = \<lparr>lm_label = ascii label, lm_last_count = 0, lm_last_nanos = 0, lm_history = []\<rparr>"

definition saturating_sub :: "u64 \<Rightarrow> u64 \<Rightarrow> u64" where
  "saturating_sub a b = (if a \<ge> b then a - b else 0)"

definition latency_tick :: "u64 \<Rightarrow> u64 \<Rightarrow> latency \<Rightarrow> latency" where
  "latency_tick count nanos lm =
     (let delta_count = saturating_sub count (lm_last_count lm);
          delta_nanos = saturating_sub nanos (lm_last_nanos lm);
          avg_ns = unwrap_or 0 (checked_div delta_nanos delta_count)
      in lm\<lparr>lm_last_count := count, lm_last_nanos := nanos, lm_history := push_bounded HISTORY_LEN avg_ns (lm_history lm)\<rparr>)"

definition last_rate_us :: "latency \<Rightarrow> u64" where
  "last_rate_us lm = (if lm_history lm = [] then 0 else last (lm_history lm)) div 1000"


section \<open>Frames\<close>

record frame_header =
  fr_op :: int
  fr_t :: "text_str option"

record repo_op =
  ro_path :: text_str
  ro_action :: text_str
  ro_cid :: "text_str option"

record commit_data =
  cm_repo :: text_str
  cm_ops :: "repo_op list"
  cm_blocks :: bytes

record post_record =
  pr_text :: text_str
  pr_created_at :: text_str

text \<open>
  The decoders: a header and what follows it, a commit, the blocks of a CAR file with their CIDs printed, a
  post, and the seconds of a date. A failure is the message of its error.
\<close>

record decoders =
  de_header :: "bytes \<Rightarrow> text_str + frame_header \<times> bytes"
  de_commit :: "bytes \<Rightarrow> text_str + commit_data"
  de_car :: "bytes \<Rightarrow> text_str + (text_str \<times> bytes) list"
  de_post :: "bytes \<Rightarrow> post_record option"
  de_date :: "text_str \<Rightarrow> int option"

datatype frame_error = StoreError error | DecodeError text_str

definition POST_COLLECTION :: text_str where
  "POST_COLLECTION = ascii ''app.bsky.feed.post''"

definition starts_with :: "text_str \<Rightarrow> text_str \<Rightarrow> bool" where
  "starts_with s p \<longleftrightarrow> take (length p) s = p"

text \<open>\<open>rsplit('/').next()\<close>: what follows the last slash, or everything.\<close>

definition after_last_slash :: "text_str \<Rightarrow> text_str" where
  "after_last_slash s = rev (takeWhile (\<lambda>c. c \<noteq> 47) (rev s))"

text \<open>\<open>dt.timestamp().max(0) as u32\<close>, or what the clock says.\<close>

definition created_unix :: "decoders \<Rightarrow> u32 \<Rightarrow> post_record \<Rightarrow> u32" where
  "created_unix D now r = (case de_date D (pr_created_at r) of Some secs \<Rightarrow> of_int (max secs 0) | None \<Rightarrow> now)"

section \<open>The application\<close>

record fh_app =
  fa_db :: "engine \<times> world"
  fa_frames :: counter
  fa_stored :: counter
  fa_deleted :: counter
  fa_skipped :: counter
  fa_put_latency :: latency
  fa_delete_latency :: latency
  fa_ticks_since_merge :: u32
  fa_log :: "text_str list"

definition fh_new :: "engine \<times> world \<Rightarrow> fh_app" where
  "fh_new db = \<lparr>fa_db = db, fa_frames = counter_new ''Frames/s'', fa_stored = counter_new ''Posts stored/s'',
     fa_deleted = counter_new ''Posts deleted/s'', fa_skipped = counter_new ''Skipped/s'',
     fa_put_latency = latency_new ''Put latency'', fa_delete_latency = latency_new ''Delete latency'',
     fa_ticks_since_merge = 0, fa_log = []\<rparr>"

definition fh_log :: "text_str \<Rightarrow> fh_app \<Rightarrow> fh_app" where
  "fh_log line a = a\<lparr>fa_log := push_bounded LOG_LEN line (fa_log a)\<rparr>"

definition skip :: "fh_app \<Rightarrow> fh_app" where
  "skip a = a\<lparr>fa_skipped := counter_record 1 (fa_skipped a)\<rparr>"

definition fh_merge :: "'h crc32fast \<Rightarrow> (io_error \<Rightarrow> string) \<Rightarrow> fh_app \<Rightarrow> fh_app" where
  "fh_merge C show_io a =
     (case bindE (engine_merge C) (\<lambda>_. engine_sync) (fa_db a) of
        (Inr _, db) \<Rightarrow> fh_log (ascii ''(background merge + sync completed)'') (a\<lparr>fa_db := db\<rparr>)
      | (Inl err, db) \<Rightarrow>
          fh_log (ascii (''warning: background merge/sync failed: '' @ display show_io err)) (a\<lparr>fa_db := db\<rparr>))"

definition fh_tick :: "'h crc32fast \<Rightarrow> (io_error \<Rightarrow> string) \<Rightarrow> (nat \<Rightarrow> u64) \<Rightarrow> fh_app \<Rightarrow> fh_app" where
  "fh_tick C show_io dur a =
     (let m = engine_collector dur (fst (fa_db a));
          a = a\<lparr>fa_frames := counter_tick (fa_frames a), fa_stored := counter_tick (fa_stored a),
            fa_deleted := counter_tick (fa_deleted a), fa_skipped := counter_tick (fa_skipped a),
            fa_put_latency := latency_tick (put_count m) (put_nanos m) (fa_put_latency a),
            fa_delete_latency := latency_tick (delete_count m) (delete_nanos m) (fa_delete_latency a),
            fa_ticks_since_merge := fa_ticks_since_merge a + 1\<rparr>
      in if fa_ticks_since_merge a \<ge> MERGE_INTERVAL_TICKS
         then fh_merge C show_io (a\<lparr>fa_ticks_since_merge := 0\<rparr>) else a)"

text \<open>A call can block (\<open>None\<close>); the state is kept when a frame fails.\<close>

type_synonym 'a fh_result = "((frame_error + 'a) \<times> fh_app) option"

definition fh_delete :: "'h crc32fast \<Rightarrow> u32 \<Rightarrow> text_str \<Rightarrow> text_str \<Rightarrow> fh_app \<Rightarrow> unit fh_result" where
  "fh_delete C now repo rkey a =
     map_option (\<lambda>(res, db). case res of
         Inl e \<Rightarrow> (Inl (StoreError e), a\<lparr>fa_db := db\<rparr>)
       | Inr _ \<Rightarrow> (Inr (),
           let a = a\<lparr>fa_db := db\<rparr>; a = a\<lparr>fa_deleted := counter_record 1 (fa_deleted a)\<rparr>
           in fh_log (ascii ''['' @ repo @ ascii ''] '' @ rkey @ ascii '': (deleted)'') a))
       (engine_delete C (post_key repo rkey) now (fa_db a))"

definition fh_put :: "'h crc32fast \<Rightarrow> decoders \<Rightarrow> u32 \<Rightarrow> u32 \<Rightarrow> text_str \<Rightarrow> text_str \<Rightarrow> post_record \<Rightarrow> fh_app \<Rightarrow> unit fh_result" where
  "fh_put C D now now' repo rkey r a =
     map_option (\<lambda>(res, db). case res of
         Inl e \<Rightarrow> (Inl (StoreError e), a\<lparr>fa_db := db\<rparr>)
       | Inr _ \<Rightarrow> (Inr (),
           let a = a\<lparr>fa_db := db\<rparr>; a = a\<lparr>fa_stored := counter_record 1 (fa_stored a)\<rparr>
           in fh_log (ascii ''['' @ repo @ ascii ''] '' @ rkey @ ascii '': '' @ truncate_for_display (pr_text r) 140) a))
       (engine_put C (post_key repo rkey) (encode_post (pr_text r) (created_unix D now r)) now' (fa_db a))"

text \<open>\<open>car_blocks\<close> is filled by the first op that needs it.\<close>

definition car_of :: "decoders \<Rightarrow> commit_data \<Rightarrow> (text_str \<times> bytes) list option \<Rightarrow> text_str + (text_str \<times> bytes) list" where
  "car_of D commit car_blocks = (case car_blocks of None \<Rightarrow> de_car D (cm_blocks commit) | Some blocks \<Rightarrow> Inr blocks)"

text \<open>
  One op of a commit: the new \<open>car_blocks\<close>, or the error that ends the frame. \<open>now\<close> and \<open>now'\<close> are what the clock
  says when the date does not parse and at the write.
\<close>

definition fh_op :: "'h crc32fast \<Rightarrow> decoders \<Rightarrow> u32 \<Rightarrow> u32 \<Rightarrow> commit_data \<Rightarrow> repo_op \<Rightarrow> (text_str \<times> bytes) list option \<Rightarrow> fh_app \<Rightarrow>
    ((text_str \<times> bytes) list option) fh_result" where
  "fh_op C D now now' commit op car_blocks a =
     (let rkey = after_last_slash (ro_path op); repo = cm_repo commit
      in if ro_action op = ascii ''delete'' then
           map_option (\<lambda>(res, a). (map_sum (\<lambda>e. e) (\<lambda>_. car_blocks) res, a)) (fh_delete C now' repo rkey a)
         else if ro_action op = ascii ''create'' \<or> ro_action op = ascii ''update'' then
           (case ro_cid op of
              None \<Rightarrow> Some (Inr car_blocks, skip a)
            | Some target \<Rightarrow>
                (case car_of D commit car_blocks of
                   Inl msg \<Rightarrow> Some (Inl (DecodeError msg), a)
                 | Inr blocks \<Rightarrow>
                     (case Option.bind (map_option snd (List.find (\<lambda>(cid, _). cid = target) blocks)) (de_post D) of
                        None \<Rightarrow> Some (Inr (Some blocks), skip a)
                      | Some r \<Rightarrow>
                          map_option (\<lambda>(res, a). (map_sum (\<lambda>e. e) (\<lambda>_. Some blocks) res, a)) (fh_put C D now now' repo rkey r a))))
         else Some (Inr car_blocks, skip a))"

fun fh_ops :: "'h crc32fast \<Rightarrow> decoders \<Rightarrow> (nat \<Rightarrow> u32 \<times> u32) \<Rightarrow> commit_data \<Rightarrow> repo_op list \<Rightarrow>
    (text_str \<times> bytes) list option \<Rightarrow> fh_app \<Rightarrow> unit fh_result" where
  "fh_ops C D clock commit [] car_blocks a = Some (Inr (), a)"
| "fh_ops C D clock commit (op # ops) car_blocks a =
     (case clock (length ops) of (now, now') \<Rightarrow>
        (case fh_op C D now now' commit op car_blocks a of
           None \<Rightarrow> None
         | Some (Inl e, a) \<Rightarrow> Some (Inl e, a)
         | Some (Inr car_blocks, a) \<Rightarrow> fh_ops C D clock commit ops car_blocks a))"

definition post_ops :: "commit_data \<Rightarrow> repo_op list" where
  "post_ops commit = filter (\<lambda>op. starts_with (ro_path op) (POST_COLLECTION @ ascii ''/'')) (cm_ops commit)"

definition handle_frame :: "'h crc32fast \<Rightarrow> decoders \<Rightarrow> (nat \<Rightarrow> u32 \<times> u32) \<Rightarrow> bytes \<Rightarrow> fh_app \<Rightarrow> unit fh_result" where
  "handle_frame C D clock bs a =
     (let a = a\<lparr>fa_frames := counter_record 1 (fa_frames a)\<rparr>
      in case de_header D bs of
           Inl msg \<Rightarrow> Some (Inl (DecodeError msg), a)
         | Inr (header, rest) \<Rightarrow>
             (if fr_op header \<noteq> 1 \<or> fr_t header \<noteq> Some (ascii ''#commit'') then Some (Inr (), skip a)
              else case de_commit D rest of
                Inl msg \<Rightarrow> Some (Inl (DecodeError msg), a)
              | Inr commit \<Rightarrow>
                  (if post_ops commit = [] then Some (Inr (), skip a)
                   else fh_ops C D clock commit (post_ops commit) None a)))"

text \<open>What the main loop does with a binary message: a frame that fails is logged and skipped.\<close>

definition on_message :: "'h crc32fast \<Rightarrow> (io_error \<Rightarrow> string) \<Rightarrow> decoders \<Rightarrow> (nat \<Rightarrow> u32 \<times> u32) \<Rightarrow> bytes \<Rightarrow> fh_app \<Rightarrow> fh_app option" where
  "on_message C show_io D clock bs a =
     map_option (\<lambda>(res, a). case res of
         Inr _ \<Rightarrow> a
       | Inl err \<Rightarrow> fh_log (ascii ''warning: skipping one frame: '' @
           (case err of StoreError e \<Rightarrow> ascii (display show_io e) | DecodeError msg \<Rightarrow> msg)) a)
       (handle_frame C D clock bs a)"

text \<open>
  What the main loop waits for: the interval's tick (with what drawing the screen gives), an event of the
  terminal, or a message of the stream. \<open>OtherEvent\<close> and \<open>OtherMessage\<close> are those it ignores.
\<close>

datatype fh_event =
    Tick "text_str + unit"
  | KeyPressed nat
  | EscPressed
  | OtherEvent
  | EventsClosed
  | EventsFailed text_str
  | BinaryMessage "nat \<Rightarrow> u32 \<times> u32" bytes
  | OtherMessage
  | StreamFailed text_str
  | StreamClosed

text \<open>One round of the loop: the value it breaks with, if it does.\<close>

fun fh_round :: "'h crc32fast \<Rightarrow> (io_error \<Rightarrow> string) \<Rightarrow> (nat \<Rightarrow> u64) \<Rightarrow> decoders \<Rightarrow> fh_event \<Rightarrow> fh_app \<Rightarrow>
    ((text_str + unit) option \<times> fh_app) option" where
  "fh_round C show_io dur D (Tick drawn) a =
     Some (case drawn of Inl err \<Rightarrow> Some (Inl err) | Inr _ \<Rightarrow> None, fh_tick C show_io dur a)"
| "fh_round C show_io dur D (KeyPressed c) a = Some (if c = 113 then Some (Inr ()) else None, a)"
| "fh_round C show_io dur D EscPressed a = Some (Some (Inr ()), a)"
| "fh_round C show_io dur D OtherEvent a = Some (None, a)"
| "fh_round C show_io dur D EventsClosed a = Some (Some (Inr ()), a)"
| "fh_round C show_io dur D (EventsFailed err) a = Some (Some (Inl err), a)"
| "fh_round C show_io dur D (BinaryMessage clock bs) a = map_option (Pair None) (on_message C show_io D clock bs a)"
| "fh_round C show_io dur D OtherMessage a = Some (None, a)"
| "fh_round C show_io dur D (StreamFailed err) a = Some (Some (Inl err), a)"
| "fh_round C show_io dur D StreamClosed a = Some (Some (Inr ()), a)"

text \<open>The loop over the events of a run: \<open>None\<close> when it still waits after the last of them.\<close>

fun fh_loop :: "'h crc32fast \<Rightarrow> (io_error \<Rightarrow> string) \<Rightarrow> (nat \<Rightarrow> u64) \<Rightarrow> decoders \<Rightarrow> fh_event list \<Rightarrow> fh_app \<Rightarrow>
    ((text_str + unit) option \<times> fh_app) option" where
  "fh_loop C show_io dur D [] a = Some (None, a)"
| "fh_loop C show_io dur D (ev # evs) a =
     (case fh_round C show_io dur D ev a of
        None \<Rightarrow> None
      | Some (Some res, a) \<Rightarrow> Some (Some res, a)
      | Some (None, a) \<Rightarrow> fh_loop C show_io dur D evs a)"

text \<open>After the loop: the store is closed, and its error comes before the loop's result.\<close>

definition fh_finish :: "(io_error \<Rightarrow> string) \<Rightarrow> text_str + unit \<Rightarrow> fh_app \<Rightarrow> (text_str + unit) \<times> world" where
  "fh_finish show_io result a =
     (case engine_close (fa_db a) of
        (Inl e, w) \<Rightarrow> (Inl (ascii (display show_io e)), w)
      | (Inr _, w) \<Rightarrow> (result, w))"


section \<open>A counter shows the last two minutes\<close>

datatype counter_event = Recorded_n u64 | Ticked

fun counter_step :: "counter_event \<Rightarrow> counter \<Rightarrow> counter" where
  "counter_step (Recorded_n n) = counter_record n"
| "counter_step Ticked = counter_tick"

text \<open>The sums of the seconds that are over, and of the current one.\<close>

fun seconds :: "u64 \<Rightarrow> counter_event list \<Rightarrow> u64 list \<times> u64" where
  "seconds acc [] = ([], acc)"
| "seconds acc (Recorded_n n # evs) = seconds (acc + n) evs"
| "seconds acc (Ticked # evs) = (case seconds 0 evs of (sums, rest) \<Rightarrow> (acc # sums, rest))"

definition last_n :: "nat \<Rightarrow> 'a list \<Rightarrow> 'a list" where
  "last_n n xs = drop (length xs - n) xs"

lemma push_last_n: "0 < n \<Longrightarrow> push_bounded n x (last_n n ys) = last_n n (ys @ [x])"
  by (cases "n \<le> length ys") (auto simp: push_bounded_def last_n_def tl_drop Suc_diff_le drop_Suc)

lemma counter_run:
  assumes "ct_history ct = last_n HISTORY_LEN past" and "seconds (ct_this_tick ct) evs = (sums, rest)"
  shows "ct_history (fold counter_step evs ct) = last_n HISTORY_LEN (past @ sums) \<and>
    ct_this_tick (fold counter_step evs ct) = rest \<and>
    ct_total (fold counter_step evs ct) + ct_this_tick ct = ct_total ct + sum_list sums + rest"
  using assms
proof (induction evs arbitrary: ct past sums)
  case (Cons ev evs)
  show ?case
  proof (cases ev)
    case (Recorded_n n)
    then show ?thesis using Cons.IH [of "counter_record n ct" past sums] Cons.prems
      by (simp add: counter_record_def algebra_simps)
  next
    case Ticked
    obtain sums' where s: "seconds 0 evs = (sums', rest)" "sums = ct_this_tick ct # sums'"
      using Cons.prems(2) Ticked by (auto split: prod.splits)
    have h: "ct_history (counter_tick ct) = last_n HISTORY_LEN (past @ [ct_this_tick ct])"
      using Cons.prems(1) push_last_n [of HISTORY_LEN] by (simp add: counter_tick_def HISTORY_LEN_def)
    have t: "ct_this_tick (counter_tick ct) = 0" "ct_total (counter_tick ct) = ct_total ct" by (simp_all add: counter_tick_def)
    show ?thesis using Cons.IH [OF h, of sums'] s t Ticked by (simp add: algebra_simps)
  qed
qed simp

text \<open>
  Whatever is recorded and however the seconds pass, the history of a counter is the sums of the last 120
  completed seconds, and its total is everything that was ever recorded.
\<close>

theorem counter_shows_last_seconds:
  "case seconds 0 evs of (sums, rest) \<Rightarrow>
     let ct = fold counter_step evs (counter_new l) in
     ct_history ct = last_n HISTORY_LEN sums \<and> ct_this_tick ct = rest \<and> ct_total ct = sum_list sums + rest \<and>
     last_rate ct = (if sums = [] then 0 else last sums)"
proof -
  obtain sums rest where s: "seconds 0 evs = (sums, rest)" by fastforce
  have "ct_history (fold counter_step evs (counter_new l)) = last_n HISTORY_LEN ([] @ sums) \<and>
    ct_this_tick (fold counter_step evs (counter_new l)) = rest \<and>
    ct_total (fold counter_step evs (counter_new l)) + ct_this_tick (counter_new l) = ct_total (counter_new l) + sum_list sums + rest"
    by (rule counter_run) (simp_all add: counter_new_def last_n_def s)
  moreover have "last_n HISTORY_LEN sums = [] \<longleftrightarrow> sums = []" "sums \<noteq> [] \<Longrightarrow> last (last_n HISTORY_LEN sums) = last sums"
    by (cases sums; simp add: last_n_def HISTORY_LEN_def)+
  ultimately show ?thesis by (simp add: s last_rate_def counter_new_def Let_def)
qed


section \<open>What is bounded\<close>

definition fh_bounded :: "fh_app \<Rightarrow> bool" where
  "fh_bounded a \<longleftrightarrow> length (fa_log a) \<le> LOG_LEN \<and> fa_ticks_since_merge a < MERGE_INTERVAL_TICKS \<and>
     (\<forall>ct \<in> {fa_frames a, fa_stored a, fa_deleted a, fa_skipped a}. length (ct_history ct) \<le> HISTORY_LEN) \<and>
     (\<forall>lm \<in> {fa_put_latency a, fa_delete_latency a}. length (lm_history lm) \<le> HISTORY_LEN)"

lemma length_push_bounded: "0 < cap \<Longrightarrow> length xs \<le> cap \<Longrightarrow> length (push_bounded cap x xs) \<le> cap"
  by (auto simp: push_bounded_def)

lemma bounded_simps [simp]:
  "length (ct_history (counter_record n ct)) = length (ct_history ct)"
  "fh_bounded (a\<lparr>fa_db := db\<rparr>) = fh_bounded a" "fh_bounded (a\<lparr>fa_frames := counter_record n (fa_frames a)\<rparr>) = fh_bounded a"
  "fh_bounded (a\<lparr>fa_db := db, fa_stored := counter_record n (fa_stored a)\<rparr>) = fh_bounded a"
  "fh_bounded (a\<lparr>fa_db := db, fa_deleted := counter_record n (fa_deleted a)\<rparr>) = fh_bounded a"
  "fh_bounded (skip a) = fh_bounded a"
  by (auto simp: fh_bounded_def counter_record_def skip_def)

lemma fh_log_bounded [simp]: "fh_bounded a \<Longrightarrow> fh_bounded (fh_log line a)"
  using length_push_bounded [of LOG_LEN "fa_log a" line] by (simp add: fh_bounded_def fh_log_def LOG_LEN_def)

lemma fh_delete_bounded: "fh_delete C now repo rkey a = Some (r, a') \<Longrightarrow> fh_bounded a \<Longrightarrow> fh_bounded a'"
proof -
  assume d: "fh_delete C now repo rkey a = Some (r, a')" and b: "fh_bounded a"
  then obtain res db where "engine_delete C (post_key repo rkey) now (fa_db a) = Some (res, db)"
    by (auto simp: fh_delete_def)
  then show ?thesis using d b by (cases res) (auto simp: fh_delete_def Let_def)
qed

lemma fh_put_bounded: "fh_put C D now now' repo rkey p a = Some (r, a') \<Longrightarrow> fh_bounded a \<Longrightarrow> fh_bounded a'"
proof -
  assume d: "fh_put C D now now' repo rkey p a = Some (r, a')" and b: "fh_bounded a"
  then obtain res db where "engine_put C (post_key repo rkey) (encode_post (pr_text p) (created_unix D now p)) now' (fa_db a) = Some (res, db)"
    by (auto simp: fh_put_def)
  then show ?thesis using d b by (cases res) (auto simp: fh_put_def Let_def)
qed

lemma fh_op_bounded: "fh_op C D now now' commit op cb a = Some (r, a') \<Longrightarrow> fh_bounded a \<Longrightarrow> fh_bounded a'"
  by (auto simp: fh_op_def Let_def intro: fh_delete_bounded fh_put_bounded split: if_splits option.splits sum.splits)

lemma fh_ops_bounded: "fh_ops C D clock commit ops cb a = Some (r, a') \<Longrightarrow> fh_bounded a \<Longrightarrow> fh_bounded a'"
proof (induction ops arbitrary: cb a)
  case (Cons op ops)
  obtain now now' where c: "clock (length ops) = (now, now')" by fastforce
  show ?case
  proof (cases "fh_op C D now now' commit op cb a")
    case None
    then show ?thesis using Cons.prems c by simp
  next
    case (Some y)
    obtain r1 a1 where y: "y = (r1, a1)" by fastforce
    have "fh_bounded a1" using fh_op_bounded [OF Some [unfolded y]] Cons.prems(2) .
    then show ?thesis using Cons c Some y by (cases r1) auto
  qed
qed simp

lemma handle_frame_bounded:
  "handle_frame C D clock bs a = Some (r, a') \<Longrightarrow> fh_bounded a \<Longrightarrow> fh_bounded a'"
  by (auto simp: handle_frame_def Let_def split: sum.splits prod.splits if_splits dest!: fh_ops_bounded)

lemma fh_merge_bounded: "fh_bounded a \<Longrightarrow> fh_bounded (fh_merge C show_io a)"
  by (auto simp: fh_merge_def split: prod.splits sum.splits)

lemma fh_tick_bounded:
  assumes "fh_bounded a"
  shows "fh_bounded (fh_tick C show_io dur a)"
proof -
  let ?m = "engine_collector dur (fst (fa_db a))"
  let ?a = "a\<lparr>fa_frames := counter_tick (fa_frames a), fa_stored := counter_tick (fa_stored a),
            fa_deleted := counter_tick (fa_deleted a), fa_skipped := counter_tick (fa_skipped a),
            fa_put_latency := latency_tick (put_count ?m) (put_nanos ?m) (fa_put_latency a),
            fa_delete_latency := latency_tick (delete_count ?m) (delete_nanos ?m) (fa_delete_latency a)\<rparr>"
  have "fh_bounded (?a\<lparr>fa_ticks_since_merge := n\<rparr>)" if "n < MERGE_INTERVAL_TICKS" for n
    using assms that
    by (auto simp: fh_bounded_def counter_tick_def latency_tick_def Let_def HISTORY_LEN_def intro: length_push_bounded)
  moreover have "(0 :: u32) < MERGE_INTERVAL_TICKS" by (simp add: MERGE_INTERVAL_TICKS_def)
  ultimately show ?thesis
    by (auto simp: fh_tick_def Let_def not_le intro: fh_merge_bounded)
qed

lemma on_message_bounded:
  assumes "on_message C show_io D clock bs a = Some a'" and "fh_bounded a"
  shows "fh_bounded a'"
proof -
  obtain res b where h: "handle_frame C D clock bs a = Some (res, b)" using assms(1) by (auto simp: on_message_def)
  have "fh_bounded b" by (rule handle_frame_bounded [OF h assms(2)])
  then show ?thesis using assms(1) h by (cases res) (auto simp: on_message_def)
qed

lemma fh_round_bounded: "fh_round C show_io dur D ev a = Some (res, a') \<Longrightarrow> fh_bounded a \<Longrightarrow> fh_bounded a'"
  by (cases ev) (auto intro: fh_tick_bounded on_message_bounded)

lemma fh_loop_bounded: "fh_loop C show_io dur D evs a = Some (res, a') \<Longrightarrow> fh_bounded a \<Longrightarrow> fh_bounded a'"
  by (induction evs arbitrary: a) (auto split: option.splits dest: fh_round_bounded)

definition demo_decoders :: decoders where
  "demo_decoders =
     \<lparr>de_header = (\<lambda>bs. Inr (\<lparr>fr_op = 1, fr_t = Some (ascii ''#commit'')\<rparr>, bs)),
      de_commit = (\<lambda>bs. Inr \<lparr>cm_repo = ascii ''did'', cm_ops = [\<lparr>ro_path = POST_COLLECTION @ ascii ''/k'',
        ro_action = ascii ''create'', ro_cid = Some [99]\<rparr>], cm_blocks = bs\<rparr>),
      de_car = (\<lambda>bs. Inr [([99], bs)]),
      de_post = (\<lambda>bs. Some \<lparr>pr_text = map unat bs, pr_created_at = []\<rparr>),
      de_date = (\<lambda>_. Some (- 1))\<rparr>"

lemma fh_bounded_new: "fh_bounded (fh_new db)"
  by (simp add: fh_bounded_def fh_new_def counter_new_def latency_new_def MERGE_INTERVAL_TICKS_def)

section \<open>What a frame does to the store\<close>

text \<open>The post an op brings, given the blocks of its commit.\<close>

definition op_post :: "decoders \<Rightarrow> (text_str \<times> bytes) list \<Rightarrow> repo_op \<Rightarrow> post_record option" where
  "op_post D blocks op =
     (if ro_action op = ascii ''create'' \<or> ro_action op = ascii ''update''
      then Option.bind (ro_cid op) (\<lambda>target.
        Option.bind (map_option snd (List.find (\<lambda>(cid, _). cid = target) blocks)) (de_post D))
      else None)"

definition op_key :: "commit_data \<Rightarrow> repo_op \<Rightarrow> bytes" where
  "op_key commit op = post_key (cm_repo commit) (after_last_slash (ro_path op))"

fun op_effect :: "decoders \<Rightarrow> (text_str \<times> bytes) list \<Rightarrow> commit_data \<Rightarrow> u32 \<Rightarrow> repo_op \<Rightarrow> kv \<Rightarrow> kv" where
  "op_effect D blocks commit now op m =
     (if ro_action op = ascii ''delete'' then m(op_key commit op := None)
      else case op_post D blocks op of
        Some r \<Rightarrow> m(op_key commit op \<mapsto> encode_post (pr_text r) (created_unix D now r))
      | None \<Rightarrow> m)"

declare op_effect.simps [simp del]

fun ops_effect :: "decoders \<Rightarrow> (text_str \<times> bytes) list \<Rightarrow> commit_data \<Rightarrow> (nat \<Rightarrow> u32 \<times> u32) \<Rightarrow> repo_op list \<Rightarrow> kv \<Rightarrow> kv" where
  "ops_effect D blocks commit clock [] m = m"
| "ops_effect D blocks commit clock (op # ops) m =
     ops_effect D blocks commit clock ops (op_effect D blocks commit (fst (clock (length ops))) op m)"

definition op_sizes_ok :: "decoders \<Rightarrow> (text_str \<times> bytes) list \<Rightarrow> commit_data \<Rightarrow> repo_op \<Rightarrow> bool" where
  "op_sizes_ok D blocks commit op \<longleftrightarrow> length (op_key commit op) < 2 ^ 31 \<and>
     (\<forall>r. op_post D blocks op = Some r \<longrightarrow> length (as_bytes (pr_text r)) + 4 < 2 ^ 32)"

text \<open>Ops that were stored, deleted or skipped.\<close>

definition fh_handled :: "fh_app \<Rightarrow> u64" where
  "fh_handled a = ct_total (fa_stored a) + ct_total (fa_deleted a) + ct_total (fa_skipped a)"

lemma handled_simps [simp]:
  "fh_handled (skip a) = fh_handled a + 1" "fh_handled (fh_log line a) = fh_handled a"
  "fh_handled (a\<lparr>fa_db := db, fa_stored := counter_record 1 (fa_stored a)\<rparr>) = fh_handled a + 1"
  "fh_handled (a\<lparr>fa_db := db, fa_deleted := counter_record 1 (fa_deleted a)\<rparr>) = fh_handled a + 1"
  "fh_handled (a\<lparr>fa_frames := ct\<rparr>) = fh_handled a"
  "fa_db (skip a) = fa_db a" "fa_db (fh_log line a) = fa_db a"
  "ct_total (fa_frames (skip a)) = ct_total (fa_frames a)" "fa_frames (fh_log line a) = fa_frames a"
  by (simp_all add: fh_handled_def skip_def fh_log_def counter_record_def)

lemma as_bytes_append: "as_bytes (s @ t) = as_bytes s @ as_bytes t"
  by (simp add: as_bytes_def)

lemma op_key_valid: "length (op_key commit op) < 2 ^ 31 \<Longrightarrow> valid_key (op_key commit op)"
  by (simp add: op_key_def valid_key_def post_key_def as_bytes_append ascii_def as_bytes_def char_bytes_def)

lemma actions_differ: "ascii ''delete'' \<noteq> ascii ''create''" "ascii ''delete'' \<noteq> ascii ''update''"
  by (simp_all add: ascii_def)

lemma fh_op_ok:
  assumes r: "engine_rep C opts (Suc n) (fa_db a) m" and car: "de_car D (cm_blocks commit) = Inr blocks"
    and cb: "cb = None \<or> cb = Some blocks" and sz: "op_sizes_ok D blocks commit op"
  obtains cb' a' where "fh_op C D now now' commit op cb a = Some (Inr cb', a')" and "cb' = None \<or> cb' = Some blocks"
    and "engine_rep C opts n (fa_db a') (op_effect D blocks commit now op m)" and "fh_handled a' = fh_handled a + 1"
    and "fa_frames a' = fa_frames a"
proof -
  note found = that
  have k: "valid_key (op_key commit op)" using sz op_key_valid by (simp add: op_sizes_ok_def)
  have c: "car_of D commit cb = Inr blocks" using car cb by (auto simp: car_of_def)
  have skipped: thesis if "fh_op C D now now' commit op cb a = Some (Inr cb', skip a)" "cb' = None \<or> cb' = Some blocks"
    "op_effect D blocks commit now op m = m" for cb'
    using that(1,2) by (rule found) (use r engine_rep_weaken [of C opts "Suc n" "fa_db a" m n] that(3) in \<open>simp_all add: skip_def fh_handled_def counter_record_def\<close>)
  show thesis
  proof (cases "ro_action op = ascii ''delete''")
    case True
    obtain db where d: "engine_delete C (op_key commit op) now' (fa_db a) = Some (Inr (), db)"
      and r': "engine_rep C opts n db (m(op_key commit op := None))"
      using delete_refines [OF r k] by blast
    let ?a = "fh_log (ascii ''['' @ cm_repo commit @ ascii ''] '' @ after_last_slash (ro_path op) @ ascii '': (deleted)'')
        (a\<lparr>fa_db := db, fa_deleted := counter_record 1 (fa_deleted a)\<rparr>)"
    have "fh_op C D now now' commit op cb a = Some (Inr cb, ?a)"
      using True d by (simp add: fh_op_def fh_delete_def op_key_def Let_def)
    then show thesis by (rule found) (use cb r' True in \<open>simp_all add: op_effect.simps\<close>)
  next
    case nodel: False
    show thesis
    proof (cases "op_post D blocks op")
      case None
      show thesis
        by (rule skipped [of "if (ro_action op = ascii ''create'' \<or> ro_action op = ascii ''update'') \<and> ro_cid op \<noteq> None
            then Some blocks else cb"])
          (use None nodel c cb in \<open>auto simp: fh_op_def op_post_def op_effect.simps Let_def split: option.splits\<close>)
    next
      case (Some p)
      then have act: "ro_action op = ascii ''create'' \<or> ro_action op = ascii ''update''"
        by (auto simp: op_post_def split: if_splits)
      have "sizes_ok (op_key commit op) (encode_post (pr_text p) (created_unix D now p))"
        using sz Some by (simp add: op_sizes_ok_def sizes_ok_def encode_post_def)
      then obtain db where d: "engine_put C (op_key commit op) (encode_post (pr_text p) (created_unix D now p)) now' (fa_db a) = Some (Inr (), db)"
        and r': "engine_rep C opts n db (m(op_key commit op \<mapsto> encode_post (pr_text p) (created_unix D now p)))"
        using put_refines [OF r k] by blast
      obtain target where t: "ro_cid op = Some target"
        "Option.bind (map_option snd (List.find (\<lambda>(cid, _). cid = target) blocks)) (de_post D) = Some p"
        using Some act by (auto simp: op_post_def bind_eq_Some_conv)
      let ?a = "fh_log (ascii ''['' @ cm_repo commit @ ascii ''] '' @ after_last_slash (ro_path op) @ ascii '': '' @
          truncate_for_display (pr_text p) 140) (a\<lparr>fa_db := db, fa_stored := counter_record 1 (fa_stored a)\<rparr>)"
      have "fh_op C D now now' commit op cb a = Some (Inr (Some blocks), ?a)"
        using nodel act d t c by (simp add: fh_op_def fh_put_def op_key_def Let_def)
      then show thesis by (rule found) (use nodel Some r' in \<open>simp_all add: op_effect.simps\<close>)
    qed
  qed
qed


lemma fh_ops_ok:
  assumes "engine_rep C opts (n + length ops) (fa_db a) m" and "de_car D (cm_blocks commit) = Inr blocks"
    and "cb = None \<or> cb = Some blocks" and "list_all (op_sizes_ok D blocks commit) ops"
  shows "\<exists>a'. fh_ops C D clock commit ops cb a = Some (Inr (), a') \<and>
    engine_rep C opts n (fa_db a') (ops_effect D blocks commit clock ops m) \<and>
    fh_handled a' = fh_handled a + of_nat (length ops) \<and> fa_frames a' = fa_frames a"
  using assms
proof (induction ops arbitrary: a m cb)
  case (Cons op ops)
  obtain now now' where c: "clock (length ops) = (now, now')" by fastforce
  have r: "engine_rep C opts (Suc (n + length ops)) (fa_db a) m" using Cons.prems(1) by simp
  have sz: "op_sizes_ok D blocks commit op" "list_all (op_sizes_ok D blocks commit) ops" using Cons.prems(4) by simp_all
  obtain cb' a1 where o: "fh_op C D now now' commit op cb a = Some (Inr cb', a1)" and cb': "cb' = None \<or> cb' = Some blocks"
    and r1: "engine_rep C opts (n + length ops) (fa_db a1) (op_effect D blocks commit now op m)"
    and h: "fh_handled a1 = fh_handled a + 1" "fa_frames a1 = fa_frames a"
    by (rule fh_op_ok [OF r Cons.prems(2,3) sz(1)])
  show ?case using Cons.IH [OF r1 Cons.prems(2) cb' sz(2)] c o h by (simp add: algebra_simps)
qed simp

text \<open>
  C34: A frame with posts does to the store exactly what its ops say, in their order (a create or update stores
  the post of its block, a delete removes it, anything else changes nothing), and every op is counted once, as
  stored, deleted or skipped.
\<close>

theorem frame_effect:
  assumes "engine_rep C opts (n + length (post_ops commit)) (fa_db a) m"
    and "de_header D bs = Inr (\<lparr>fr_op = 1, fr_t = Some (ascii ''#commit'')\<rparr>, rest)" and "de_commit D rest = Inr commit"
    and "de_car D (cm_blocks commit) = Inr blocks" and "post_ops commit \<noteq> []"
    and "list_all (op_sizes_ok D blocks commit) (post_ops commit)"
  shows "\<exists>a'. handle_frame C D clock bs a = Some (Inr (), a') \<and>
    engine_rep C opts n (fa_db a') (ops_effect D blocks commit clock (post_ops commit) m) \<and>
    fh_handled a' = fh_handled a + of_nat (length (post_ops commit)) \<and>
    ct_total (fa_frames a') = ct_total (fa_frames a) + 1"
proof -
  let ?a = "a\<lparr>fa_frames := counter_record 1 (fa_frames a)\<rparr>"
  have "engine_rep C opts (n + length (post_ops commit)) (fa_db ?a) m" using assms(1) by simp
  from fh_ops_ok [OF this assms(4) _ assms(6), of None clock] show ?thesis
    using assms(2,3,5) by (auto simp: handle_frame_def counter_record_def)
qed

text \<open>A frame of one new post, whose record is its block.\<close>

lemma demo_frame:
  "post_ops \<lparr>cm_repo = ascii ''did'', cm_ops = [\<lparr>ro_path = POST_COLLECTION @ ascii ''/k'', ro_action = ascii ''create'',
     ro_cid = Some [99]\<rparr>], cm_blocks = bs\<rparr> =
   [\<lparr>ro_path = POST_COLLECTION @ ascii ''/k'', ro_action = ascii ''create'', ro_cid = Some [99]\<rparr>]"
  by (simp add: post_ops_def starts_with_def ascii_def)

lemma frame_effect_witness:
  "\<exists>a'. handle_frame byte_sum demo_decoders (\<lambda>_. (7, 7)) [104, 105] (fh_new demo_db) = Some (Inr (), a') \<and>
    engine_rep byte_sum sync_options 3 (fa_db a') [map of_nat [100, 105, 100, 47, 107] \<mapsto> [0, 0, 0, 0, 104, 105]] \<and>
    fh_handled a' = 1 \<and> ct_total (fa_frames a') = 1"
proof -
  let ?op = "\<lparr>ro_path = POST_COLLECTION @ ascii ''/k'', ro_action = ascii ''create'', ro_cid = Some [99]\<rparr>"
  let ?commit = "\<lparr>cm_repo = ascii ''did'', cm_ops = [?op], cm_blocks = [104, 105]\<rparr>"
  have d: "de_header demo_decoders [104, 105] = Inr (\<lparr>fr_op = 1, fr_t = Some (ascii ''#commit'')\<rparr>, [104, 105])"
    "de_commit demo_decoders [104, 105] = Inr ?commit" "de_car demo_decoders (cm_blocks ?commit) = Inr [([99], [104, 105])]"
    by (simp_all add: demo_decoders_def)
  have k: "op_key ?commit ?op = map of_nat [100, 105, 100, 47, 107]"
    by (simp add: op_key_def post_key_def after_last_slash_def POST_COLLECTION_def ascii_def as_bytes_def char_bytes_def)
  have p: "op_post demo_decoders [([99], [104, 105])] ?op = Some \<lparr>pr_text = [104, 105], pr_created_at = []\<rparr>"
    by (simp add: op_post_def demo_decoders_def)
  have r: "engine_rep byte_sum sync_options (3 + length (post_ops ?commit)) (fa_db (fh_new demo_db)) Map.empty"
    using demo_rep(1) [of 4] by (simp add: demo_frame fh_new_def)
  have sz: "list_all (op_sizes_ok demo_decoders [([99], [104, 105])] ?commit) (post_ops ?commit)"
    using k p by (simp add: demo_frame op_sizes_ok_def as_bytes_def char_bytes_def)
  have ne: "post_ops ?commit \<noteq> []" by (simp add: demo_frame)
  have date: "de_date demo_decoders t = Some (- 1)" for t by (simp add: demo_decoders_def)
  have zero: "encode_post [104, 105] 0 = [0, 0, 0, 0, 104, 105]"
    by (simp add: encode_post_def le32_def as_bytes_def char_bytes_def eval_nat_numeral)
  have en: "encode_post [104, 105] (created_unix demo_decoders now \<lparr>pr_text = [104, 105], pr_created_at = []\<rparr>) =
      [0, 0, 0, 0, 104, 105]" for now
    by (simp add: created_unix_def date zero)
  have e: "ops_effect demo_decoders [([99], [104, 105])] ?commit (\<lambda>_. (7, 7)) (post_ops ?commit) Map.empty =
      [map of_nat [100, 105, 100, 47, 107] \<mapsto> [0, 0, 0, 0, 104, 105]]"
    using p k en by (simp add: demo_frame op_effect.simps) (simp add: ascii_def)
  show ?thesis
    using frame_effect [OF r d(1,2,3) ne sz, of "\<lambda>_. (7, 7)"] e
    by (simp add: demo_frame fh_handled_def fh_new_def counter_new_def)
qed

end
