(* ===== verification/FirehoseDraw.thy ===== *)
theory FirehoseDraw
  imports Firehose
begin

text \<open>
  \<open>examples/bsky_firehose.rs\<close>: what the dashboard shows, as texts and chart data. Layout, borders and colours are \<open>ratatui\<close>'s. The
  height of the log area and the uptime are arguments.
\<close>

record dashboard =
  dd_header :: text_str
  dd_totals :: text_str
  dd_charts :: "(text_str \<times> u64 list) list"
  dd_engine_totals :: text_str
  dd_merge_activity :: text_str
  dd_engine_charts :: "(text_str \<times> u64 list) list"
  dd_log :: "text_str list"
  dd_footer :: text_str

definition num_text :: "u64 \<Rightarrow> text_str" where
  "num_text n = ascii (decimal (unat n))"

text \<open>\<open>U+2014\<close> is the dash, \<open>U+00B5\<close> the micro sign.\<close>

definition header_line :: "u64 \<Rightarrow> text_str" where
  "header_line uptime = ascii ''yabiir bsky firehose '' @ [0x2014] @ ascii '' connected '' @ [0x2014] @ ascii '' uptime '' @
     num_text uptime @ ascii ''s''"

definition totals_line :: "fh_app \<Rightarrow> text_str" where
  "totals_line a = ascii ''stored: '' @ num_text (ct_total (fa_stored a)) @ ascii ''   deleted: '' @ num_text (ct_total (fa_deleted a)) @
     ascii ''   frames: '' @ num_text (ct_total (fa_frames a)) @ ascii ''   skipped: '' @ num_text (ct_total (fa_skipped a))"

definition counter_chart :: "counter \<Rightarrow> text_str \<times> u64 list" where
  "counter_chart ct = (ct_label ct @ ascii '' ('' @ num_text (last_rate ct) @ ascii ''/s)'', ct_history ct)"

definition latency_chart :: "latency \<Rightarrow> text_str \<times> u64 list" where
  "latency_chart lm = (lm_label lm @ ascii '' ('' @ num_text (last_rate_us lm) @ [0xB5] @ ascii ''s avg)'',
     map (\<lambda>ns. ns div 1000) (lm_history lm))"

definition engine_line :: "collector \<Rightarrow> fh_app \<Rightarrow> text_str" where
  "engine_line c a =
     (let (merges, merge_avg_ns) = collector_snapshot (merge_count c) (merge_nanos c);
          (syncs, sync_avg_ns) = collector_snapshot (sync_count c) (sync_nanos c);
          (gets, get_avg_ns) = collector_snapshot (get_count c) (get_nanos c)
      in ascii ''engine: puts avg '' @ num_text (last_rate_us (fa_put_latency a)) @ [0xB5] @ ascii ''s   deletes avg '' @
         num_text (last_rate_us (fa_delete_latency a)) @ [0xB5] @ ascii ''s   gets: '' @ num_text gets @ ascii '' (avg '' @
         num_text (get_avg_ns div 1000) @ [0xB5] @ ascii ''s)   merges: '' @ num_text merges @ ascii '' (avg '' @
         num_text (merge_avg_ns div 1000000) @ ascii ''ms)   syncs: '' @ num_text syncs @ ascii '' (avg '' @
         num_text (sync_avg_ns div 1000000) @ ascii ''ms)'')"

definition merge_line :: "collector \<Rightarrow> text_str" where
  "merge_line c = ascii ''merge activity: batches '' @ num_text (merge_batches c) @ ascii ''   max pending-queue depth '' @
     num_text (max_pending_queue_depth c) @ ascii ''   last pass: '' @ num_text (last_merge_input_files c) @
     ascii '' input file(s), '' @ num_text (last_merge_live_entries c) @ ascii '' live entries copied''"

definition fh_draw :: "(nat \<Rightarrow> u64) \<Rightarrow> u64 \<Rightarrow> nat \<Rightarrow> fh_app \<Rightarrow> dashboard" where
  "fh_draw dur uptime height a =
     (let c = engine_collector dur (fst (fa_db a))
      in \<lparr>dd_header = header_line uptime, dd_totals = totals_line a,
          dd_charts = map counter_chart [fa_frames a, fa_stored a, fa_deleted a, fa_skipped a],
          dd_engine_totals = engine_line c a, dd_merge_activity = merge_line c,
          dd_engine_charts = map latency_chart [fa_put_latency a, fa_delete_latency a],
          dd_log = take height (rev (fa_log a)), dd_footer = ascii ''q/Esc to quit''\<rparr>)"

text \<open>
  C35: However long the consumer runs and whatever arrives or fails, what the dashboard keeps and draws is bounded: at most 200 lines of
  log and 120 points in each of the six charts; the log is drawn newest line first.
\<close>

theorem dashboard_stays_bounded:
  assumes "fh_loop C show_io dur D evs (fh_new db) = Some (res, a)"
  shows "list_all (\<lambda>(title, points). length points \<le> 120)
      (dd_charts (fh_draw dur uptime height a) @ dd_engine_charts (fh_draw dur uptime height a)) \<and>
    length (fa_log a) \<le> 200 \<and>
    (\<forall>i < length (dd_log (fh_draw dur uptime height a)).
       dd_log (fh_draw dur uptime height a) ! i = fa_log a ! (length (fa_log a) - Suc i))"
  using fh_loop_bounded [OF assms fh_bounded_new]
  by (auto simp: fh_draw_def counter_chart_def latency_chart_def Let_def fh_bounded_def LOG_LEN_def HISTORY_LEN_def
      rev_nth)

lemma dashboard_stays_bounded_witness:
  "\<exists>a. fh_loop byte_sum (\<lambda>_. ''io'') (\<lambda>i. of_nat i) demo_decoders [Tick (Inr ()), KeyPressed 113] (fh_new demo_db) = Some (Some (Inr ()), a) \<and>
     length (fa_log a) \<le> 200"
  using dashboard_stays_bounded [of byte_sum "\<lambda>_. ''io''" "\<lambda>i. of_nat i" demo_decoders "[Tick (Inr ()), KeyPressed 113]" demo_db] by simp

end
