(* ===== verification/Spec2Isabelle.thy ===== *)
theory Spec2Isabelle
  imports SharedKeydir CommitSteps MergeFaults MergeGet BasicUsage LoadRun TodoRun FirehoseDraw
begin

text \<open>
  Verification of yabiir, a Bitcask key-value store in Rust: an append-only log of data files, an index in memory
  that maps every key to the place of its newest value, and a merge that rewrites the live entries of old files.

  \<^bold>\<open>How the program works, and which theory models what.\<close>

  \<^item> \<open>Prelude\<close>: machine integers as words (\<open>u8\<close>, \<open>u32\<close>, \<open>u64\<close>), byte strings, little-endian encoding, and the type
    \<open>('s, 'e, 'a) act\<close> of fallible computations on a state, a function from a state to \<open>'e + 'a\<close> and the next state:
    a Rust method with \<open>&mut self\<close> that returns a \<open>Result\<close>; \<open>bindE\<close> is the question mark.
  \<^item> \<open>OsModel\<close>: what the crate uses of \<open>std::fs\<close>, \<open>std::io\<close> and the operating system. A \<open>world\<close> is a directory of names
    bound to inodes, the inodes with their bytes and how many of them have been synced, the locks, the warnings
    printed, and \<open>w_outs\<close>, the outcomes the next system calls will have: a call may fail or transfer fewer bytes than
    asked for. When \<open>w_outs\<close> is used up, calls succeed. \<open>BufWriter\<close> is a buffer over an inode.
  \<^item> \<open>Format\<close> (\<open>src/format/mod.rs\<close>, \<open>entry.rs\<close>, \<open>hint.rs\<close>): entries, tombstones and hint records on disk, with the
    checksum (\<open>crc32fast\<close>, another crate) as a parameter.
  \<^item> \<open>Keydir\<close> (\<open>src/keydir.rs\<close>): the index. The iteration order of a \<open>HashMap\<close> is a parameter. The locale
    \<open>key_index\<close> states what recovery, merge and the engine rely on.
  \<^item> \<open>DataFile\<close> (\<open>src/datafile.rs\<close>): the active file, the set of data files with its cache of handles, the file names.
  \<^item> \<open>Commit\<close> and \<open>CommitSteps\<close> (\<open>src/commit.rs\<close>): group commit, as a function for the thread that calls it and as a
    step relation over any number of threads whose steps are the sections that hold the mutex.
  \<^item> \<open>Recovery\<close> (\<open>src/recovery.rs\<close>): rebuilding the index from data files and hint files, warnings included.
  \<^item> \<open>Api\<close> (\<open>src/error.rs\<close>, \<open>src/api.rs\<close>, \<open>src/metrics.rs\<close>): errors and their messages, options, the calls a metrics
    object receives.
  \<^item> \<open>MergeWriter\<close> (\<open>src/merge/output_writer.rs\<close>, \<open>pending_queue.rs\<close>) and \<open>Merge\<close> (\<open>src/merge/mod.rs\<close>): compaction.
    The hook that runs before each repoint stands for other threads: any function on what merge shares with them.
  \<^item> \<open>Engine\<close> (\<open>src/engine.rs\<close>, \<open>src/lock.rs\<close>): the engine and the trait's methods. The advisory lock (\<open>fs2\<close>, another
    crate) is a parameter that refuses a lock somebody holds.
  \<^item> \<open>Interleave\<close> (\<open>src/engine.rs\<close> again): \<open>put\<close>, \<open>delete\<close> and \<open>get\<close> as the steps of concurrent threads, cut wherever a
    lock is released, with a schedule that says which thread moves next.
  \<^item> \<open>SharedKeydir\<close> (\<open>src/keydir.rs\<close>): the index behind its lock, as the sequence of the calls of all threads.
  \<^item> \<open>Refinement\<close> also holds the driver of \<open>tests/model.rs\<close>; \<open>Utf8\<close> and \<open>Kv\<close> model \<open>src/bin/kv.rs\<close>, \<open>Xtask\<close> the release
    task. \<open>Loadtest\<close> and \<open>LoadRun\<close> are \<open>src/bin/loadtest.rs\<close>: what it computes, and its threads under a schedule.
    \<open>BasicUsage\<close>, \<open>Todo\<close> with \<open>TodoRun\<close>, and \<open>Firehose\<close> with \<open>FirehoseDraw\<close> are the three programs under \<open>examples\<close>.
    \<open>Demo\<close> has the concrete parameters and store on which the properties are instantiated.

  \<^bold>\<open>What the lemmas show.\<close>

  \<^item> \<open>Log\<close> and \<open>Disk\<close>: the abstract view. A data file is a list of records, the directory a list \<open>L\<close> of files in the
    order of their ids; \<open>index_files\<close> replays them, \<open>contents L\<close> is the map that results. \<open>disk C w L T\<close> says that
    the world holds exactly these files, each followed by a torn tail \<open>T\<close>, and that a hint file that passes its
    checksum describes its data file; recovery computes \<open>index_files\<close>, from scans and from hints alike.
  \<^item> \<open>Store\<close>, \<open>Writes\<close>, \<open>EngineOps\<close>, \<open>Lifecycle\<close>: the invariant \<open>eng_inv\<close> of an open engine without faults, and what
    appending, rotating, reading, opening and closing do to it.
  \<^item> \<open>WriterOps\<close>, \<open>MergeIndex\<close>, \<open>MergeProof\<close>, \<open>MergeOps\<close>: a merge keeps \<open>contents\<close>. The outputs hold the live entries
    seen so far; what is queued turns the index into that of the old files followed by the outputs; a rotation
    at the end keeps the active file the newest. \<open>CopyLoop\<close>: the loops that copy, once for all invariants: the locale
    \<open>copying\<close> asks what a live entry, a dead entry and a drained queue do to an invariant, and gives what the whole
    loop does; it is interpreted for a merge without a hook (\<open>MergeProof\<close>) and for one with (\<open>MergeRace\<close>).
  \<^item> \<open>Refinement\<close>: \<open>engine_rep C opts n s m\<close>, the engine \<open>s\<close> represents the map \<open>m\<close>, and each operation does to \<open>m\<close>
    what its documentation says. The locale \<open>kv_store\<close> is this contract; the model test and the applications are
    verified against it.
  \<^item> \<open>Crash\<close>: after a crash every file has a prefix that contains what was synced (\<open>crashed\<close>); what \<open>open\<close> then finds,
    if the names of the files have survived as well (\<open>directory_kept\<close>), and what it finds if they have not. The code
    syncs files but never the directory, so the former is an assumption that nothing in the code secures.
  \<^item> \<open>Faults\<close>: what holds whatever the system calls do. \<open>always\<close> lifts a relation between the states before and
    after each system call to whole operations; the locale \<open>fault_relation\<close> is interpreted for each layer, and for
    \<open>keeps\<close> (old bytes of data files stay) as well as \<open>no_writes\<close> (data files are not written at all).
  \<^item> \<open>Interleave\<close> and \<open>Linearize\<close>: a thread that is alone does what the engine's call does; under every schedule the calls
    are atomic, and without \<open>sync_on_put\<close> they return after three steps. A commit is one step here; how threads wait for
    each other's fsyncs is the subject of \<open>CommitSteps\<close>. The invariant \<open>live\<close> is weaker than \<open>eng_inv\<close>: every entry of the index is the place of
    the current value, but the log may have another order. Two ghost lists record the order in memory and in the log.
  \<^item> \<open>Hide\<close>, \<open>MergeLive\<close>, \<open>MergeRace\<close>, \<open>MergeSafe\<close>: a merge during which other threads write. \<open>hide ids w\<close> is the world \<open>w\<close>
    without the files of the outputs, which the writing threads do not know; \<open>beside\<close> is the invariant of a store
    with such files beside it. \<open>writes_hook\<close> runs puts and deletes before each repoint; \<open>live_idx\<close> says what the index
    holds after some of these windows, whatever was written in them: an entry that a window replaced is not
    repointed, one that no window replaced is.
  \<^item> \<open>MergeFaults\<close>: the writes of other threads keep the data files, as \<open>Faults\<close> assumes of what runs during a merge.
  \<^item> \<open>MergeGet\<close>: the one call that a merge can harm, a get that has looked up its place before the merge and reads it after.
  \<^item> \<open>LoadRun\<close>: multisets account for every sample; a measure shows that the threads stop. That no thread panics is shown
    without the merge thread, since a get can fail while a merge runs.
  \<^item> \<open>CommitSteps\<close>: an invariant of all reachable states of group commit, by rule induction; a measure that no event
    increases but a new write and a rotation, and that every step of a call decreases.

  \<^bold>\<open>Bounds.\<close> File ids and write generations are words that the code increments without a check, so the properties
  carry a budget \<open>n\<close> (\<open>room\<close>): an engine that has room for \<open>n\<close> more ids and generations. One operation uses one
  of each, a merge of a store with \<open>d\<close> keys at most \<open>d + 2\<close>. For \<open>model_matches_reference\<close> 60000 operations stay
  within the 32 bits of a file id, for every maximal file size, since \<open>60000 * 60002 < 2 ^ 32\<close>. The reading loops
  terminate because every record read shortens what is left; \<open>gc_commit\<close> is a partial function that is shown to
  return, and with \<open>n\<close> threads \<open>n * (n + 2)\<close> steps are enough, plus \<open>n + 2\<close> for every write and \<open>n\<close> for every rotation that
  arrives meanwhile.

  \<^bold>\<open>Not modelled.\<close> Durations and the clock (timestamps are arguments); tracing spans; poisoned mutexes; running out
  of memory. Merge runs concurrently with other threads only in the windows before its repoints, through the hook,
  and only writes run there in \<open>merge_keeps_concurrent_writes\<close>, each to its end. That theorem is about the handle that
  stays open: what \<open>open\<close> finds after such a merge is not shown, as a record written during the merge can be in a
  file with a smaller id than the copy of the record it replaces (the README names this limit). The load generator makes
  every call on the datastore in one step. The examples are modelled without the terminal, the layout of their
  screens or the network; decoding, floating-point arithmetic, JSON and running processes are parameters. Definitions
  follow a release build: integers wrap around; the one debug assertion of the library that a caller can trip is modelled
  beside it (\<open>encode_key_size_checked\<close>). A crash in the middle of a call is not modelled, only one between calls. Wiping a directory,
  parsing arguments and progress messages are left out. Not modelled at all: the micro-benchmarks, which only time the
  operations above; the macro that forwards warnings; the set-up of the firehose connection.
\<close>

section \<open>The engine and a map\<close>

text \<open>
  C1: From an empty directory, every sequence of at most 60000 puts, deletes, gets, merges and
  reopenings (the handle dropped without a close) agrees with a \<open>HashMap\<close>: no call fails or
  blocks, every get returns the map's value, and at the end the keys and their values are the
  map's. This is the property test of \<open>tests/model.rs\<close>, for all its inputs and all its
  configurations, whatever the timestamps, the checksum and the iteration orders.
\<close>

theorem model_matches_reference:
  assumes "crc32fast_ok C" and "flock_ok flk" and "iteration_order kord" and "iteration_order ord"
    and "o_is_read_write opts" and "unat (o_max_file_size opts) \<le> 2 ^ 63"
    and "\<forall>(op, now) \<in> set ops. op_ok op" and "length ops \<le> 60000"
  shows "run_engine_model C flk opts kord ord ops"
proof -
  have "length ops * (0 + length ops + 2) \<le> 60000 * (60000 + 2)"
    using assms(8) by (intro mult_le_mono) simp_all
  then have n: "cost 0 ops \<le> 60000 * (60000 + 2)" using cost_bound [of 0 ops] by linarith
  obtain s where s: "engine_open C flk opts empty_world = (Inr (fst s), snd s)"
    and r: "engine_rep C opts (cost 0 ops) s Map.empty"
    using open_refines [OF closed_empty _ _ assms(2,5,6), of "cost 0 ops" C] n by (auto simp: next_id_def)
  then have "engine_store C flk opts kord (cost 0 ops) s Map.empty"
    using assms(1-3) by (simp add: engine_store_def)
  from eng.passes_run_model [OF this assms(7,4)] show ?thesis
    by (simp add: run_engine_model_def unwrap_def s)
qed

lemma model_matches_reference_witness:
  "run_engine_model byte_sum toy_flock small_file_options rev (\<lambda>xs. xs)
     [(Put [97] [1, 2], 10), (Merge, 11), (Delete [98], 12), (Reopen, 13), (Get [97], 14), (Put [97] [], 15)]"
  by (rule model_matches_reference [OF byte_sum_ok toy_flock_ok id_order(2,1)])
    (simp_all add: small_file_options_def default_options_def valid_key_def sizes_ok_def)

section \<open>The operations\<close>

text \<open>
  C10: A put of a non-empty key within the size limits succeeds and returns, and the store then holds the
  new value under that key and what it held under all others.
\<close>

theorem put_correct:
  assumes "engine_rep C opts (Suc n) s m" and "valid_key k" and "sizes_ok k v"
  shows "\<exists>s'. engine_put C k v ts s = Some (Inr (), s') \<and> engine_rep C opts n s' (m(k \<mapsto> v))"
  by (rule put_refines [OF assms])

lemma put_correct_witness:
  "\<exists>s'. engine_put byte_sum [107] [118] 7 demo_db = Some (Inr (), s') \<and>
     engine_rep byte_sum sync_options 3 s' [[107] \<mapsto> [118]]"
  by (rule put_correct [OF demo_rep(1)]) (simp_all add: valid_key_def sizes_ok_def)

text \<open>
  C11: A delete of a key that may or may not be there succeeds and returns, and the store then holds nothing
  under it and what it held under all others.
\<close>

theorem delete_correct:
  assumes "engine_rep C opts (Suc n) s m" and "valid_key k"
  shows "\<exists>s'. engine_delete C k ts s = Some (Inr (), s') \<and> engine_rep C opts n s' (m(k := None))"
  by (rule delete_refines [OF assms])

lemma delete_correct_witness:
  "\<exists>s'. engine_delete byte_sum [107] 7 demo_db = Some (Inr (), s') \<and>
     engine_rep byte_sum sync_options 3 s' (Map.empty([107] := None))"
  by (rule delete_correct [OF demo_rep(1)]) (simp_all add: valid_key_def)

text \<open>C12: A get returns what the store holds under the key, and changes nothing.\<close>

theorem get_correct:
  assumes "engine_rep C opts n s m"
  shows "\<exists>s'. engine_get k s = (Inr (m k), s') \<and> snd s' = snd s \<and> engine_rep C opts n s' m"
proof -
  obtain eg w L T where s: "s = (eg, w)" and inv: "eng_inv C (eg, w) L T" and m: "contents L = m"
    using assms by (rule engine_repE)
  obtain eg' where "engine_get k (eg, w) = (Inr (contents L k), (eg', w))"
    by (rule engine_get_inv [OF eng_inv_read [OF inv]])
  then show ?thesis using get_refines [OF assms, of k] s m by auto
qed

lemma get_correct_witness:
  "\<exists>s'. engine_get [107] demo_db = (Inr None, s') \<and> snd s' = snd demo_db \<and>
     engine_rep byte_sum sync_options 3 s' Map.empty"
  using get_correct [OF demo_rep(1) [of 3], of "[107]"] by simp

text \<open>
  C13: A fold visits every key of the store exactly once, with its value, in the order in which the index
  yields the keys; \<open>list_keys\<close> is that list of keys.
\<close>

theorem fold_correct:
  assumes "engine_rep C opts n s m" and "iteration_order ord"
  shows "\<exists>ks s'. list_keys ord s = (Inr ks, s) \<and> distinct ks \<and> set ks = dom m \<and>
    engine_fold ord f init s = (Inr (fold (\<lambda>k. f k (the (m k))) ks init), s') \<and> engine_rep C opts n s' m"
  by (rule fold_refines [OF assms])

lemma fold_correct_witness:
  "\<exists>ks s'. list_keys rev demo_db = (Inr ks, demo_db) \<and> distinct ks \<and> set ks = dom (Map.empty :: kv) \<and>
    engine_fold rev (\<lambda>k v n. n + length v) (0 :: nat) demo_db =
      (Inr (fold (\<lambda>k n. n + length (the ((Map.empty :: kv) k))) ks 0), s') \<and>
    engine_rep byte_sum sync_options 3 s' Map.empty"
  by (rule fold_correct [OF demo_rep(1) id_order(2)]) simp

text \<open>
  C5: A merge succeeds and does not change what the store holds, for every store and every file size,
  and removes every file older than the one that was active.
\<close>

theorem merge_correct:
  assumes "engine_rep C opts (n + card (dom m) + 2) s m" and "crc32fast_ok C"
  shows "\<exists>s'. engine_merge C s = (Inr (), s') \<and> engine_rep C opts n s' m \<and>
    (\<forall>af f. eg_active (fst s) = Some af \<longrightarrow> f < af_file_id af \<longrightarrow> lookup (data_path f) (snd s') = None)"
proof -
  obtain eg w L T where s: "s = (eg, w)" and inv: "eng_inv C (eg, w) L T" and m: "contents L = m"
    and r: "room (Suc (n + card (dom m) + 2)) eg"
    using assms(1) by (rule engine_repE)
  have rm: "unat (eg_next_file_id eg) + card (dom (contents L)) + 4 \<le> 2 ^ 32" using r m by (simp add: room_def)
  obtain eg' w' L' T' where g: "engine_merge C (eg, w) = (Inr (), (eg', w'))" and i: "eng_inv C (eg', w') L' T'"
    and old: "\<And>af f. eg_active eg = Some af \<Longrightarrow> f \<in> fst ` set L' \<Longrightarrow> af_file_id af \<le> f"
    by (rule engine_merge_inv [OF inv assms(2) rm]) blast
  have d: "disk C w' L' T'" using i by (auto simp: eng_inv_def store_ok_def)
  have "lookup (data_path f) w' = None" if "eg_active eg = Some af" "f < af_file_id af" for af f
  proof -
    have "f \<notin> fst ` set L'" using old [OF that(1)] that(2) leD by blast
    then have "map_of L' f = None" by (simp add: map_of_eq_None_iff)
    then show ?thesis using diskD(3) [OF d, of f] by (simp add: file_bytes_None)
  qed
  then show ?thesis using merge_refines [OF assms] g s by auto
qed

lemma merge_correct_witness:
  "\<exists>s'. engine_merge byte_sum demo_db = (Inr (), s') \<and> engine_rep byte_sum sync_options 3 s' Map.empty \<and>
    (\<forall>af f. eg_active (fst demo_db) = Some af \<longrightarrow> f < af_file_id af \<longrightarrow> lookup (data_path f) (snd s') = None)"
  by (rule merge_correct [OF demo_rep(1) byte_sum_ok]) simp

section \<open>Closing, crashing and opening\<close>

text \<open>
  C9: A handle that is dropped without \<open>close\<close>, or closed, leaves a directory from which \<open>open\<close> restores
  the store; \<open>close\<close> reports success and leaves the active file synced.
\<close>

theorem reopen_correct:
  assumes "engine_rep C opts (Suc n) s m" and "flock_ok flk"
  shows "(\<exists>s'. engine_open C flk opts (engine_drop s) = (Inr (fst s'), snd s') \<and> engine_rep C opts n s' m) \<and>
    (\<exists>w s'. engine_close s = (Inr (), w) \<and>
      (\<forall>af. eg_active (fst s) = Some af \<longrightarrow> durable_file (data_path (af_file_id af)) w) \<and>
      engine_open C flk opts w = (Inr (fst s'), snd s') \<and> engine_rep C opts n s' m)"
proof (rule conjI [OF reopen_refines [OF assms]])
  obtain eg w L T where s: "s = (eg, w)" and inv: "eng_inv C (eg, w) L T" and m: "contents L = m"
    and r: "room (Suc (Suc n)) eg" and o: "eg_opts eg = opts"
    using assms(1) by (rule engine_repE)
  obtain af where af: "eg_active eg = Some af" and fs: "w_outs w = []" "world_ok w" "bw_buf (af_writer af) = []"
    "lookup (data_path (af_file_id af)) w = Some (bw_file (af_writer af))"
    using inv by (auto simp: eng_inv_def store_ok_def active_ok_def)
  obtain w' where c: "engine_close (eg, w) = (Inr (), w')" and cl: "closed_ok C w' L T" and L: "L \<noteq> []"
    "fst (last L) < eg_next_file_id eg"
    by (rule engine_close_inv [OF inv])
  have opts: "o_is_read_write opts" "unat (o_max_file_size opts) \<le> 2 ^ 63"
    using inv o by (auto simp: eng_inv_def)
  have b: "next_id L + n + 2 < 2 ^ 32" "n + 1 < 2 ^ 64" using r L by (simp_all add: room_def next_id_def word_less_nat_alt)
  have "w' = dirlock_drop (eg_write_lock eg) (mark_durable (bw_file (af_writer af)) w)"
    using c by (simp add: engine_close_def af af_sync_flushed [OF fs(1,3)] engine_drop_def fs(3))
  then have "durable_file (data_path (af_file_id af)) w'"
    using durable_file_marked [OF fs(4) lookup_bound [OF fs(2,4)]] by (simp add: dirlock_drop_def split: option.splits)
  then show "\<exists>w s'. engine_close s = (Inr (), w) \<and>
      (\<forall>af. eg_active (fst s) = Some af \<longrightarrow> durable_file (data_path (af_file_id af)) w) \<and>
      engine_open C flk opts w = (Inr (fst s'), snd s') \<and> engine_rep C opts n s' m"
    using open_refines [OF cl b assms(2) opts] c af s m by auto
qed

lemma reopen_correct_witness:
  "(\<exists>s'. engine_open byte_sum toy_flock sync_options (engine_drop demo_db) = (Inr (fst s'), snd s') \<and>
     engine_rep byte_sum sync_options 3 s' Map.empty) \<and>
   (\<exists>w s'. engine_close demo_db = (Inr (), w) \<and>
      (\<forall>af. eg_active (fst demo_db) = Some af \<longrightarrow> durable_file (data_path (af_file_id af)) w) \<and>
      engine_open byte_sum toy_flock sync_options w = (Inr (fst s'), snd s') \<and>
      engine_rep byte_sum sync_options 3 s' Map.empty)"
  by (rule reopen_correct [OF demo_rep(1) toy_flock_ok]) simp

text \<open>
  C8: Opening a directory that any sequence of writers left gives the contents of its data files, newest
  last, even if data files end in a torn record and hint files are missing or fail their checksum.
\<close>

theorem open_recovers:
  assumes "closed_ok C w L T" and "next_id L + n + 2 < 2 ^ 32" and "n + 1 < 2 ^ 64" and "flock_ok flk"
    and "o_is_read_write opts" and "unat (o_max_file_size opts) \<le> 2 ^ 63"
  shows "\<exists>s'. engine_open C flk opts w = (Inr (fst s'), snd s') \<and> engine_rep C opts n s' (contents L) \<and>
    w_warnings (snd s') = w_warnings w @ recovery_warnings C w T L"
proof -
  have "next_id L < 2 ^ 32 - 1" using assms(2) by simp
  then obtain eg w' where "engine_open C flk opts w = (Inr eg, w')"
    and "w_warnings w' = w_warnings w @ recovery_warnings C w T L"
    using engine_open_inv [OF assms(1) _ assms(4-6)] by blast
  then show ?thesis using open_refines [OF assms] by auto
qed

text \<open>A directory with one data file that ends in a torn record.\<close>

definition torn_world :: world where
  "torn_world = \<lparr>w_dir = [(data_path 0, 0)],
     w_inodes = [\<lparr>i_data = log_bytes byte_sum [([107], [118], False, 7)] @ [1, 2, 3], i_durable = 0\<rparr>],
     w_locks = [], w_outs = [], w_warnings = []\<rparr>"

lemma torn_world_ok: "closed_ok byte_sum torn_world [(0, [([107], [118], False, 7)])] (\<lambda>_. [1, 2, 3])"
proof -
  have "torn byte_sum [1, 2, 3]" by (simp add: torn_def parse_entry_def HEADER_SIZE_def)
  then show ?thesis
    by (auto simp: closed_ok_def disk_def torn_world_def world_ok_def file_bytes_def lookup_def data_of_def
        sizes_ok_def HEADER_SIZE_def)
qed

lemma open_recovers_witness:
  "\<exists>s'. engine_open byte_sum toy_flock default_options torn_world = (Inr (fst s'), snd s') \<and>
    engine_rep byte_sum default_options 5 s' (contents [(0, [([107], [118], False, 7)])]) \<and>
    w_warnings (snd s') = w_warnings torn_world @ recovery_warnings byte_sum torn_world (\<lambda>_. [1, 2, 3])
      [(0, [([107], [118], False, 7)])]"
  by (rule open_recovers [OF torn_world_ok _ _ toy_flock_ok]) (simp_all add: next_id_def default_options_def)

text \<open>
  C3: What \<open>open\<close> finds after a crash between two calls, if the crash keeps the directory entries: of every data file
  some first records, in their order, and all of them if the file was synced; nothing is made up, and no damaged file
  makes \<open>open\<close> fail. In particular, if every file but the active one was synced, the store holds what a prefix of the
  writes to the active file left. A file that was dropped without \<open>close\<close> need not be synced, and can lose its last
  records while newer files keep theirs. Assumed besides the directory entries, which nothing in the code secures: a
  hint file that has lost bytes fails its checksum (hint files are not synced), and data files that have a hint file
  are synced, as a merge leaves them.
\<close>

theorem crash_recovers_prefix:
  assumes "eng_inv C (eg, w) L T" and "crashed w w'" and "directory_kept w w'" and "hint_damage_detected C w w'"
    and "hinted_files_synced w" and "room (n + 2) eg" and "flock_ok flk"
  shows "\<exists>kept_recs s'. engine_open C flk (eg_opts eg) w' = (Inr (fst s'), snd s') \<and>
    engine_rep C (eg_opts eg) n s' (contents (map (\<lambda>(fid, rs). (fid, take (kept_recs fid) rs)) L)) \<and>
    (\<forall>(fid, rs) \<in> set L. durable_file (data_path fid) w \<longrightarrow> take (kept_recs fid) rs = rs)"
proof -
  obtain kept_recs s' where "engine_open C flk (eg_opts eg) w' = (Inr (fst s'), snd s')"
    and "engine_rep C (eg_opts eg) n s' (contents (cut_files kept_recs L))"
    and "\<forall>(fid, rs) \<in> set L. durable_file (data_path fid) w \<longrightarrow> take (kept_recs fid) rs = rs"
    by (rule crash_reopen [OF assms]) blast
  then show ?thesis unfolding cut_files_def by blast
qed

lemma crash_recovers_prefix_witness:
  "\<exists>s'. crashed (snd demo_db) (engine_drop demo_db) \<and>
    engine_open byte_sum toy_flock sync_options (engine_drop demo_db) = (Inr (fst s'), snd s') \<and>
    engine_rep byte_sum sync_options 7 s' Map.empty"
proof -
  obtain eg w where e: "demo_db = (eg, w)" and i: "eng_inv byte_sum (eg, w) [(0, [])] (\<lambda>_. [])"
    and p: "eg_next_file_id eg = 1" "gc_pending_writes (eg_gc eg) = 0" and d: "durable_file (data_path 0) w"
    and o: "eg_opts eg = sync_options"
    by (rule demo_inv)
  have hs: "hinted_files_synced w" using d by (intro hinted_if_synced [OF i]) simp
  have r: "room (7 + 2) eg" using p by (simp add: room_def)
  have "contents [(0, [])] = Map.empty" by (simp add: contents_def fun_eq_iff)
  then show ?thesis
    using crash_recovers_prefix [OF i crashed_dropped [OF i] hs r toy_flock_ok] crashed_dropped(1) [OF i] unfolding e o by auto
qed

text \<open>
  C2: With \<open>sync_on_put\<close>, on a store whose data files are all synced, a put that has returned survives every later
  crash that keeps the directory entries, along with everything the store held: the next \<open>open\<close> finds it, and the
  store is again one whose data files are all synced, so that this holds for any number of puts. Assumed: the crash
  keeps the directory entries, which \<open>fsync\<close> of a file does not promise and the code does not secure (see the next
  property), and a hint file that has lost bytes fails its checksum.
\<close>

theorem synced_put_survives_crash:
  assumes "synced_store C opts (Suc (Suc n)) s m" and "o_should_sync_on_put opts" and "valid_key k" and "sizes_ok k v"
    and "flock_ok flk"
  shows "\<exists>s'. engine_put C k v ts s = Some (Inr (), s') \<and> synced_store C opts (Suc n) s' (m(k \<mapsto> v)) \<and>
    (\<forall>w. crashed (snd s') w \<longrightarrow> directory_kept (snd s') w \<longrightarrow> hint_damage_detected C (snd s') w \<longrightarrow>
      (\<exists>s''. engine_open C flk opts w = (Inr (fst s''), snd s'') \<and> engine_rep C opts n s'' (m(k \<mapsto> v))))"
proof -
  obtain s' where put: "engine_put C k v ts s = Some (Inr (), s')" and st: "synced_store C opts (Suc n) s' (m(k \<mapsto> v))"
    using synced_put [OF assms(1-4)] by blast
  obtain eg w L T where s': "s' = (eg, w)" and i: "eng_inv C (eg, w) L T" and c: "contents L = m(k \<mapsto> v)"
    and r: "room (Suc (Suc n)) eg" and o: "eg_opts eg = opts" and d: "\<forall>f \<in> fst ` set L. durable_file (data_path f) w"
    using st by (rule synced_storeE)
  have r2: "room (n + 2) eg" using r by simp
  have "\<exists>s''. engine_open C flk opts w' = (Inr (fst s''), snd s'') \<and> engine_rep C opts n s'' (m(k \<mapsto> v))"
    if cr: "crashed w w'" "directory_kept w w'" "hint_damage_detected C w w'" for w'
  proof -
    obtain kept_recs s'' where op: "engine_open C flk (eg_opts eg) w' = (Inr (fst s''), snd s'')"
      "engine_rep C (eg_opts eg) n s'' (contents (cut_files kept_recs L))"
      and all: "\<forall>(fid, rs) \<in> set L. durable_file (data_path fid) w \<longrightarrow> take (kept_recs fid) rs = rs"
      by (rule crash_reopen [OF i cr hinted_if_synced [OF i d] r2 assms(5)]) blast
    have "cut_files kept_recs L = L" using all d by (intro cut_files_all) force
    then show ?thesis using op c o by auto
  qed
  then show ?thesis using put st s' by auto
qed

lemma synced_put_survives_crash_witness:
  "\<exists>s'. engine_put byte_sum [107] [118] 7 demo_db = Some (Inr (), s') \<and>
    synced_store byte_sum sync_options (Suc 3) s' [[107] \<mapsto> [118]] \<and>
    (\<forall>w. crashed (snd s') w \<longrightarrow> directory_kept (snd s') w \<longrightarrow> hint_damage_detected byte_sum (snd s') w \<longrightarrow>
      (\<exists>s''. engine_open byte_sum toy_flock sync_options w = (Inr (fst s''), snd s'') \<and>
         engine_rep byte_sum sync_options 3 s'' [[107] \<mapsto> [118]]))"
  by (rule synced_put_survives_crash [OF demo_rep(2) _ _ _ toy_flock_ok])
    (simp_all add: valid_key_def sizes_ok_def sync_options_def)

text \<open>
  C4: A directory entry is not durable before the directory itself is synced, which the code never does. Open a
  directory and put a key, with or without \<open>sync_on_put\<close>: the put succeeds. After a crash that loses no byte of any
  file, but the entries of the data files that did not exist before that \<open>open\<close>, the next \<open>open\<close> succeeds and finds
  what the store held before the put.
\<close>

theorem synced_put_lost_with_directory:
  assumes "closed_ok C w0 L T" and "next_id L + n + 3 < 2 ^ 32" and "flock_ok flk" and "o_is_read_write opts"
    and "unat (o_max_file_size opts) \<le> 2 ^ 63" and "valid_key k" and "sizes_ok k v"
  shows "\<exists>s s' w s''. engine_open C flk opts w0 = (Inr (fst s), snd s) \<and> engine_put C k v ts s = Some (Inr (), s') \<and>
    crashed (snd s') w \<and> w_inodes w = w_inodes (snd s') \<and>
    (\<forall>name. lookup name w =
      (if (\<exists>fid. name = data_path fid) \<and> lookup name w0 = None then None else lookup name (snd s'))) \<and>
    engine_open C flk opts w = (Inr (fst s''), snd s'') \<and> engine_rep C opts n s'' (contents L)"
proof -
  have k: "k \<noteq> []" using assms(6) by (simp add: valid_key_def)
  obtain s s' s'' where "engine_open C flk opts w0 = (Inr (fst s), snd s)" "engine_put C k v ts s = Some (Inr (), s')"
    "crashed (snd s') (lose_new_names w0 (snd s'))"
    "engine_open C flk opts (lose_new_names w0 (snd s')) = (Inr (fst s''), snd s'')" "engine_rep C opts n s'' (contents L)"
    by (rule put_then_lose [OF assms(1-5) k assms(7)])
  moreover have "w_inodes (lose_new_names w0 (snd s')) = w_inodes (snd s')" by (simp add: lose_new_names_def)
  moreover have "\<forall>name. lookup name (lose_new_names w0 (snd s')) =
      (if (\<exists>fid. name = data_path fid) \<and> lookup name w0 = None then None else lookup name (snd s'))"
    by (auto simp: lookup_lose)
  ultimately show ?thesis by blast
qed

lemma synced_put_lost_with_directory_witness:
  "\<exists>s s' w s''. engine_open byte_sum toy_flock sync_options empty_world = (Inr (fst s), snd s) \<and>
    engine_put byte_sum [107] [118] 7 s = Some (Inr (), s') \<and> crashed (snd s') w \<and> w_inodes w = w_inodes (snd s') \<and>
    (\<forall>name. lookup name w =
      (if (\<exists>fid. name = data_path fid) \<and> lookup name empty_world = None then None else lookup name (snd s'))) \<and>
    engine_open byte_sum toy_flock sync_options w = (Inr (fst s''), snd s'') \<and>
    engine_rep byte_sum sync_options 5 s'' (contents [])"
  by (rule synced_put_lost_with_directory [OF closed_empty _ toy_flock_ok])
    (simp_all add: next_id_def sync_options_def default_options_def valid_key_def sizes_ok_def)

section \<open>Refusals\<close>

text \<open>
  C25: While a handle is open for writing, whatever it has done so far, opening the directory for writing
  again is refused with \<open>AlreadyLocked\<close>, and that attempt changes no file but the lock file, which it empties.
\<close>

theorem second_writer_refused:
  assumes "engine_rep C opts n s m" and "flock_ok flk" and "o_is_read_write opts'"
  shows "\<exists>w'. engine_open C flk opts' (snd s) = (Inl AlreadyLocked, w') \<and> w_locks w' = w_locks (snd s) \<and>
    (\<forall>name. name \<noteq> LOCK_FILE \<longrightarrow> file_bytes name w' = file_bytes name (snd s))"
proof -
  obtain eg w L T where s: "s = (eg, w)" and inv: "eng_inv C (eg, w) L T" using assms(1) by (rule engine_repE)
  obtain l where l: "w_locks w = [l]" "lookup LOCK_FILE w = Some l" "w_outs w = []" "world_ok w"
    using inv by (auto simp: eng_inv_def store_ok_def)
  obtain i w' where c: "create_file LOCK_FILE w = (Inr i, w')" "w_locks w' = w_locks w" "lookup LOCK_FILE w' = Some i"
    and b: "\<And>n. n \<noteq> LOCK_FILE \<Longrightarrow> file_bytes n w' = file_bytes n w"
    by (rule create_file_no_fault [OF l(3,4), of LOCK_FILE]) blast
  have "i = l" using c(1) l(2,3) by (simp add: create_file_def sys_no_fault)
  then have "flk i (w_locks w') = None" using assms(2) c(2) l(1) by (simp add: flock_ok_def)
  then have "engine_open C flk opts' w = (Inl AlreadyLocked, w')"
    using assms(3) l(3) by (simp add: engine_open_def bindE_def map_err_def create_dir_all_def sys_no_fault
        dirlock_acquire_def c(1))
  then show ?thesis using c(2) b s by auto
qed

lemma second_writer_refused_witness:
  "\<exists>w'. engine_open byte_sum toy_flock default_options (snd demo_db) = (Inl AlreadyLocked, w') \<and>
    w_locks w' = w_locks (snd demo_db) \<and>
    (\<forall>name. name \<noteq> LOCK_FILE \<longrightarrow> file_bytes name w' = file_bytes name (snd demo_db))"
  by (rule second_writer_refused [OF demo_rep(1) [of 3] toy_flock_ok]) (simp_all add: default_options_def)

text \<open>
  An empty key and a handle that is not open for writing are refused before anything happens: neither the
  engine nor the world changes.
\<close>

theorem refused_writes:
  "engine_put C [] v ts s = Some (Inl EmptyKey, s) \<and> engine_delete C [] ts s = Some (Inl EmptyKey, s) \<and>
   (\<not> o_is_read_write (eg_opts (fst s)) \<longrightarrow>
      (k \<noteq> [] \<longrightarrow> engine_put C k v ts s = Some (Inl ReadOnly, s) \<and> engine_delete C k ts s = Some (Inl ReadOnly, s)) \<and>
      engine_merge C s = (Inl ReadOnly, s) \<and> engine_merge_with_hook C hook s = (Inl ReadOnly, s))"
  by (cases s) (simp add: engine_put_def engine_delete_def engine_merge_def engine_merge_with_hook_def require_write_def)

lemma refused_writes_witness:
  "engine_merge byte_sum (fst demo_db\<lparr>eg_opts := read_only default_options\<rparr>, empty_world) =
     (Inl ReadOnly, (fst demo_db\<lparr>eg_opts := read_only default_options\<rparr>, empty_world))"
  using refused_writes [of byte_sum "[]" 0 "(fst demo_db\<lparr>eg_opts := read_only default_options\<rparr>, empty_world)"]
  by (simp add: read_only_def)

end
